theory Spec2Isabelle
  imports Main "HOL-Library.Word" "HOL-Library.Char_ord" "HOL-Library.List_Lexorder"
begin

section \<open>Data model of \<^verbatim>\<open>RooFitDriver.cxx\<close>\<close>

text \<open>
  The driver owns a vector \<^verbatim>\<open>_nodes\<close> of \<^verbatim>\<open>NodeInfo\<close> structs, one per node of the
  computation graph, in the order delivered by the graph provider. The \<^verbatim>\<open>NodeInfo *\<close>
  edges (\<^verbatim>\<open>serverInfos\<close>, \<^verbatim>\<open>clientInfos\<close>) point into that vector and are
  modelled as indices into it. The values computed by the kernels are opaque to the driver;
  they are kept polymorphic (\<open>'v\<close> stands for \<^verbatim>\<open>double\<close>).
\<close>

datatype BatchModeOption = Off | Cpu | Cuda

datatype OperMode = Auto | AClean | ADirty

datatype BufferKind = CpuBuffer | GpuBuffer | PinnedBuffer

text \<open>
  A pooled buffer (\<^verbatim>\<open>Detail::AbsBuffer\<close>): its kind and the values it currently holds.
  A pinned buffer is visible from both sides; its host and device views are identified.
\<close>

record 'v AbsBuffer =
  bufferKind :: BufferKind
  bufferData :: "'v list"

text \<open>
  A span is a pointer with a length. The pointers the driver publishes are: the memory of
  a dataset column (external and immutable, identified with the values it holds), the
  \<^verbatim>\<open>scalarBuffer\<close> of a node, the host or device view of the pooled buffer of a node,
  and an offset into the contiguous device array \<^verbatim>\<open>_cudaMemDataset\<close>.
\<close>

datatype 'v Pointer =
    DataPtr "'v list"
  | ScalarPtr nat
  | CpuPtr nat
  | GpuPtr nat
  | DevDataPtr nat

type_synonym 'v Span = "'v Pointer \<times> nat"

text \<open>
  The fields of \<^verbatim>\<open>NodeInfo\<close>, together with the properties of the \<^verbatim>\<open>RooAbsArg\<close> it
  points to that the driver reads (\<open>argName\<close>, \<open>isReducerNode\<close>,
  \<open>canComputeBatchWithCuda\<close>, \<open>operMode\<close>). \<^verbatim>\<open>std::size_t\<close> counters that are only
  compared are 64-bit words; sizes are naturals; \<^verbatim>\<open>remClients\<close> and \<^verbatim>\<open>remServers\<close>
  are C++ \<^verbatim>\<open>int\<close>s that go negative.
\<close>

record 'v NodeInfo =
  argName :: string
  isReducerNode :: bool
  canComputeBatchWithCuda :: bool
  operMode :: OperMode
  buffer :: "'v AbsBuffer option"
  iNode :: nat
  remClients :: int
  remServers :: int
  copyAfterEvaluation :: bool
  hasLogged :: bool
  fromDataset :: bool
  isVariable :: bool
  isDirty :: bool
  isCategory :: bool
  outputSize :: nat
  lastSetValCount :: "64 word"
  scalarBuffer :: 'v
  serverInfos :: "nat list"
  clientInfos :: "nat list"

text \<open>
  What the driver does to the outside world is recorded in an event log: kernel
  invocations on either side (\<^verbatim>\<open>computeBatch\<close>), host-to-device copies, the idle sleep
  of the scheduler and the one-off message of \<^verbatim>\<open>computeCPUNode\<close>.
\<close>

datatype Event =
    ComputeCPU nat
  | ComputeCUDA nat
  | CopyHostToDevice nat nat nat
  | Sleep
  | LogNoCuda nat

record 'v RooFitDriver =
  nodes :: "'v NodeInfo list"
  batchMode :: BatchModeOption
  dataMapCPU :: "nat \<Rightarrow> 'v Span option"
  dataMapCUDA :: "nat \<Rightarrow> 'v Span option"
  cudaMemDataset :: "'v list"
  getValInvocations :: nat
  changeOperModeRAIIs :: "(nat \<times> OperMode) list"
  events :: "Event list"
  streamQueries :: nat

datatype Error = RuntimeError | OutOfRange

text \<open>
  \<^verbatim>\<open>info.field = ...\<close> on the \<open>i\<close>-th element of \<^verbatim>\<open>_nodes\<close>. The driver only
  ever reaches a node through a reference into the vector, so \<open>i\<close> is in range.
\<close>

definition updNode ::
  "nat \<Rightarrow> ('v NodeInfo \<Rightarrow> 'v NodeInfo) \<Rightarrow> 'v RooFitDriver \<Rightarrow> 'v RooFitDriver" where
  "updNode i f s = s\<lparr>nodes := (nodes s)[i := f (nodes s ! i)]\<rparr>"

definition logEvent :: "Event \<Rightarrow> 'v RooFitDriver \<Rightarrow> 'v RooFitDriver" where
  "logEvent e s = s\<lparr>events := events s @ [e]\<rparr>"

section \<open>Device placement\<close>

definition isScalar :: "'v NodeInfo \<Rightarrow> bool" where
  "isScalar info = (outputSize info = 1)"

definition computeInGPU :: "'v NodeInfo \<Rightarrow> bool" where
  "computeInGPU info =
     ((isReducerNode info \<or> \<not> isScalar info) \<and> canComputeBatchWithCuda info)"

text \<open>
  The inner loop of \<^verbatim>\<open>markGPUNodes\<close>: scan the clients and stop at the first one whose
  placement differs from the node's own.
\<close>

fun anyClientDiffers :: "'v NodeInfo list \<Rightarrow> 'v NodeInfo \<Rightarrow> nat list \<Rightarrow> bool" where
  "anyClientDiffers ns info [] = False"
| "anyClientDiffers ns info (c # cs) =
     (if computeInGPU info \<noteq> computeInGPU (ns ! c) then True
      else anyClientDiffers ns info cs)"

definition markGPUNode :: "nat \<Rightarrow> 'v NodeInfo list \<Rightarrow> 'v NodeInfo list" where
  "markGPUNode i ns =
     (let ns1 = ns[i := (ns ! i)\<lparr>copyAfterEvaluation := False\<rparr>] in
      if \<not> isScalar (ns1 ! i) \<and> anyClientDiffers ns1 (ns1 ! i) (clientInfos (ns1 ! i))
      then ns1[i := (ns1 ! i)\<lparr>copyAfterEvaluation := True\<rparr>]
      else ns1)"

definition markGPUNodes :: "'v RooFitDriver \<Rightarrow> 'v RooFitDriver" where
  "markGPUNodes s = s\<lparr>nodes := fold markGPUNode [0..<length (nodes s)] (nodes s)\<rparr>"

section \<open>Construction\<close>

text \<open>
  The build and the process the constructor runs in: whether ROOT was compiled with CUDA
  (\<^verbatim>\<open>R__HAS_CUDA\<close>), whether the CUDA computing library is loaded
  (\<^verbatim>\<open>RooBatchCompute::hasCuda()\<close>), whether the INFO stream of the fitting topic is
  active, and whether the CPU library is the generic one.
\<close>

record Environment =
  builtWithCuda :: bool
  hasCuda :: bool
  infoStreamActive :: bool
  cpuArchitectureGeneric :: bool

text \<open>
  \<^verbatim>\<open>logArchitectureInfo\<close>. The function-local static \<^verbatim>\<open>lastBatchMode\<close> is passed in
  and returned; the result is the exception or the lines logged.
\<close>

definition logArchitectureInfo ::
  "Environment \<Rightarrow> BatchModeOption \<times> bool \<Rightarrow> BatchModeOption
     \<Rightarrow> (BatchModeOption \<times> bool) \<times> (Error + string list)" where
  "logArchitectureInfo env lastBatchMode bm =
     (if \<not> infoStreamActive env then (lastBatchMode, Inr [])
      else if snd lastBatchMode \<and> fst lastBatchMode = bm then (lastBatchMode, Inr [])
      else
        (let lastBatchMode' = (bm, True) in
         if bm = Cuda \<and> \<not> hasCuda env then (lastBatchMode', Inl RuntimeError)
         else (lastBatchMode',
               Inr ((if cpuArchitectureGeneric env
                     then [''using generic CPU library compiled with no vectorizations'']
                     else [''using CPU computation library compiled with -m''])
                    @ (if bm = Cuda then [''using CUDA computation library''] else [])))))"

text \<open>
  What the graph provider hands to the constructor for each element of \<^verbatim>\<open>serverSet\<close>:
  the properties of the \<^verbatim>\<open>RooAbsArg\<close> and its value servers, as positions in
  \<^verbatim>\<open>serverSet\<close>.
\<close>

record ArgInfo =
  aName :: string
  aIsRealVar :: bool
  aIsCategory :: bool
  aIsReducerNode :: bool
  aCanComputeBatchWithCuda :: bool
  aOperMode :: OperMode
  aValueServers :: "nat list"

text \<open>A \<^verbatim>\<open>NodeInfo\<close> with the default member initialisers, bound to its argument.\<close>

definition newNodeInfo :: "nat \<Rightarrow> ArgInfo \<Rightarrow> ('v::zero) NodeInfo" where
  "newNodeInfo i arg =
     \<lparr>argName = aName arg, isReducerNode = aIsReducerNode arg,
      canComputeBatchWithCuda = aCanComputeBatchWithCuda arg, operMode = aOperMode arg,
      buffer = None, iNode = i, remClients = 0, remServers = 0,
      copyAfterEvaluation = False, hasLogged = False, fromDataset = False,
      isVariable = aIsRealVar arg, isDirty = True, isCategory = aIsCategory arg,
      outputSize = 1, lastSetValCount = - 1, scalarBuffer = 0,
      serverInfos = [], clientInfos = []\<rparr>"

text \<open>
  The edge loop of the constructor: \<^verbatim>\<open>nodeInfos.at(server)\<close> throws for a server that
  is not in \<^verbatim>\<open>serverSet\<close>.
\<close>

fun linkServers :: "nat \<Rightarrow> nat list \<Rightarrow> 'v NodeInfo list \<Rightarrow> Error + 'v NodeInfo list" where
  "linkServers i [] ns = Inr ns"
| "linkServers i (sv # svs) ns =
     (if sv < length ns then
        (let ns1 = ns[i := (ns ! i)\<lparr>serverInfos := serverInfos (ns ! i) @ [sv]\<rparr>];
             ns2 = ns1[sv := (ns1 ! sv)\<lparr>clientInfos := clientInfos (ns1 ! sv) @ [i]\<rparr>]
         in linkServers i svs ns2)
      else Inl OutOfRange)"

fun linkNodes :: "ArgInfo list \<Rightarrow> nat \<Rightarrow> 'v NodeInfo list \<Rightarrow> Error + 'v NodeInfo list" where
  "linkNodes [] i ns = Inr ns"
| "linkNodes (arg # args) i ns =
     (case linkServers i (aValueServers arg) ns of
        Inl e \<Rightarrow> Inl e
      | Inr ns' \<Rightarrow> linkNodes args (Suc i) ns')"

definition construct ::
  "Environment \<Rightarrow> BatchModeOption \<times> bool \<Rightarrow> ArgInfo list \<Rightarrow> BatchModeOption
     \<Rightarrow> (BatchModeOption \<times> bool) \<times> (Error + ('v::zero) RooFitDriver)" where
  "construct env lastBatchMode serverSet bm =
     (if \<not> builtWithCuda env \<and> bm = Cuda then (lastBatchMode, Inl RuntimeError)
      else
        (case logArchitectureInfo env lastBatchMode bm of
           (lastBatchMode', Inl e) \<Rightarrow> (lastBatchMode', Inl e)
         | (lastBatchMode', Inr msgs) \<Rightarrow>
             (case linkNodes serverSet 0 (map (\<lambda>(i, arg). newNodeInfo i arg) (enumerate 0 serverSet)) of
                Inl e \<Rightarrow> (lastBatchMode', Inl e)
              | Inr ns \<Rightarrow>
                  (lastBatchMode',
                   Inr \<lparr>nodes = ns, batchMode = bm, dataMapCPU = Map.empty,
                        dataMapCUDA = Map.empty, cudaMemDataset = [],
                        getValInvocations = 0, changeOperModeRAIIs = [], events = [],
                        streamQueries = 0\<rparr>))))"

section \<open>Binding a dataset\<close>

text \<open>
  \<^verbatim>\<open>setOperMode\<close>: the \<^verbatim>\<open>ChangeOperModeRAII\<close> pushed on the stack switches the mode of
  the argument and remembers the old one.
\<close>

definition setOperMode :: "nat \<Rightarrow> OperMode \<Rightarrow> 'v RooFitDriver \<Rightarrow> 'v RooFitDriver" where
  "setOperMode i opMode s =
     (if opMode \<noteq> operMode (nodes s ! i)
      then (updNode i (\<lambda>info. info\<lparr>operMode := opMode\<rparr>) s)
             \<lparr>changeOperModeRAIIs := (i, operMode (nodes s ! i)) # changeOperModeRAIIs s\<rparr>
      else s)"

text \<open>
  First loop of \<^verbatim>\<open>setData\<close>, one node: the data spans are looked up by the name of the
  argument; a column is the list of its values. The second component accumulates
  \<^verbatim>\<open>totalSize\<close>.
\<close>

definition bindNode ::
  "(string \<Rightarrow> 'v list option) \<Rightarrow> nat \<Rightarrow> 'v RooFitDriver \<times> nat \<Rightarrow> 'v RooFitDriver \<times> nat" where
  "bindNode dataSpans i st =
     (let s = updNode i (\<lambda>info. info\<lparr>buffer := None\<rparr>) (fst st); totalSize = snd st in
      case dataSpans (argName (nodes s ! i)) of
        Some column \<Rightarrow>
          (updNode i (\<lambda>info. info\<lparr>fromDataset := True, isDirty := False\<rparr>)
             (s\<lparr>dataMapCPU := (dataMapCPU s)(i \<mapsto> (DataPtr column, length column))\<rparr>),
           totalSize + length column)
      | None \<Rightarrow>
          (updNode i (\<lambda>info. info\<lparr>fromDataset := False, isDirty := True\<rparr>) s, totalSize))"

text \<open>
  Second loop, one node: \<^verbatim>\<open>outputSizeMap.at\<close> throws for a node the size helper did
  not report.
\<close>

fun sizeNodes ::
  "(nat \<Rightarrow> nat option) \<Rightarrow> nat list \<Rightarrow> 'v RooFitDriver \<Rightarrow> Error + 'v RooFitDriver" where
  "sizeNodes outputSizeMap [] s = Inr s"
| "sizeNodes outputSizeMap (i # is) s =
     (case outputSizeMap i of
        None \<Rightarrow> Inl OutOfRange
      | Some n \<Rightarrow>
          (let s1 = updNode i (\<lambda>info. info\<lparr>outputSize := n\<rparr>) s;
               s2 = (if \<not> isScalar (nodes s1 ! i) then setOperMode i ADirty s1 else s1)
           in sizeNodes outputSizeMap is s2))"

text \<open>
  \<^verbatim>\<open>copyHostToDevice(src, dst + idx, size)\<close> into the device array, whose initialised
  prefix is all that is kept.
\<close>

definition copyHostToDevice :: "'v list \<Rightarrow> nat \<Rightarrow> nat \<Rightarrow> 'v list \<Rightarrow> 'v list" where
  "copyHostToDevice src idx n dev = take idx dev @ take n src @ drop (idx + n) dev"

text \<open>
  The values a span points to. A pointer into a buffer that has been released reads
  nothing.
\<close>

definition spanValues :: "'v RooFitDriver \<Rightarrow> 'v Span \<Rightarrow> 'v list" where
  "spanValues s sp =
     (case sp of
        (DataPtr column, n) \<Rightarrow> take n column
      | (ScalarPtr i, n) \<Rightarrow> take n [scalarBuffer (nodes s ! i)]
      | (CpuPtr i, n) \<Rightarrow> (case buffer (nodes s ! i) of None \<Rightarrow> [] | Some b \<Rightarrow> take n (bufferData b))
      | (GpuPtr i, n) \<Rightarrow> (case buffer (nodes s ! i) of None \<Rightarrow> [] | Some b \<Rightarrow> take n (bufferData b))
      | (DevDataPtr idx, n) \<Rightarrow> take n (drop idx (cudaMemDataset s)))"

text \<open>
  Third loop (CUDA mode only), one node; the second component is \<^verbatim>\<open>idx\<close>.
  \<^verbatim>\<open>_dataMapCPU.at\<close> throws for a node that has no host span.
\<close>

fun uploadNodes :: "nat list \<Rightarrow> nat \<Rightarrow> 'v RooFitDriver \<Rightarrow> Error + 'v RooFitDriver" where
  "uploadNodes [] idx s = Inr s"
| "uploadNodes (i # is) idx s =
     (if \<not> fromDataset (nodes s ! i) then uploadNodes is idx s
      else
        (let nOut = outputSize (nodes s ! i) in
         case dataMapCPU s i of
           None \<Rightarrow> Inl OutOfRange
         | Some hostSpan \<Rightarrow>
             (if nOut = 1
              then uploadNodes is idx (s\<lparr>dataMapCUDA := (dataMapCUDA s)(i \<mapsto> hostSpan)\<rparr>)
              else
                uploadNodes is (idx + nOut)
                  (logEvent (CopyHostToDevice i idx nOut)
                     (s\<lparr>dataMapCUDA := (dataMapCUDA s)(i \<mapsto> (DevDataPtr idx, nOut)),
                        cudaMemDataset :=
                          copyHostToDevice (spanValues s hostSpan) idx nOut (cudaMemDataset s)\<rparr>)))))"

text \<open>
  \<^verbatim>\<open>setData(DataSpansMap const &)\<close>. The output sizes come from the helper
  \<^verbatim>\<open>determineOutputSizes\<close>, which is not part of this file; its result is the
  parameter \<open>outputSizeMap\<close>. The fresh device array has \<^verbatim>\<open>totalSize\<close> elements.
\<close>

definition setData ::
  "(string \<Rightarrow> 'v list option) \<Rightarrow> (nat \<Rightarrow> nat option) \<Rightarrow> ('v::zero) RooFitDriver
     \<Rightarrow> Error + 'v RooFitDriver" where
  "setData dataSpans outputSizeMap s =
     (let n = length (nodes s);
          (s1, totalSize) = fold (bindNode dataSpans) [0..<n] (s, 0)
      in case sizeNodes outputSizeMap [0..<n] s1 of
           Inl e \<Rightarrow> Inl e
         | Inr s2 \<Rightarrow>
             (if batchMode s2 \<noteq> Cuda then Inr s2
              else
                (case uploadNodes [0..<n] 0 (s2\<lparr>cudaMemDataset := replicate totalSize 0\<rparr>) of
                   Inl e \<Rightarrow> Inl e
                 | Inr s3 \<Rightarrow> Inr (markGPUNodes s3))))"

section \<open>Evaluation on the host\<close>

text \<open>
  The kernels belong to the nodes of the graph, not to the driver:
  \<^verbatim>\<open>computeBatch(buffer, nOut, dataMap)\<close> of node \<open>i\<close> reads the spans published in the
  data map it is given and writes \<open>nOut\<close> values. It is a parameter of the model: given
  the node, the side of the data map, \<open>nOut\<close> and the values visible through the map, it
  yields the value written at each position. The current values of the parameters are
  part of it (the kernel of a \<^verbatim>\<open>RooRealVar\<close> writes its value).
\<close>

datatype Side = Host | Device

type_synonym 'v Kernel = "nat \<Rightarrow> Side \<Rightarrow> nat \<Rightarrow> (nat \<Rightarrow> 'v list option) \<Rightarrow> nat \<Rightarrow> 'v"

definition dataMapView ::
  "'v RooFitDriver \<Rightarrow> (nat \<Rightarrow> 'v Span option) \<Rightarrow> nat \<Rightarrow> 'v list option" where
  "dataMapView s dataMap j = map_option (spanValues s) (dataMap j)"

text \<open>The kernel writes \<open>nOut\<close> values through the output pointer.\<close>

definition writeOutput ::
  "'v Pointer \<Rightarrow> nat \<Rightarrow> (nat \<Rightarrow> 'v) \<Rightarrow> 'v RooFitDriver \<Rightarrow> 'v RooFitDriver" where
  "writeOutput p nOut out s =
     (case p of
        ScalarPtr i \<Rightarrow> updNode i (\<lambda>info. info\<lparr>scalarBuffer := out 0\<rparr>) s
      | CpuPtr i \<Rightarrow>
          updNode i (\<lambda>info. info\<lparr>buffer :=
            map_option (\<lambda>b. b\<lparr>bufferData := map out [0..<nOut]\<rparr>) (buffer info)\<rparr>) s
      | GpuPtr i \<Rightarrow>
          updNode i (\<lambda>info. info\<lparr>buffer :=
            map_option (\<lambda>b. b\<lparr>bufferData := map out [0..<nOut]\<rparr>) (buffer info)\<rparr>) s
      | _ \<Rightarrow> s)"

definition computeBatch ::
  "'v Kernel \<Rightarrow> nat \<Rightarrow> Side \<Rightarrow> 'v Pointer \<Rightarrow> nat \<Rightarrow> 'v RooFitDriver \<Rightarrow> 'v RooFitDriver" where
  "computeBatch K i side p nOut s =
     (let dataMap = (case side of Host \<Rightarrow> dataMapCPU s | Device \<Rightarrow> dataMapCUDA s) in
      logEvent (case side of Host \<Rightarrow> ComputeCPU i | Device \<Rightarrow> ComputeCUDA i)
        (writeOutput p nOut (K i side nOut (dataMapView s dataMap)) s))"

text \<open>
  \<^verbatim>\<open>computeCPUNode\<close>. The last branch dereferences \<^verbatim>\<open>info.buffer\<close>, which is set for
  every non-scalar node; \<^verbatim>\<open>markGPUNodes\<close> never sets \<^verbatim>\<open>copyAfterEvaluation\<close> on a
  scalar one.
\<close>

definition computeCPUNode :: "'v Kernel \<Rightarrow> nat \<Rightarrow> 'v RooFitDriver \<Rightarrow> 'v RooFitDriver" where
  "computeCPUNode K i s =
     (let nOut = outputSize (nodes s ! i);
          s1 = (if nOut = 1 then
                  (if batchMode s = Cuda
                   then s\<lparr>dataMapCUDA := (dataMapCUDA s)(i \<mapsto> (ScalarPtr i, nOut))\<rparr>
                   else s)
                else
                  (let s' = (if \<not> hasLogged (nodes s ! i) \<and> batchMode s = Cuda
                             then updNode i (\<lambda>info. info\<lparr>hasLogged := True\<rparr>)
                                    (logEvent (LogNoCuda i) s)
                             else s)
                   in if buffer (nodes s' ! i) = None
                      then updNode i (\<lambda>info. info\<lparr>buffer :=
                             Some \<lparr>bufferKind = (if copyAfterEvaluation info then PinnedBuffer
                                                 else CpuBuffer),
                                   bufferData = []\<rparr>\<rparr>) s'
                      else s'));
          p = (if nOut = 1 then ScalarPtr i else CpuPtr i);
          s2 = s1\<lparr>dataMapCPU := (dataMapCPU s1)(i \<mapsto> (p, nOut))\<rparr>;
          s3 = computeBatch K i Host p nOut s2
      in if copyAfterEvaluation (nodes s3 ! i)
         then s3\<lparr>dataMapCUDA := (dataMapCUDA s3)(i \<mapsto> (GpuPtr i, nOut))\<rparr>
         else s3)"

definition setClientsDirty :: "nat \<Rightarrow> 'v RooFitDriver \<Rightarrow> 'v RooFitDriver" where
  "setClientsDirty i s =
     fold (\<lambda>c. updNode c (\<lambda>clientInfo. clientInfo\<lparr>isDirty := True\<rparr>))
       (clientInfos (nodes s ! i)) s"

text \<open>
  \<^verbatim>\<open>processVariable\<close>; \<open>counter i\<close> is \<^verbatim>\<open>valueResetCounter()\<close> of the variable at
  node \<open>i\<close> at the time of the call.
\<close>

definition processVariable ::
  "'v Kernel \<Rightarrow> (nat \<Rightarrow> 64 word) \<Rightarrow> nat \<Rightarrow> 'v RooFitDriver \<Rightarrow> 'v RooFitDriver" where
  "processVariable K counter i s =
     (if lastSetValCount (nodes s ! i) \<noteq> counter i then
        (let s1 = updNode i (\<lambda>info. info\<lparr>lastSetValCount := counter i\<rparr>) s;
             s2 = fold (\<lambda>c. updNode c (\<lambda>clientInfo. clientInfo\<lparr>isDirty := True\<rparr>))
                    (clientInfos (nodes s1 ! i)) s1;
             s3 = computeCPUNode K i s2
         in updNode i (\<lambda>info. info\<lparr>isDirty := False\<rparr>) s3)
      else s)"

text \<open>The body of the loop of \<^verbatim>\<open>getVal\<close> for the node at position \<open>i\<close>.\<close>

definition getValNode ::
  "'v Kernel \<Rightarrow> (nat \<Rightarrow> 64 word) \<Rightarrow> nat \<Rightarrow> 'v RooFitDriver \<Rightarrow> 'v RooFitDriver" where
  "getValNode K counter i s =
     (if \<not> fromDataset (nodes s ! i) then
        (if isVariable (nodes s ! i) then processVariable K counter i s
         else
           (if isDirty (nodes s ! i) then
              (let s1 = setClientsDirty i s;
                   s2 = computeCPUNode K i s1
               in updNode i (\<lambda>info. info\<lparr>isDirty := False\<rparr>) s2)
            else s))
      else s)"

text \<open>
  \<^verbatim>\<open>_dataMapCPU.at(&topNode())[0]\<close>. The top node is the last element of the node
  vector (the device path takes it from \<^verbatim>\<open>_nodes.back()\<close>). \<^verbatim>\<open>at\<close> throws when no
  span is published; reading element 0 of an empty span is reported as an error too.
\<close>

definition topValue :: "'v RooFitDriver \<Rightarrow> Error + 'v" where
  "topValue s =
     (case dataMapCPU s (length (nodes s) - 1) of
        None \<Rightarrow> Inl OutOfRange
      | Some sp \<Rightarrow> (case spanValues s sp of [] \<Rightarrow> Inl OutOfRange | v # _ \<Rightarrow> Inr v))"

section \<open>Evaluation with a device\<close>

text \<open>
  \<^verbatim>\<open>assignToGPU\<close>. Waiting for the events of the servers orders the streams on the
  device and leaves the state of the driver alone.
\<close>

definition assignToGPU :: "'v Kernel \<Rightarrow> nat \<Rightarrow> 'v RooFitDriver \<Rightarrow> 'v RooFitDriver" where
  "assignToGPU K i s =
     (let s1 = updNode i (\<lambda>info. info\<lparr>remServers := - 1\<rparr>) s;
          nOut = outputSize (nodes s1 ! i);
          s2 = (if nOut = 1
                then s1\<lparr>dataMapCPU := (dataMapCPU s1)(i \<mapsto> (ScalarPtr i, nOut))\<rparr>
                else updNode i (\<lambda>info. info\<lparr>buffer :=
                       Some \<lparr>bufferKind = (if copyAfterEvaluation info then PinnedBuffer
                                           else GpuBuffer),
                             bufferData = []\<rparr>\<rparr>) s1);
          p = (if nOut = 1 then ScalarPtr i else GpuPtr i);
          s3 = s2\<lparr>dataMapCUDA := (dataMapCUDA s2)(i \<mapsto> (p, nOut))\<rparr>;
          s4 = computeBatch K i Device p nOut s3
      in if copyAfterEvaluation (nodes s4 ! i)
         then s4\<lparr>dataMapCPU := (dataMapCPU s4)(i \<mapsto> (CpuPtr i, nOut))\<rparr>
         else s4)"

text \<open>First loop of \<^verbatim>\<open>getValHeterogeneous\<close>: reset the counters, drop the buffers.\<close>

definition resetCounters :: "'v RooFitDriver \<Rightarrow> 'v RooFitDriver" where
  "resetCounters s =
     s\<lparr>nodes := map (\<lambda>info. info\<lparr>remClients := int (length (clientInfos info)),
                                    remServers := int (length (serverInfos info)),
                                    buffer := None\<rparr>) (nodes s)\<rparr>"

text \<open>Second loop: the nodes without servers that compute on the device.\<close>

definition assignInitial :: "'v Kernel \<Rightarrow> 'v RooFitDriver \<Rightarrow> 'v RooFitDriver" where
  "assignInitial K s =
     fold (\<lambda>i s. if remServers (nodes s ! i) = 0 \<and> computeInGPU (nodes s ! i)
                  then assignToGPU K i s else s)
       [0..<length (nodes s)] s"

text \<open>The client loop after a device node has finished.\<close>

definition notifyClientGPU :: "'v Kernel \<Rightarrow> nat \<Rightarrow> 'v RooFitDriver \<Rightarrow> 'v RooFitDriver" where
  "notifyClientGPU K c s =
     (let s1 = updNode c (\<lambda>infoClient. infoClient\<lparr>remServers := remServers infoClient - 1\<rparr>) s
      in if computeInGPU (nodes s1 ! c) \<and> remServers (nodes s1 ! c) = 0
         then assignToGPU K c s1 else s1)"

text \<open>The client loop after a host node has been computed.\<close>

definition notifyClientCPU :: "'v Kernel \<Rightarrow> nat \<Rightarrow> 'v RooFitDriver \<Rightarrow> 'v RooFitDriver" where
  "notifyClientCPU K c s =
     (let s1 = updNode c (\<lambda>infoClient. infoClient\<lparr>remServers := remServers infoClient - 1\<rparr>) s
      in if remServers (nodes s1 ! c) = 0 \<and> computeInGPU (nodes s1 ! c)
         then assignToGPU K c s1 else s1)"

text \<open>The server loop of both: release the buffer of a server nobody waits for.\<close>

definition releaseServer :: "nat \<Rightarrow> 'v RooFitDriver \<Rightarrow> 'v RooFitDriver" where
  "releaseServer sv s =
     (let s1 = updNode sv (\<lambda>serverInfo. serverInfo\<lparr>remClients := remClients serverInfo - 1\<rparr>) s
      in if remClients (nodes s1 ! sv) = 0
         then updNode sv (\<lambda>serverInfo. serverInfo\<lparr>buffer := None\<rparr>) s1 else s1)"

text \<open>
  The scan for finished device nodes, one node. \<^verbatim>\<open>stream->isActive()\<close> is answered by
  the device: \<open>active q i\<close> is the answer to the \<open>q\<close>-th query of the driver, asked
  about the stream of node \<open>i\<close>.
\<close>

definition finishGPUNode ::
  "(nat \<Rightarrow> nat \<Rightarrow> bool) \<Rightarrow> 'v Kernel \<Rightarrow> nat \<Rightarrow> 'v RooFitDriver \<Rightarrow> 'v RooFitDriver" where
  "finishGPUNode active K i s =
     (if remServers (nodes s ! i) = - 1 then
        (let q = streamQueries s; s0 = s\<lparr>streamQueries := q + 1\<rparr> in
         if \<not> active q i then
           (let s1 = updNode i (\<lambda>info. info\<lparr>remServers := - 2\<rparr>) s0;
                s2 = fold (notifyClientGPU K) (clientInfos (nodes s1 ! i)) s1
            in fold releaseServer (serverInfos (nodes s2 ! i)) s2)
         else s0)
      else s)"

text \<open>The next host node: the first one that is ready and does not compute on the device.\<close>

definition nextCPUNode :: "'v RooFitDriver \<Rightarrow> nat option" where
  "nextCPUNode s =
     find (\<lambda>i. remServers (nodes s ! i) = 0 \<and> \<not> computeInGPU (nodes s ! i))
       [0..<length (nodes s)]"

definition runCPUNode :: "'v Kernel \<Rightarrow> nat \<Rightarrow> 'v RooFitDriver \<Rightarrow> 'v RooFitDriver" where
  "runCPUNode K i s =
     (let s1 = updNode i (\<lambda>info. info\<lparr>remServers := - 2\<rparr>) s;
          s2 = (if \<not> fromDataset (nodes s1 ! i) then computeCPUNode K i s1 else s1);
          s3 = fold (notifyClientCPU K) (clientInfos (nodes s2 ! i)) s2
      in fold releaseServer (serverInfos (nodes s3 ! i)) s3)"

text \<open>One iteration of the \<^verbatim>\<open>while\<close> loop.\<close>

definition schedulerStep ::
  "(nat \<Rightarrow> nat \<Rightarrow> bool) \<Rightarrow> 'v Kernel \<Rightarrow> 'v RooFitDriver \<Rightarrow> 'v RooFitDriver" where
  "schedulerStep active K s =
     (let s1 = fold (finishGPUNode active K) [0..<length (nodes s)] s in
      case nextCPUNode s1 of
        None \<Rightarrow> logEvent Sleep s1
      | Some i \<Rightarrow> runCPUNode K i s1)"

text \<open>
  The \<^verbatim>\<open>while\<close> loop runs until the top node is retired; nothing in the driver bounds
  the number of iterations, so the model counts them down from \<open>fuel\<close> and returns
  \<open>None\<close> when they run out.
\<close>

fun schedulerLoop ::
  "nat \<Rightarrow> (nat \<Rightarrow> nat \<Rightarrow> bool) \<Rightarrow> 'v Kernel \<Rightarrow> 'v RooFitDriver \<Rightarrow> 'v RooFitDriver option" where
  "schedulerLoop 0 active K s = None"
| "schedulerLoop (Suc fuel) active K s =
     (if remServers (last (nodes s)) \<noteq> - 2
      then schedulerLoop fuel active K (schedulerStep active K s)
      else Some s)"

definition getValHeterogeneous ::
  "nat \<Rightarrow> (nat \<Rightarrow> nat \<Rightarrow> bool) \<Rightarrow> 'v Kernel \<Rightarrow> 'v RooFitDriver
     \<Rightarrow> ((Error + 'v) \<times> 'v RooFitDriver) option" where
  "getValHeterogeneous fuel active K s =
     map_option (\<lambda>s'. (topValue s', s'))
       (schedulerLoop fuel active K (assignInitial K (resetCounters s)))"

text \<open>\<^verbatim>\<open>getVal\<close>: the device path in CUDA mode, the dirty-flag pass otherwise.\<close>

definition getVal ::
  "nat \<Rightarrow> (nat \<Rightarrow> nat \<Rightarrow> bool) \<Rightarrow> 'v Kernel \<Rightarrow> (nat \<Rightarrow> 64 word) \<Rightarrow> 'v RooFitDriver
     \<Rightarrow> ((Error + 'v) \<times> 'v RooFitDriver) option" where
  "getVal fuel active K counter s =
     (let s0 = s\<lparr>getValInvocations := getValInvocations s + 1\<rparr> in
      if batchMode s0 = Cuda then getValHeterogeneous fuel active K s0
      else
        (let s1 = fold (getValNode K counter) [0..<length (nodes s0)] s0
         in Some (topValue s1, s1)))"

section \<open>Parameters\<close>

text \<open>
  \<^verbatim>\<open>RooArgSet::add\<close> refuses an argument whose name is already in the set;
  \<^verbatim>\<open>sort\<close> orders the set by name (\<^verbatim>\<open>strcmp\<close>, the lexicographic order on bytes). The
  set is the list of its elements, as positions in the node vector.
\<close>

definition addArg :: "'v NodeInfo list \<Rightarrow> nat \<Rightarrow> nat list \<Rightarrow> nat list" where
  "addArg ns i args =
     (if argName (ns ! i) \<in> set (map (\<lambda>j. argName (ns ! j)) args) then args else args @ [i])"

definition getParameters :: "'v RooFitDriver \<Rightarrow> nat list" where
  "getParameters s =
     sort_key (\<lambda>i. argName (nodes s ! i))
       (fold (\<lambda>i parameters.
                if \<not> fromDataset (nodes s ! i) \<and> isVariable (nodes s ! i)
                then addArg (nodes s) i parameters else parameters)
          [0..<length (nodes s)] [])"

section \<open>Notions used in the statements and proofs\<close>

text \<open>Every edge of the graph points into the node vector.\<close>

definition validEdges :: "'v NodeInfo list \<Rightarrow> bool" where
  "validEdges ns =
     (\<forall>info \<in> set ns. (\<forall>c \<in> set (clientInfos info). c < length ns)
                   \<and> (\<forall>sv \<in> set (serverInfos info). sv < length ns))"

text \<open>What \<^verbatim>\<open>markGPUNodes\<close> decides for the node at position \<open>j\<close>.\<close>

definition needsCopy :: "'v NodeInfo list \<Rightarrow> nat \<Rightarrow> bool" where
  "needsCopy ns j =
     (outputSize (ns ! j) \<noteq> 1
      \<and> (\<exists>c \<in> set (clientInfos (ns ! j)). computeInGPU (ns ! c) \<noteq> computeInGPU (ns ! j)))"

text \<open>
  The first loop of \<^verbatim>\<open>setData\<close> seen from one node: whether the data spans have an
  entry under its name, and what the loop leaves in the node.
\<close>

definition bound :: "(string \<Rightarrow> 'v list option) \<Rightarrow> 'v NodeInfo \<Rightarrow> bool" where
  "bound dataSpans info = (dataSpans (argName info) \<noteq> None)"

definition bindInfo :: "(string \<Rightarrow> 'v list option) \<Rightarrow> 'v NodeInfo \<Rightarrow> 'v NodeInfo" where
  "bindInfo dataSpans info =
     info\<lparr>buffer := None, fromDataset := bound dataSpans info,
          isDirty := \<not> bound dataSpans info\<rparr>"

text \<open>The fields of a node that only the first loop of \<^verbatim>\<open>setData\<close> writes.\<close>

definition bindFields :: "'v NodeInfo \<Rightarrow> string \<times> 'v AbsBuffer option \<times> bool \<times> bool" where
  "bindFields info = (argName info, buffer info, fromDataset info, isDirty info)"

text \<open>The copies the third loop makes, from what it reads of the nodes.\<close>

fun uploadEvents :: "'v NodeInfo list \<Rightarrow> nat list \<Rightarrow> nat \<Rightarrow> Event list" where
  "uploadEvents ns [] idx = []"
| "uploadEvents ns (i # is) idx =
     (if fromDataset (ns ! i) \<and> outputSize (ns ! i) \<noteq> 1
      then CopyHostToDevice i idx (outputSize (ns ! i))
             # uploadEvents ns is (idx + outputSize (ns ! i))
      else uploadEvents ns is idx)"

text \<open>
  The dataset nodes whose column the third loop copies, the place of the column of node
  \<open>i\<close> in the device array (behind the columns of the nodes before it), and the column
  the data spans have for a node.
\<close>

definition copied :: "'v NodeInfo \<Rightarrow> bool" where
  "copied info = (fromDataset info \<and> outputSize info \<noteq> 1)"

definition deviceOffset :: "'v NodeInfo list \<Rightarrow> nat \<Rightarrow> nat" where
  "deviceOffset ns i =
     sum_list (map (\<lambda>j. outputSize (ns ! j)) (filter (\<lambda>j. copied (ns ! j)) [0..<i]))"

definition boundColumn :: "(string \<Rightarrow> 'v list option) \<Rightarrow> 'v NodeInfo \<Rightarrow> 'v list" where
  "boundColumn dataSpans info = (case dataSpans (argName info) of None \<Rightarrow> [] | Some column \<Rightarrow> column)"

text \<open>
  The output sizes fit the data spans: a node bound to the dataset is scalar or has at
  most the length of its column (the size helper gives it that length), so that the copy
  of \<^verbatim>\<open>outputSize\<close> values reads within the host span.
\<close>

definition spansFit ::
  "(string \<Rightarrow> 'v list option) \<Rightarrow> (nat \<Rightarrow> nat option) \<Rightarrow> 'v NodeInfo list \<Rightarrow> bool" where
  "spansFit dataSpans outputSizeMap ns =
     (\<forall>i \<in> set [0..<length ns].
        case outputSizeMap i of
          None \<Rightarrow> True
        | Some n \<Rightarrow> bound dataSpans (ns ! i) \<longrightarrow> n = 1 \<or> n \<le> length (boundColumn dataSpans (ns ! i)))"

text \<open>
  The data-model invariants of the graph: every server is listed as often by its client as
  the client is listed by the server, servers come before their clients in the node
  vector, and the inputs of the graph (variables and nodes bound to the dataset) are
  leaves.
\<close>

definition mutualEdges :: "'v NodeInfo list \<Rightarrow> bool" where
  "mutualEdges ns =
     (\<forall>i \<in> set [0..<length ns]. \<forall>j \<in> set [0..<length ns].
        count_list (serverInfos (ns ! i)) j = count_list (clientInfos (ns ! j)) i)"

definition topological :: "'v NodeInfo list \<Rightarrow> bool" where
  "topological ns =
     (\<forall>i \<in> set [0..<length ns]. \<forall>sv \<in> set (serverInfos (ns ! i)). sv < i)"

definition wellFormed :: "'v NodeInfo list \<Rightarrow> bool" where
  "wellFormed ns = (validEdges ns \<and> mutualEdges ns \<and> topological ns)"

definition leafInputs :: "'v NodeInfo list \<Rightarrow> bool" where
  "leafInputs ns =
     (\<forall>info \<in> set ns. isVariable info \<or> fromDataset info \<longrightarrow> serverInfos info = [])"

text \<open>The server relation of the graph; its transitive closure gives the transitive servers.\<close>

definition serverRel :: "'v NodeInfo list \<Rightarrow> (nat \<times> nat) set" where
  "serverRel ns = {(sv, i). i < length ns \<and> sv \<in> set (serverInfos (ns ! i))}"

text \<open>
  The edges along which the host pass hands a recomputation on: a node that is a variable
  or bound to the dataset is not recomputed for its servers.
\<close>

definition recomputeRel :: "'v NodeInfo list \<Rightarrow> (nat \<times> nat) set" where
  "recomputeRel ns =
     {(sv, i). i < length ns \<and> sv \<in> set (serverInfos (ns ! i))
               \<and> \<not> isVariable (ns ! i) \<and> \<not> fromDataset (ns ! i)}"

text \<open>
  The host pass of \<^verbatim>\<open>getVal\<close> seen from one node: whether the node is recomputed when
  the loop reaches it in state \<open>s\<close>, and whether it is recomputed in a pass that
  started with the nodes \<open>ns\<close> and has recomputed the nodes \<open>rs\<close> so far.
\<close>

definition needsRun :: "(nat \<Rightarrow> 64 word) \<Rightarrow> 'v RooFitDriver \<Rightarrow> nat \<Rightarrow> bool" where
  "needsRun counter s k =
     (\<not> fromDataset (nodes s ! k)
      \<and> (if isVariable (nodes s ! k) then lastSetValCount (nodes s ! k) \<noteq> counter k
         else isDirty (nodes s ! k)))"

definition passRuns :: "(nat \<Rightarrow> 64 word) \<Rightarrow> 'v NodeInfo list \<Rightarrow> nat list \<Rightarrow> nat \<Rightarrow> bool" where
  "passRuns counter ns rs i =
     (\<not> fromDataset (ns ! i)
      \<and> (if isVariable (ns ! i) then lastSetValCount (ns ! i) \<noteq> counter i
         else isDirty (ns ! i) \<or> (\<exists>i' \<in> set rs. i \<in> set (clientInfos (ns ! i')))))"

text \<open>
  Every node of the graph is the top node or one of its transitive servers (the graph
  provider hands over the nodes reachable from the top node).
\<close>

definition feedsTop :: "'v NodeInfo list \<Rightarrow> bool" where
  "feedsTop ns = (ns \<noteq> [] \<and> (\<forall>i < length ns. (i, length ns - 1) \<in> (serverRel ns)\<^sup>*))"

text \<open>The nodes reached from \<open>xs\<close> in at most \<open>k\<close> steps along the server edges.\<close>

fun withServers :: "'v NodeInfo list \<Rightarrow> nat \<Rightarrow> nat list \<Rightarrow> nat list" where
  "withServers ns 0 xs = xs"
| "withServers ns (Suc k) xs =
     withServers ns k (xs @ concat (map (\<lambda>i. serverInfos (ns ! i)) xs))"

section \<open>The invariant of the device scheduler\<close>

text \<open>
  Whether notifying the client \<open>c\<close> assigns it to the device: it computes there and
  waits for one server only.
\<close>

definition launches :: "'v NodeInfo list \<Rightarrow> nat \<Rightarrow> bool" where
  "launches ns c = (computeInGPU (ns ! c) \<and> remServers (ns ! c) = 1)"

text \<open>
  The servers of node \<open>i\<close> that are not retired, counted with their multiplicity.
\<close>

definition pending :: "'v NodeInfo list \<Rightarrow> nat \<Rightarrow> int" where
  "pending ns i = int (length (filter (\<lambda>sv. remServers (ns ! sv) \<noteq> - 2) (serverInfos (ns ! i))))"

text \<open>
  What holds of node \<open>i\<close> between two steps of the scheduler, given the compute events
  \<open>E\<close> logged since the evaluation began. While the clients of a node that has just
  been retired are being notified, \<open>rest\<close> lists the clients still to be notified.
\<close>

definition nodeInv :: "nat list \<Rightarrow> Event set \<Rightarrow> 'v NodeInfo list \<Rightarrow> nat \<Rightarrow> bool" where
  "nodeInv rest E ns i =
     (((remServers (ns ! i) = - 1 \<or> remServers (ns ! i) = - 2)
         \<and> pending ns i = 0 \<and> count_list rest i = 0
       \<or> 0 \<le> remServers (ns ! i)
         \<and> remServers (ns ! i) = pending ns i + int (count_list rest i))
      \<and> (remServers (ns ! i) = - 1 \<longrightarrow> computeInGPU (ns ! i))
      \<and> (ComputeCUDA i \<in> E \<longleftrightarrow> computeInGPU (ns ! i) \<and> remServers (ns ! i) < 0)
      \<and> (ComputeCPU i \<in> E \<longleftrightarrow>
            \<not> computeInGPU (ns ! i) \<and> \<not> fromDataset (ns ! i) \<and> remServers (ns ! i) = - 2))"

text \<open>Two node vectors with the same graph, placement and dataset binding.\<close>

definition sameGraph :: "'v NodeInfo list \<Rightarrow> 'v NodeInfo list \<Rightarrow> bool" where
  "sameGraph ns' ns =
     (map serverInfos ns' = map serverInfos ns \<and> map clientInfos ns' = map clientInfos ns
      \<and> map computeInGPU ns' = map computeInGPU ns \<and> map fromDataset ns' = map fromDataset ns)"

text \<open>
  The invariant as it holds of a driver during an evaluation that started from the nodes
  \<open>ns0\<close> with \<open>e0\<close> events in the log.
\<close>

definition schedState :: "'v NodeInfo list \<Rightarrow> nat \<Rightarrow> nat list \<Rightarrow> 'v RooFitDriver \<Rightarrow> bool" where
  "schedState ns0 e0 rest s =
     (sameGraph (nodes s) ns0 \<and> e0 \<le> length (events s)
      \<and> (\<forall>i < length ns0. nodeInv rest (set (drop e0 (events s))) (nodes s) i))"

text \<open>A field of the nodes that the scheduler never writes.\<close>

definition schedStatic :: "('v NodeInfo \<Rightarrow> 'a) \<Rightarrow> bool" where
  "schedStatic f =
     ((\<forall>info x. f (info\<lparr>buffer := x\<rparr>) = f info)
      \<and> (\<forall>info x. f (info\<lparr>scalarBuffer := x\<rparr>) = f info)
      \<and> (\<forall>info x. f (info\<lparr>remServers := x\<rparr>) = f info)
      \<and> (\<forall>info x. f (info\<lparr>remClients := x\<rparr>) = f info)
      \<and> (\<forall>info x. f (info\<lparr>hasLogged := x\<rparr>) = f info))"

text \<open>No \<open>b\<close> is logged before the first \<open>a\<close>.\<close>

definition comesBefore :: "'a \<Rightarrow> 'a \<Rightarrow> 'a list \<Rightarrow> bool" where
  "comesBefore a b es = (b \<notin> set (takeWhile (\<lambda>e. e \<noteq> a) es))"

text \<open>
  What holds of the spans of a scalar node \<open>i\<close> during an evaluation in CUDA mode that
  started in state \<open>s\<close> with \<open>e0\<close> events in the log: once its kernel has been
  invoked, on either side, both data maps point to its scalar buffer; until then they are
  as the evaluation found them.
\<close>

definition scalarSpans :: "'v RooFitDriver \<Rightarrow> nat \<Rightarrow> nat \<Rightarrow> 'v RooFitDriver \<Rightarrow> bool" where
  "scalarSpans s e0 i t =
     (i < length (nodes t) \<and> e0 \<le> length (events t) \<and> batchMode t = Cuda
      \<and> outputSize (nodes t ! i) = 1 \<and> \<not> copyAfterEvaluation (nodes t ! i)
      \<and> (if ComputeCPU i \<in> set (drop e0 (events t)) \<or> ComputeCUDA i \<in> set (drop e0 (events t))
         then dataMapCPU t i = Some (ScalarPtr i, 1) \<and> dataMapCUDA t i = Some (ScalarPtr i, 1)
         else dataMapCPU t i = dataMapCPU s i \<and> dataMapCUDA t i = dataMapCUDA s i))"

text \<open>
  During an evaluation that started from the nodes \<open>ns0\<close> with \<open>e0\<close> events in the
  log, no client of node \<open>i\<close> has been launched on the device before the host kernel of
  \<open>i\<close> was invoked.
\<close>

definition launchedAfter :: "nat \<Rightarrow> nat \<Rightarrow> 'v NodeInfo list \<Rightarrow> 'v RooFitDriver \<Rightarrow> bool" where
  "launchedAfter e0 i ns0 t =
     (\<forall>c < length ns0. i \<in> set (serverInfos (ns0 ! c)) \<longrightarrow>
        comesBefore (ComputeCPU i) (ComputeCUDA c) (drop e0 (events t)))"

section \<open>The work left to the device scheduler\<close>

text \<open>
  How far a node with the counter \<open>r\<close> is from being retired: every decrement of the
  counter, the launch on the device and the retirement bring it closer.
\<close>

definition effort :: "int \<Rightarrow> int" where
  "effort r = (if r \<le> - 2 then 0 else r + 2)"

definition load :: "int list \<Rightarrow> int" where
  "load rs = sum_list (map effort rs)"

text \<open>
  The bound on the iterations of the scheduler that are left, if the streams are idle from
  query \<open>Q\<close> on: what the nodes are away from retirement, and the queries that may still
  be answered with ``active''.
\<close>

definition workLeft :: "nat \<Rightarrow> 'v RooFitDriver \<Rightarrow> int" where
  "workLeft Q s = load (map remServers (nodes s)) + int (Q - streamQueries s)"

text \<open>No node that computes on the device is left waiting with all its servers retired.\<close>

definition devicesLaunched :: "'v RooFitDriver \<Rightarrow> bool" where
  "devicesLaunched s =
     (\<forall>i < length (nodes s). computeInGPU (nodes s ! i) \<longrightarrow> remServers (nodes s ! i) \<noteq> 0)"

section \<open>The values an evaluation with a device computes\<close>

text \<open>
  The side a node is computed on, and whether its kernel runs at all in an evaluation with
  a device: a node bound to the dataset is skipped by the host loop only.
\<close>

definition placement :: "'v NodeInfo \<Rightarrow> Side" where
  "placement info = (if computeInGPU info then Device else Host)"

definition computed :: "'v NodeInfo \<Rightarrow> bool" where
  "computed info = (computeInGPU info \<or> \<not> fromDataset info)"

definition sideMap :: "Side \<Rightarrow> 'v RooFitDriver \<Rightarrow> nat \<Rightarrow> 'v Span option" where
  "sideMap X s = (case X of Host \<Rightarrow> dataMapCPU s | Device \<Rightarrow> dataMapCUDA s)"

text \<open>
  The value the kernel of node \<open>i\<close> writes at position \<open>pos\<close> when every server holds
  the value of its own kernel, or the dataset span \<open>ds\<close> gives for it; the servers of
  a node come before it in the node vector.
\<close>

fun kernelValue ::
  "'v NodeInfo list \<Rightarrow> 'v Kernel \<Rightarrow> (Side \<Rightarrow> nat \<Rightarrow> 'v list option) \<Rightarrow> nat \<Rightarrow> nat \<Rightarrow> 'v" where
  "kernelValue ns K ds i pos =
     K i (placement (ns ! i)) (outputSize (ns ! i))
       (\<lambda>k. if k < i then
               (if computed (ns ! k)
                then Some (map (kernelValue ns K ds k) [0..<outputSize (ns ! k)])
                else ds (placement (ns ! i)) k)
             else None) pos"

text \<open>A kernel reads the data map at the servers of its node only.\<close>

definition kernelLocal :: "'v NodeInfo list \<Rightarrow> 'v Kernel \<Rightarrow> bool" where
  "kernelLocal ns K =
     (\<forall>i < length ns. \<forall>X n v v'.
        (\<forall>k \<in> set (serverInfos (ns ! i)). v k = v' k) \<longrightarrow> K i X n v = K i X n v')"

text \<open>The clients among \<open>cs\<close> that are not retired, counted with their multiplicity.\<close>

definition waiting :: "'v NodeInfo list \<Rightarrow> nat list \<Rightarrow> int" where
  "waiting ns cs = int (length (filter (\<lambda>c. remServers (ns ! c) \<noteq> - 2) cs))"

text \<open>
  What a client on side \<open>X\<close> is to read of node \<open>k\<close> in an evaluation that started in
  state \<open>s0\<close>, if \<open>out k\<close> is what the kernel of \<open>k\<close> writes; and what it takes for
  \<open>out\<close> to be what the kernels write.
\<close>

definition expected ::
  "(nat \<Rightarrow> nat \<Rightarrow> 'v) \<Rightarrow> 'v RooFitDriver \<Rightarrow> Side \<Rightarrow> nat \<Rightarrow> 'v list option" where
  "expected out s0 X k =
     (if computed (nodes s0 ! k) then Some (map (out k) [0..<outputSize (nodes s0 ! k)])
      else dataMapView s0 (sideMap X s0) k)"

definition denotes :: "'v Kernel \<Rightarrow> 'v RooFitDriver \<Rightarrow> (nat \<Rightarrow> nat \<Rightarrow> 'v) \<Rightarrow> bool" where
  "denotes K s0 out =
     (\<forall>i < length (nodes s0). computed (nodes s0 ! i) \<longrightarrow>
        (\<forall>view. (\<forall>k \<in> set (serverInfos (nodes s0 ! i)).
                    view k = expected out s0 (placement (nodes s0 ! i)) k) \<longrightarrow>
           (\<forall>pos < outputSize (nodes s0 ! i).
              K i (placement (nodes s0 ! i)) (outputSize (nodes s0 ! i)) view pos = out i pos)))"

text \<open>The fields of a node that an evaluation reads and never writes.\<close>

definition staticInfo :: "'v NodeInfo \<Rightarrow> nat list \<times> nat list \<times> bool \<times> bool \<times> nat \<times> bool" where
  "staticInfo info =
     (serverInfos info, clientInfos info, computeInGPU info, fromDataset info,
      outputSize info, copyAfterEvaluation info)"

text \<open>The node whose storage a pointer points into, if any.\<close>

definition ptrNode :: "'v Pointer \<Rightarrow> nat option" where
  "ptrNode p =
     (case p of ScalarPtr i \<Rightarrow> Some i | CpuPtr i \<Rightarrow> Some i | GpuPtr i \<Rightarrow> Some i
      | DataPtr column \<Rightarrow> None | DevDataPtr idx \<Rightarrow> None)"

definition staticSpan :: "'v Span option \<Rightarrow> bool" where
  "staticSpan e = (case e of None \<Rightarrow> True | Some sp \<Rightarrow> ptrNode (fst sp) = None)"

text \<open>
  A driver in CUDA mode as \<^verbatim>\<open>setData\<close> leaves it: the graph is well formed, the
  placement has been decided, and the spans of the nodes that no kernel writes are those
  of the dataset.
\<close>

definition devReady :: "'v RooFitDriver \<Rightarrow> bool" where
  "devReady s0 =
     (wellFormed (nodes s0) \<and> batchMode s0 = Cuda
      \<and> (\<forall>j < length (nodes s0).
            copyAfterEvaluation (nodes s0 ! j) = needsCopy (nodes s0) j)
      \<and> (\<forall>j < length (nodes s0). \<not> computed (nodes s0 ! j) \<longrightarrow>
            staticSpan (dataMapCPU s0 j) \<and> staticSpan (dataMapCUDA s0 j)))"

text \<open>
  What holds of the storage and the spans of node \<open>j\<close> during an evaluation that
  started in state \<open>s0\<close>; \<open>rest\<close> lists the servers whose release by the node that has
  just been retired is still to come.
\<close>

definition valInv ::
  "(nat \<Rightarrow> nat \<Rightarrow> 'v) \<Rightarrow> 'v RooFitDriver \<Rightarrow> nat list \<Rightarrow> 'v RooFitDriver \<Rightarrow> nat \<Rightarrow> bool" where
  "valInv out s0 rest s j =
     (let info0 = nodes s0 ! j; info = nodes s ! j; nOut = outputSize info0;
          w = waiting (nodes s) (clientInfos info0) + int (count_list rest j)
      in w \<le> remClients info
         \<and> (if computed info0 then
              (remServers info < 0 \<longrightarrow>
                 (if nOut = 1 then
                    scalarBuffer info = out j 0
                    \<and> dataMapCPU s j = Some (ScalarPtr j, 1)
                    \<and> dataMapCUDA s j = Some (ScalarPtr j, 1)
                  else
                    (dataMapCPU s j = Some (CpuPtr j, nOut)
                       \<or> computeInGPU info0 \<and> \<not> copyAfterEvaluation info0)
                    \<and> (dataMapCUDA s j = Some (GpuPtr j, nOut)
                       \<or> \<not> computeInGPU info0 \<and> \<not> copyAfterEvaluation info0)
                    \<and> (0 < w \<or> clientInfos info0 = [] \<longrightarrow>
                         (\<exists>b. buffer info = Some b
                              \<and> bufferData b = map (out j) [0..<nOut]))))
            else dataMapCPU s j = dataMapCPU s0 j \<and> dataMapCUDA s j = dataMapCUDA s0 j))"

definition valState ::
  "(nat \<Rightarrow> nat \<Rightarrow> 'v) \<Rightarrow> 'v RooFitDriver \<Rightarrow> nat list \<Rightarrow> 'v RooFitDriver \<Rightarrow> bool" where
  "valState out s0 rest s =
     (map staticInfo (nodes s) = map staticInfo (nodes s0) \<and> batchMode s = Cuda
      \<and> cudaMemDataset s = cudaMemDataset s0
      \<and> (\<forall>j < length (nodes s0). valInv out s0 rest s j))"

text \<open>
  What an evaluation with a device returns, if \<open>out\<close> is what the kernels write: the
  first value of the top node.
\<close>

definition deviceResult :: "(nat \<Rightarrow> nat \<Rightarrow> 'v) \<Rightarrow> 'v RooFitDriver \<Rightarrow> Error + 'v" where
  "deviceResult out s0 =
     (let t = length (nodes s0) - 1 in
      if computed (nodes s0 ! t)
      then (if outputSize (nodes s0 ! t) = 0 then Inl OutOfRange else Inr (out t 0))
      else topValue s0)"

section \<open>The parameters as the graph provider lists them\<close>

text \<open>
  Modelled from the spec: the graph provider's own enumeration of the parameters
  (\<^verbatim>\<open>RooAbsArg::getParameters\<close>) is not part of the source. The spec has every node be
  exactly one of parameter leaf, dataset leaf and derived node, and has the enumeration
  sorted by name: it lists the parameter leaves of the graph that the dataset does not
  bind, by name.
\<close>

definition providerParameters :: "ArgInfo list \<Rightarrow> (string \<Rightarrow> 'v list option) \<Rightarrow> nat list" where
  "providerParameters serverSet dataSpans =
     sort_key (\<lambda>i. aName (serverSet ! i))
       (filter (\<lambda>i. aIsRealVar (serverSet ! i) \<and> dataSpans (aName (serverSet ! i)) = None)
          [0..<length serverSet])"

section \<open>An example graph\<close>

text \<open>
  A likelihood in miniature: an observable \<open>x\<close> with three events, a parameter \<open>p\<close>,
  a function \<open>f\<close> of both that can run on the device, and a reducer \<open>top\<close> on
  top. It is the concrete input of the examples below.
\<close>

definition exampleEnv :: Environment where
  "exampleEnv = \<lparr>builtWithCuda = True, hasCuda = True, infoStreamActive = True,
                 cpuArchitectureGeneric = False\<rparr>"

definition exampleArg :: "string \<Rightarrow> bool \<Rightarrow> bool \<Rightarrow> bool \<Rightarrow> nat list \<Rightarrow> ArgInfo" where
  "exampleArg n v r c svs =
     \<lparr>aName = n, aIsRealVar = v, aIsCategory = False, aIsReducerNode = r,
      aCanComputeBatchWithCuda = c, aOperMode = Auto, aValueServers = svs\<rparr>"

definition exampleGraph :: "ArgInfo list" where
  "exampleGraph =
     [exampleArg ''x'' True False False [],
      exampleArg ''p'' True False False [],
      exampleArg ''f'' False False True [0, 1],
      exampleArg ''top'' False True True [2]]"

definition exampleSpans :: "string \<Rightarrow> int list option" where
  "exampleSpans = [''x'' \<mapsto> [1, 2, 3]]"

definition exampleSizes :: "nat \<Rightarrow> nat option" where
  "exampleSizes = [0 \<mapsto> 3, 1 \<mapsto> 1, 2 \<mapsto> 3, 3 \<mapsto> 1]"

definition exampleDriver :: "BatchModeOption \<Rightarrow> int RooFitDriver" where
  "exampleDriver bm = projr (snd (construct exampleEnv (Off, False) exampleGraph bm))"

definition exampleBound :: "BatchModeOption \<Rightarrow> int RooFitDriver" where
  "exampleBound bm = projr (setData exampleSpans exampleSizes (exampleDriver bm))"

text \<open>
  The kernels of the example: \<open>p\<close> writes its value, \<open>f\<close> is the product of \<open>x\<close> and
  \<open>p\<close> event by event, \<open>top\<close> is the sum of \<open>f\<close>.
\<close>

definition exampleKernel :: "int \<Rightarrow> int Kernel" where
  "exampleKernel pval i side nOut view k =
     (if i = 1 then pval
      else if i = 2 then
        (case (view 0, view 1) of
           (Some xs, Some (q # _)) \<Rightarrow> (if k < length xs then xs ! k * q else 0)
         | _ \<Rightarrow> 0)
      else if i = 3 then (case view 2 of Some ys \<Rightarrow> sum_list ys | None \<Rightarrow> 0)
      else 0)"

text \<open>
  The example on the host: a first evaluation with \<open>p = 2\<close>, a second one with nothing
  changed, a third one after \<open>p\<close> has been set to 5.
\<close>

definition exampleEval1 :: "int RooFitDriver" where
  "exampleEval1 = snd (the (getVal 0 (\<lambda>q i. False) (exampleKernel 2) (\<lambda>i. 0) (exampleBound Cpu)))"

definition exampleEval2 :: "int RooFitDriver" where
  "exampleEval2 = snd (the (getVal 0 (\<lambda>q i. False) (exampleKernel 2) (\<lambda>i. 0) exampleEval1))"

definition exampleEval3 :: "int RooFitDriver" where
  "exampleEval3 = snd (the (getVal 0 (\<lambda>q i. False) (exampleKernel 5) (\<lambda>i. 1) exampleEval1))"

text \<open>
  The example on the device: the streams answer the first three queries of the scheduler
  with ``active'', every later one with ``idle''.
\<close>

definition exampleActive :: "nat \<Rightarrow> nat \<Rightarrow> bool" where
  "exampleActive q i = (q < 3)"

definition exampleDeviceEval :: "int RooFitDriver" where
  "exampleDeviceEval =
     snd (the (getVal 10 exampleActive (exampleKernel 2) (\<lambda>i. 0) (exampleBound Cuda)))"

text \<open>
  A second evaluation of the example on the device, with streams that are idle at every
  query.
\<close>

definition exampleDeviceEval2 :: "int RooFitDriver" where
  "exampleDeviceEval2 =
     snd (the (getVal 10 (\<lambda>q i. False) (exampleKernel 2) (\<lambda>i. 0) exampleDeviceEval))"

text \<open>
  The example with the values of \<open>f\<close> given by the dataset: the data spans have a
  column under the name of \<open>f\<close> too.
\<close>

definition exampleSpansF :: "string \<Rightarrow> int list option" where
  "exampleSpansF = [''x'' \<mapsto> [1, 2, 3], ''f'' \<mapsto> [2, 4, 6]]"

definition exampleBoundF :: "int RooFitDriver" where
  "exampleBoundF = projr (setData exampleSpansF exampleSizes (exampleDriver Cpu))"

text \<open>
  The example with more data: a second column \<open>y\<close> and a global observable \<open>g\<close>, for
  which the dataset has a single value; \<open>f\<close> is \<open>x * p + y * g\<close> event by event.
\<close>

definition exampleGraphW :: "ArgInfo list" where
  "exampleGraphW =
     [exampleArg ''x'' True False False [],
      exampleArg ''y'' True False False [],
      exampleArg ''g'' True False False [],
      exampleArg ''p'' True False False [],
      exampleArg ''f'' False False True [0, 1, 2, 3],
      exampleArg ''top'' False True True [4]]"

definition exampleSpansW :: "string \<Rightarrow> int list option" where
  "exampleSpansW = [''x'' \<mapsto> [1, 2, 3], ''y'' \<mapsto> [10, 20, 30], ''g'' \<mapsto> [7]]"

definition exampleSizesW :: "nat \<Rightarrow> nat option" where
  "exampleSizesW = [0 \<mapsto> 3, 1 \<mapsto> 3, 2 \<mapsto> 1, 3 \<mapsto> 1, 4 \<mapsto> 3, 5 \<mapsto> 1]"

definition exampleDriverW :: "int RooFitDriver" where
  "exampleDriverW = projr (snd (construct exampleEnv (Off, False) exampleGraphW Cuda))"

definition exampleBoundW :: "int RooFitDriver" where
  "exampleBoundW = projr (setData exampleSpansW exampleSizesW exampleDriverW)"

definition exampleKernelW :: "int \<Rightarrow> int Kernel" where
  "exampleKernelW pval i side nOut view k =
     (if i = 3 then pval
      else if i = 4 then
        (case (view 0, view 1, view 2, view 3) of
           (Some xs, Some ys, Some (g # _), Some (q # _)) \<Rightarrow>
             (if k < length xs \<and> k < length ys then xs ! k * q + ys ! k * g else 0)
         | _ \<Rightarrow> 0)
      else if i = 5 then (case view 4 of Some zs \<Rightarrow> sum_list zs | None \<Rightarrow> 0)
      else 0)"

text \<open>An evaluation of the example with more data on the device.\<close>

definition exampleDeviceEvalW :: "int RooFitDriver" where
  "exampleDeviceEvalW =
     snd (the (getVal 12 exampleActive (exampleKernelW 2) (\<lambda>i. 0) exampleBoundW))"

section \<open>Properties\<close>

section \<open>Basic facts\<close>

lemma map_list_update_same: "f y = f (xs ! i) \<Longrightarrow> map f (xs[i := y]) = map f xs"
  by (cases "i < length xs") (simp_all add: map_update list_update_same_conv list_update_beyond)

lemma fold_preserves: "(\<And>i x. P (g i x) = P x) \<Longrightarrow> P (fold g is x) = P x"
  by (induction "is" arbitrary: x) simp_all

lemma map_eq_nth: "map f xs = map f ys \<Longrightarrow> i < length xs \<Longrightarrow> f (xs ! i) = f (ys ! i)"
  by (metis length_map nth_map)

lemma map_eq_length: "map f xs = map f ys \<Longrightarrow> length xs = length ys"
  by (metis length_map)

lemma Inr_projr: "(case x of Inl e \<Rightarrow> False | Inr y \<Rightarrow> True) \<Longrightarrow> x = Inr (projr x)"
  by (cases x) simp_all

lemma nodes_updNode [simp]: "nodes (updNode i f s) = (nodes s)[i := f (nodes s ! i)]"
  and batchMode_updNode [simp]: "batchMode (updNode i f s) = batchMode s"
  and dataMapCPU_updNode [simp]: "dataMapCPU (updNode i f s) = dataMapCPU s"
  and dataMapCUDA_updNode [simp]: "dataMapCUDA (updNode i f s) = dataMapCUDA s"
  and events_updNode [simp]: "events (updNode i f s) = events s"
  and streamQueries_updNode [simp]: "streamQueries (updNode i f s) = streamQueries s"
  by (simp_all add: updNode_def)

lemma nodes_logEvent [simp]: "nodes (logEvent e s) = nodes s"
  and batchMode_logEvent [simp]: "batchMode (logEvent e s) = batchMode s"
  and dataMapCPU_logEvent [simp]: "dataMapCPU (logEvent e s) = dataMapCPU s"
  and dataMapCUDA_logEvent [simp]: "dataMapCUDA (logEvent e s) = dataMapCUDA s"
  and events_logEvent [simp]: "events (logEvent e s) = events s @ [e]"
  and streamQueries_logEvent [simp]: "streamQueries (logEvent e s) = streamQueries s"
  by (simp_all add: logEvent_def)


section \<open>Device placement (\<^verbatim>\<open>markGPUNodes\<close>)\<close>

lemma anyClientDiffers_iff:
  "anyClientDiffers ns info cs \<longleftrightarrow> (\<exists>c \<in> set cs. computeInGPU info \<noteq> computeInGPU (ns ! c))"
  by (induction cs) auto

lemma computeInGPU_copyAfterEvaluation [simp]:
  "computeInGPU (info\<lparr>copyAfterEvaluation := b\<rparr>) = computeInGPU info"
  by (simp add: computeInGPU_def isScalar_def)

lemma markGPUNode_eq:
  assumes "i < length ns"
  shows "markGPUNode i ns = ns[i := (ns ! i)\<lparr>copyAfterEvaluation := needsCopy ns i\<rparr>]"
proof -
  let ?ns1 = "ns[i := (ns ! i)\<lparr>copyAfterEvaluation := False\<rparr>]"
  have same: "computeInGPU (?ns1 ! c) = computeInGPU (ns ! c)" for c
    using assms by (cases "c = i") simp_all
  have "anyClientDiffers ?ns1 (?ns1 ! i) (clientInfos (?ns1 ! i)) \<longleftrightarrow>
        (\<exists>c \<in> set (clientInfos (ns ! i)). computeInGPU (ns ! c) \<noteq> computeInGPU (ns ! i))"
    using assms by (auto simp: anyClientDiffers_iff same)
  then show ?thesis
    using assms by (auto simp: markGPUNode_def needsCopy_def isScalar_def Let_def)
qed

lemma fold_markGPUNode:
  assumes "validEdges ns" "k \<le> length ns"
  shows "length (fold markGPUNode [0..<k] ns) = length ns \<and>
         (\<forall>j < length ns. fold markGPUNode [0..<k] ns ! j =
            (if j < k then (ns ! j)\<lparr>copyAfterEvaluation := needsCopy ns j\<rparr> else ns ! j))"
  using assms(2)
proof (induction k)
  case 0
  then show ?case by simp
next
  case (Suc k)
  let ?m = "fold markGPUNode [0..<k] ns"
  from Suc have len: "length ?m = length ns" and k: "k < length ns"
    and nth: "\<And>j. j < length ns \<Longrightarrow> ?m ! j =
            (if j < k then (ns ! j)\<lparr>copyAfterEvaluation := needsCopy ns j\<rparr> else ns ! j)"
    by simp_all
  have gpu: "computeInGPU (?m ! c) = computeInGPU (ns ! c)" if "c < length ns" for c
    using nth [OF that] by simp
  have mk: "?m ! k = ns ! k" using nth [OF k] by simp
  have "\<forall>c \<in> set (clientInfos (ns ! k)). c < length ns"
    using assms(1) k by (auto simp: validEdges_def)
  then have nc: "needsCopy ?m k = needsCopy ns k"
    by (auto simp: needsCopy_def mk gpu)
  have step: "fold markGPUNode [0..<Suc k] ns =
              ?m[k := (ns ! k)\<lparr>copyAfterEvaluation := needsCopy ns k\<rparr>]"
    using k len by (simp add: markGPUNode_eq nc mk)
  show ?case
    unfolding step using len nth by (auto simp: nth_list_update less_Suc_eq)
qed

lemma markGPUNode_map:
  "(\<And>info b. f (info\<lparr>copyAfterEvaluation := b\<rparr>) = f info) \<Longrightarrow>
     map f (markGPUNode i ns) = map f ns"
  by (cases "i < length ns")
     (simp_all add: markGPUNode_def Let_def map_list_update_same list_update_beyond)

lemma markGPUNodes_map:
  assumes "\<And>info b. f (info\<lparr>copyAfterEvaluation := b\<rparr>) = f info"
  shows "map f (nodes (markGPUNodes s)) = map f (nodes s)"
  unfolding markGPUNodes_def
  using fold_preserves [of "\<lambda>ns. map f ns" markGPUNode] markGPUNode_map [of f, OF assms]
  by simp

lemma markGPUNodes_other [simp]:
  "dataMapCPU (markGPUNodes s) = dataMapCPU s"
  "dataMapCUDA (markGPUNodes s) = dataMapCUDA s"
  "events (markGPUNodes s) = events s"
  "batchMode (markGPUNodes s) = batchMode s"
  by (simp_all add: markGPUNodes_def)

text \<open>
  Claim C4. A node computes on the device iff it is a reducer or has an output size other
  than 1, and its kernel can run with CUDA. After \<^verbatim>\<open>markGPUNodes\<close>,
  \<^verbatim>\<open>copyAfterEvaluation\<close> of a node is set iff the node is not scalar and one of its
  clients is placed on the other side.
\<close>

theorem markGPUNodes_placement:
  assumes "validEdges (nodes s)" and "i < length (nodes s)"
  defines "ns' \<equiv> nodes (markGPUNodes s)"
  shows "(computeInGPU (ns' ! i) \<longleftrightarrow>
            (isReducerNode (ns' ! i) \<or> outputSize (ns' ! i) \<noteq> 1)
            \<and> canComputeBatchWithCuda (ns' ! i))
       \<and> (copyAfterEvaluation (ns' ! i) \<longleftrightarrow>
            outputSize (ns' ! i) \<noteq> 1
            \<and> (\<exists>c \<in> set (clientInfos (ns' ! i)).
                  computeInGPU (ns' ! c) \<noteq> computeInGPU (ns' ! i)))"
proof -
  have nth: "ns' ! j = (nodes s ! j)\<lparr>copyAfterEvaluation := needsCopy (nodes s) j\<rparr>"
    if "j < length (nodes s)" for j
    using fold_markGPUNode [OF assms(1), of "length (nodes s)"] that
    by (simp add: ns'_def markGPUNodes_def)
  have valid: "\<forall>c \<in> set (clientInfos (nodes s ! i)). c < length (nodes s)"
    using assms(1,2) by (auto simp: validEdges_def)
  show ?thesis
    using valid by (auto simp: nth assms(2) needsCopy_def computeInGPU_def isScalar_def)
qed

text \<open>
  In the example in CUDA mode the observable \<open>x\<close> stays on the host, is not scalar and
  feeds \<open>f\<close>, which runs on the device: its output has to be copied.
\<close>

theorem markGPUNodes_placement_witness:
  "validEdges (nodes (exampleBound Cuda)) \<and> 0 < length (nodes (exampleBound Cuda))
   \<and> \<not> computeInGPU (nodes (markGPUNodes (exampleBound Cuda)) ! 0)
   \<and> copyAfterEvaluation (nodes (markGPUNodes (exampleBound Cuda)) ! 0)"
proof -
  have h1: "validEdges (nodes (exampleBound Cuda))"
    by code_simp
  have h2: "0 < length (nodes (exampleBound Cuda))"
    by code_simp
  have h3: "outputSize (nodes (markGPUNodes (exampleBound Cuda)) ! 0) = 3"
    "clientInfos (nodes (markGPUNodes (exampleBound Cuda)) ! 0) = [2]"
    "\<not> canComputeBatchWithCuda (nodes (markGPUNodes (exampleBound Cuda)) ! 0)"
    "computeInGPU (nodes (markGPUNodes (exampleBound Cuda)) ! 2)"
    by code_simp+
  show ?thesis
    using markGPUNodes_placement [OF h1 h2] h1 h2 h3 by simp
qed

section \<open>Binding a dataset (\<^verbatim>\<open>setData\<close>)\<close>

lemma bindNode_nodes:
  "i < length (nodes s) \<Longrightarrow>
   nodes (fst (bindNode dataSpans i (s, t))) = (nodes s)[i := bindInfo dataSpans (nodes s ! i)]"
  by (auto simp: bindNode_def bindInfo_def bound_def Let_def split: option.splits)

lemma bindNode_dataMapCPU:
  "i < length (nodes s) \<Longrightarrow>
   dataMapCPU (fst (bindNode dataSpans i (s, t))) =
     (case dataSpans (argName (nodes s ! i)) of
        None \<Rightarrow> dataMapCPU s
      | Some column \<Rightarrow> (dataMapCPU s)(i \<mapsto> (DataPtr column, length column)))"
  by (auto simp: bindNode_def Let_def split: option.splits)

lemma bindNode_other:
  "batchMode (fst (bindNode dataSpans i st)) = batchMode (fst st)"
  "events (fst (bindNode dataSpans i st)) = events (fst st)"
  "dataMapCUDA (fst (bindNode dataSpans i st)) = dataMapCUDA (fst st)"
  by (auto simp: bindNode_def Let_def split: option.splits)

lemma fold_bindNode:
  fixes s :: "'v RooFitDriver" and dataSpans :: "string \<Rightarrow> 'v list option" and t k :: nat
  assumes "k \<le> length (nodes s)"
  defines "r \<equiv> fst (fold (bindNode dataSpans) [0..<k] (s, t))"
  shows "length (nodes r) = length (nodes s)
       \<and> (\<forall>j < length (nodes s). nodes r ! j =
             (if j < k then bindInfo dataSpans (nodes s ! j) else nodes s ! j))
       \<and> (\<forall>j. dataMapCPU r j =
             (if j < k then
                (case dataSpans (argName (nodes s ! j)) of
                   None \<Rightarrow> dataMapCPU s j
                 | Some column \<Rightarrow> Some (DataPtr column, length column))
              else dataMapCPU s j))
       \<and> batchMode r = batchMode s \<and> events r = events s \<and> dataMapCUDA r = dataMapCUDA s"
  using assms(1) unfolding r_def
proof (induction k)
  case 0
  then show ?case by simp
next
  case (Suc k)
  obtain m u where m: "fold (bindNode dataSpans) [0..<k] (s, t) = (m, u)"
    by (cases "fold (bindNode dataSpans) [0..<k] (s, t)")
  from Suc m have len: "length (nodes m) = length (nodes s)" and k: "k < length (nodes s)"
    and nth: "\<And>j. j < length (nodes s) \<Longrightarrow> nodes m ! j =
             (if j < k then bindInfo dataSpans (nodes s ! j) else nodes s ! j)"
    and dm: "\<And>j. dataMapCPU m j =
             (if j < k then
                (case dataSpans (argName (nodes s ! j)) of
                   None \<Rightarrow> dataMapCPU s j
                 | Some column \<Rightarrow> Some (DataPtr column, length column))
              else dataMapCPU s j)"
    and rest: "batchMode m = batchMode s" "events m = events s" "dataMapCUDA m = dataMapCUDA s"
    by simp_all
  have mk: "nodes m ! k = nodes s ! k" using nth [OF k] by simp
  have km: "k < length (nodes m)" using k len by simp
  have step: "fold (bindNode dataSpans) [0..<Suc k] (s, t) = bindNode dataSpans k (m, u)"
    by (simp add: m)
  show ?case
    unfolding step
    using len nth dm rest k
    by (auto simp: bindNode_nodes [OF km] bindNode_dataMapCPU [OF km] bindNode_other mk
        nth_list_update less_Suc_eq split: option.splits)
qed

lemma setOperMode_bindFields [simp]:
  "map bindFields (nodes (setOperMode i m s)) = map bindFields (nodes s)"
  by (simp add: setOperMode_def map_list_update_same bindFields_def)

lemma setOperMode_other [simp]:
  "length (nodes (setOperMode i m s)) = length (nodes s)"
  "dataMapCPU (setOperMode i m s) = dataMapCPU s"
  "dataMapCUDA (setOperMode i m s) = dataMapCUDA s"
  "events (setOperMode i m s) = events s"
  "batchMode (setOperMode i m s) = batchMode s"
  by (simp_all add: setOperMode_def)

lemma sizeNodes_preserves:
  "sizeNodes outputSizeMap is s = Inr s' \<Longrightarrow>
     map bindFields (nodes s') = map bindFields (nodes s)
     \<and> dataMapCPU s' = dataMapCPU s \<and> dataMapCUDA s' = dataMapCUDA s
     \<and> events s' = events s \<and> batchMode s' = batchMode s"
proof (induction "is" arbitrary: s)
  case Nil
  then show ?case by simp
next
  case (Cons i "is")
  from Cons.prems obtain n where n: "outputSizeMap i = Some n"
    by (auto split: option.splits)
  let ?s1 = "updNode i (\<lambda>info. info\<lparr>outputSize := n\<rparr>) s"
  let ?s2 = "if \<not> isScalar (nodes ?s1 ! i) then setOperMode i ADirty ?s1 else ?s1"
  have rec: "sizeNodes outputSizeMap is ?s2 = Inr s'"
    using Cons.prems n by (simp add: Let_def)
  have "map bindFields (nodes ?s2) = map bindFields (nodes s)"
    by (simp add: map_list_update_same bindFields_def)
  moreover have "dataMapCPU ?s2 = dataMapCPU s" "dataMapCUDA ?s2 = dataMapCUDA s"
    "events ?s2 = events s" "batchMode ?s2 = batchMode s"
    by simp_all
  ultimately show ?case
    using Cons.IH [OF rec] by simp
qed

lemma uploadNodes_preserves:
  "uploadNodes is idx s = Inr s' \<Longrightarrow>
     nodes s' = nodes s \<and> dataMapCPU s' = dataMapCPU s \<and> batchMode s' = batchMode s
     \<and> events s' = events s @ uploadEvents (nodes s) is idx"
proof (induction "is" idx s rule: uploadNodes.induct)
  case (1 idx s)
  then show ?case by simp
next
  case (2 i "is" idx s)
  show ?case
  proof (cases "fromDataset (nodes s ! i)")
    case False
    then show ?thesis using 2 by simp
  next
    case True
    then obtain hostSpan where h: "dataMapCPU s i = Some hostSpan"
      using "2.prems" by (auto simp: Let_def split: option.splits)
    show ?thesis
    proof (cases "outputSize (nodes s ! i) = 1")
      case one: True
      then show ?thesis
        using "2.IH"(2) [OF _ refl h] "2.prems" True h by (simp add: Let_def)
    next
      case many: False
      then show ?thesis
        using "2.IH"(3) [OF _ refl h] "2.prems" True h by (simp add: Let_def)
    qed
  qed
qed

lemma uploadEvents_member:
  "e \<in> set (uploadEvents ns is idx) \<Longrightarrow>
     \<exists>j k. e = CopyHostToDevice j k (outputSize (ns ! j)) \<and> j \<in> set is
           \<and> fromDataset (ns ! j) \<and> outputSize (ns ! j) \<noteq> 1"
  by (induction ns "is" idx rule: uploadEvents.induct) (auto split: if_splits)

lemma uploadNodes_dataMapCUDA:
  "uploadNodes is idx s = Inr s' \<Longrightarrow> distinct is \<Longrightarrow>
     (if j \<in> set is \<and> fromDataset (nodes s ! j) then
        (if outputSize (nodes s ! j) = 1 then dataMapCUDA s' j = dataMapCPU s j
         else \<exists>k. dataMapCUDA s' j = Some (DevDataPtr k, outputSize (nodes s ! j))
                  \<and> CopyHostToDevice j k (outputSize (nodes s ! j))
                        \<in> set (uploadEvents (nodes s) is idx))
      else dataMapCUDA s' j = dataMapCUDA s j)"
proof (induction "is" idx s rule: uploadNodes.induct)
  case (1 idx s)
  then show ?case by simp
next
  case (2 i "is" idx s)
  show ?case
  proof (cases "fromDataset (nodes s ! i)")
    case False
    then show ?thesis using 2 by auto
  next
    case True
    then obtain hostSpan where h: "dataMapCPU s i = Some hostSpan"
      using "2.prems" by (auto simp: Let_def split: option.splits)
    show ?thesis
    proof (cases "outputSize (nodes s ! i) = 1")
      case one: True
      let ?s1 = "s\<lparr>dataMapCUDA := (dataMapCUDA s)(i \<mapsto> hostSpan)\<rparr>"
      have rec: "uploadNodes is idx ?s1 = Inr s'"
        using "2.prems" True h one by (simp add: Let_def)
      show ?thesis
        using "2.IH"(2) [OF _ refl h one rec] "2.prems"(2) True h one
        by (auto split: if_splits)
    next
      case many: False
      let ?n = "outputSize (nodes s ! i)"
      let ?s1 = "logEvent (CopyHostToDevice i idx ?n)
                   (s\<lparr>dataMapCUDA := (dataMapCUDA s)(i \<mapsto> (DevDataPtr idx, ?n)),
                      cudaMemDataset :=
                        copyHostToDevice (spanValues s hostSpan) idx ?n (cudaMemDataset s)\<rparr>)"
      have rec: "uploadNodes is (idx + ?n) ?s1 = Inr s'"
        using "2.prems" True h many by (simp add: Let_def)
      show ?thesis
        using "2.IH"(3) [OF _ refl h many rec] "2.prems"(2) True h many
        by (auto split: if_splits)
    qed
  qed
qed

text \<open>The state after the three loops of \<^verbatim>\<open>setData\<close>, loop by loop.\<close>

lemma setData_cases:
  assumes "setData dataSpans outputSizeMap s = Inr s'"
  shows "\<exists>s1 totalSize s2.
    fold (bindNode dataSpans) [0..<length (nodes s)] (s, 0) = (s1, totalSize)
    \<and> sizeNodes outputSizeMap [0..<length (nodes s)] s1 = Inr s2
    \<and> (batchMode s2 \<noteq> Cuda \<longrightarrow> s' = s2)
    \<and> (batchMode s2 = Cuda \<longrightarrow>
         (\<exists>s3. uploadNodes [0..<length (nodes s)] 0 (s2\<lparr>cudaMemDataset := replicate totalSize 0\<rparr>)
               = Inr s3 \<and> s' = markGPUNodes s3))"
proof -
  obtain s1 totalSize where
    b: "fold (bindNode dataSpans) [0..<length (nodes s)] (s, 0) = (s1, totalSize)"
    by (cases "fold (bindNode dataSpans) [0..<length (nodes s)] (s, 0)")
  from assms b obtain s2 where
    z: "sizeNodes outputSizeMap [0..<length (nodes s)] s1 = Inr s2"
    by (auto simp: setData_def Let_def split: sum.splits)
  from assms b z have h1: "batchMode s2 \<noteq> Cuda \<longrightarrow> s' = s2"
    by (auto simp: setData_def Let_def split: sum.splits)
  from assms b z have h2: "batchMode s2 = Cuda \<longrightarrow>
       (\<exists>s3. uploadNodes [0..<length (nodes s)] 0 (s2\<lparr>cudaMemDataset := replicate totalSize 0\<rparr>)
               = Inr s3 \<and> s' = markGPUNodes s3)"
    by (auto simp: setData_def Let_def split: sum.splits)
  show ?thesis using b z h1 h2 by blast
qed

lemma bindFields_copyAfterEvaluation [simp]:
  "bindFields (info\<lparr>copyAfterEvaluation := b\<rparr>) = bindFields info"
  by (simp add: bindFields_def)

lemma setData_frame:
  assumes "setData dataSpans outputSizeMap s = Inr s'"
  shows "map bindFields (nodes s')
           = map bindFields (nodes (fst (fold (bindNode dataSpans) [0..<length (nodes s)] (s, 0))))"
    and "dataMapCPU s'
           = dataMapCPU (fst (fold (bindNode dataSpans) [0..<length (nodes s)] (s, 0)))"
    and "batchMode s' = batchMode s"
    and "length (nodes s') = length (nodes s)"
proof -
  from assms obtain s1 totalSize s2 where
    b: "fold (bindNode dataSpans) [0..<length (nodes s)] (s, 0) = (s1, totalSize)" and
    z: "sizeNodes outputSizeMap [0..<length (nodes s)] s1 = Inr s2" and
    host: "batchMode s2 \<noteq> Cuda \<Longrightarrow> s' = s2" and
    dev: "batchMode s2 = Cuda \<Longrightarrow>
       \<exists>s3. uploadNodes [0..<length (nodes s)] 0 (s2\<lparr>cudaMemDataset := replicate totalSize 0\<rparr>)
               = Inr s3 \<and> s' = markGPUNodes s3"
    using setData_cases [OF assms] by blast
  have s1: "length (nodes s1) = length (nodes s)" "batchMode s1 = batchMode s"
    using fold_bindNode [of "length (nodes s)" s dataSpans 0] b by simp_all
  have s2: "map bindFields (nodes s2) = map bindFields (nodes s1)"
    "dataMapCPU s2 = dataMapCPU s1" "batchMode s2 = batchMode s1"
    using sizeNodes_preserves [OF z] by simp_all
  have s': "map bindFields (nodes s') = map bindFields (nodes s2)
            \<and> dataMapCPU s' = dataMapCPU s2 \<and> batchMode s' = batchMode s2"
  proof (cases "batchMode s2 = Cuda")
    case False
    then show ?thesis using host by simp
  next
    case True
    then obtain s3 where
      u: "uploadNodes [0..<length (nodes s)] 0 (s2\<lparr>cudaMemDataset := replicate totalSize 0\<rparr>)
            = Inr s3" and m: "s' = markGPUNodes s3"
      using dev by blast
    show ?thesis
      using uploadNodes_preserves [OF u] by (simp add: m markGPUNodes_map)
  qed
  show eq: "map bindFields (nodes s')
           = map bindFields (nodes (fst (fold (bindNode dataSpans) [0..<length (nodes s)] (s, 0))))"
    using s' s2(1) by (simp add: b)
  show "dataMapCPU s'
           = dataMapCPU (fst (fold (bindNode dataSpans) [0..<length (nodes s)] (s, 0)))"
    using s' s2(2) by (simp add: b)
  show "batchMode s' = batchMode s"
    using s' s2(3) s1(2) by simp
  have "map bindFields (nodes s') = map bindFields (nodes s1)"
    using eq by (simp add: b)
  then have "length (nodes s') = length (nodes s1)"
    by (rule map_eq_length)
  then show "length (nodes s') = length (nodes s)"
    using s1(1) by simp
qed

lemma setData_bindFields:
  assumes "setData dataSpans outputSizeMap s = Inr s'" and "i < length (nodes s)"
  shows "bindFields (nodes s' ! i) = bindFields (bindInfo dataSpans (nodes s ! i))"
    and "dataMapCPU s' i =
           (case dataSpans (argName (nodes s ! i)) of
              None \<Rightarrow> dataMapCPU s i
            | Some column \<Rightarrow> Some (DataPtr column, length column))"
proof -
  note f = setData_frame [OF assms(1)]
  note b = fold_bindNode [of "length (nodes s)" s dataSpans 0, OF order_refl]
  have "i < length (nodes s')" using assms(2) f(4) by simp
  then have "bindFields (nodes s' ! i)
           = bindFields (nodes (fst (fold (bindNode dataSpans) [0..<length (nodes s)] (s, 0))) ! i)"
    using f(1) by (rule map_eq_nth [rotated])
  then show "bindFields (nodes s' ! i) = bindFields (bindInfo dataSpans (nodes s ! i))"
    using b assms(2) by simp
  show "dataMapCPU s' i =
           (case dataSpans (argName (nodes s ! i)) of
              None \<Rightarrow> dataMapCPU s i
            | Some column \<Rightarrow> Some (DataPtr column, length column))"
    using b assms(2) by (simp add: f(2))
qed

text \<open>
  Claim C6, as the code has it. \<^verbatim>\<open>setData\<close> drops the pooled buffer of every node. A
  node whose name has an entry in the data spans gets that span published in the host
  data map, \<^verbatim>\<open>fromDataset = true\<close> and \<^verbatim>\<open>isDirty = false\<close>; every other node
  keeps its host span and gets \<^verbatim>\<open>fromDataset = false\<close> and \<^verbatim>\<open>isDirty = true\<close>.
\<close>

theorem setData_binding:
  assumes "setData dataSpans outputSizeMap s = Inr s'" and "i < length (nodes s)"
  shows "buffer (nodes s' ! i) = None
       \<and> (case dataSpans (argName (nodes s ! i)) of
            Some column \<Rightarrow>
              dataMapCPU s' i = Some (DataPtr column, length column)
              \<and> fromDataset (nodes s' ! i) \<and> \<not> isDirty (nodes s' ! i)
          | None \<Rightarrow>
              dataMapCPU s' i = dataMapCPU s i
              \<and> \<not> fromDataset (nodes s' ! i) \<and> isDirty (nodes s' ! i))"
  using setData_bindFields [OF assms]
  by (auto simp: bindFields_def bindInfo_def bound_def split: option.splits)

text \<open>The observable \<open>x\<close> of the example is bound to its column.\<close>

theorem setData_binding_witness:
  "setData exampleSpans exampleSizes (exampleDriver Cpu) = Inr (exampleBound Cpu)
   \<and> 0 < length (nodes (exampleDriver Cpu))
   \<and> exampleSpans (argName (nodes (exampleDriver Cpu) ! 0)) = Some [1, 2, 3]
   \<and> buffer (nodes (exampleBound Cpu) ! 0) = None
   \<and> dataMapCPU (exampleBound Cpu) 0 = Some (DataPtr [1, 2, 3], 3)
   \<and> fromDataset (nodes (exampleBound Cpu) ! 0)
   \<and> \<not> isDirty (nodes (exampleBound Cpu) ! 0)"
proof -
  have "case setData exampleSpans exampleSizes (exampleDriver Cpu) of
          Inl e \<Rightarrow> False | Inr s' \<Rightarrow> True"
    by code_simp
  then have h1: "setData exampleSpans exampleSizes (exampleDriver Cpu) = Inr (exampleBound Cpu)"
    unfolding exampleBound_def by (rule Inr_projr)
  have h2: "0 < length (nodes (exampleDriver Cpu))"
    by code_simp
  have h3: "exampleSpans (argName (nodes (exampleDriver Cpu) ! 0)) = Some [1, 2, 3]"
    by code_simp
  show ?thesis
    using setData_binding [OF h1 h2] h1 h2 h3 by simp
qed

text \<open>
  Claim C6 as stated has \<^verbatim>\<open>setData\<close> clear \<^verbatim>\<open>isDirty\<close> on every node and touch
  the flag again only for the nodes it binds. The parameter \<open>p\<close> of the example is not
  in the data spans and leaves \<^verbatim>\<open>setData\<close> with \<^verbatim>\<open>isDirty\<close> set.
\<close>

theorem setData_leaves_unbound_dirty:
  "(case setData exampleSpans exampleSizes (exampleDriver Cpu) of
      Inl e \<Rightarrow> False
    | Inr s' \<Rightarrow>
        exampleSpans (argName (nodes (exampleDriver Cpu) ! 1)) = None
        \<and> \<not> fromDataset (nodes s' ! 1) \<and> isDirty (nodes s' ! 1))"
  by code_simp

subsection \<open>The device array\<close>

lemma fold_bindNode_total:
  fixes s :: "'v RooFitDriver" and dataSpans :: "string \<Rightarrow> 'v list option" and t k :: nat
  assumes "k \<le> length (nodes s)"
  shows "snd (fold (bindNode dataSpans) [0..<k] (s, t))
           = t + sum_list (map (\<lambda>j. length (boundColumn dataSpans (nodes s ! j))) [0..<k])"
  using assms
proof (induction k)
  case 0
  then show ?case by simp
next
  case (Suc k)
  obtain m u where m: "fold (bindNode dataSpans) [0..<k] (s, t) = (m, u)"
    by (cases "fold (bindNode dataSpans) [0..<k] (s, t)")
  have k: "k < length (nodes s)" using Suc.prems by simp
  have u: "u = t + sum_list (map (\<lambda>j. length (boundColumn dataSpans (nodes s ! j))) [0..<k])"
    using Suc.IH k m by simp
  have "nodes m ! k = nodes s ! k" and km: "k < length (nodes m)"
    using fold_bindNode [of k s dataSpans t] m k by simp_all
  then have "snd (bindNode dataSpans k (m, u)) = u + length (boundColumn dataSpans (nodes s ! k))"
    by (simp add: bindNode_def Let_def boundColumn_def split: option.splits)
  then show ?case
    by (simp add: m u)
qed

lemma sizeNodes_outputSize:
  "sizeNodes outputSizeMap is s = Inr s' \<Longrightarrow> distinct is \<Longrightarrow> i \<in> set is \<Longrightarrow>
     i < length (nodes s) \<Longrightarrow> outputSizeMap i = Some (outputSize (nodes s' ! i))"
proof (induction "is" arbitrary: s)
  case Nil
  then show ?case by simp
next
  case (Cons k "is")
  from Cons.prems(1) obtain n where n: "outputSizeMap k = Some n"
    by (auto split: option.splits)
  let ?s1 = "updNode k (\<lambda>info. info\<lparr>outputSize := n\<rparr>) s"
  let ?s2 = "if \<not> isScalar (nodes ?s1 ! k) then setOperMode k ADirty ?s1 else ?s1"
  have rec: "sizeNodes outputSizeMap is ?s2 = Inr s'"
    using Cons.prems(1) n by (simp add: Let_def)
  have len: "length (nodes ?s2) = length (nodes s)" by simp
  show ?case
  proof (cases "i = k")
    case False
    then show ?thesis
      using Cons.IH [OF rec] Cons.prems(2-4) len by simp
  next
    case True
    have "k \<notin> set is" using Cons.prems(2) by simp
    have keep: "sizeNodes outputSizeMap js u = Inr u' \<Longrightarrow> k \<notin> set js \<Longrightarrow>
                  outputSize (nodes u' ! k) = outputSize (nodes u ! k)" for js u u'
    proof (induction js arbitrary: u)
      case Nil
      then show ?case by simp
    next
      case (Cons j js)
      from Cons.prems(1) obtain n' where n': "outputSizeMap j = Some n'"
        by (auto split: option.splits)
      let ?u1 = "updNode j (\<lambda>info. info\<lparr>outputSize := n'\<rparr>) u"
      let ?u2 = "if \<not> isScalar (nodes ?u1 ! j) then setOperMode j ADirty ?u1 else ?u1"
      have "sizeNodes outputSizeMap js ?u2 = Inr u'"
        using Cons.prems(1) n' by (simp add: Let_def)
      then have "outputSize (nodes u' ! k) = outputSize (nodes ?u2 ! k)"
        using Cons.IH Cons.prems(2) by simp
      moreover have "outputSize (nodes ?u2 ! k) = outputSize (nodes u ! k)"
        using Cons.prems(2) by (simp add: setOperMode_def)
      ultimately show ?case by simp
    qed
    have "outputSize (nodes s' ! k) = outputSize (nodes ?s2 ! k)"
      using keep [OF rec \<open>k \<notin> set is\<close>] .
    moreover have "outputSize (nodes ?s2 ! k) = n"
      using Cons.prems(4) True by (simp add: setOperMode_def)
    ultimately show ?thesis using n True by simp
  qed
qed

lemma uploadEvents_snoc:
  "uploadEvents ns (is @ [i]) idx =
     uploadEvents ns is idx
     @ (if copied (ns ! i)
        then [CopyHostToDevice i
                (idx + sum_list (map (\<lambda>j. outputSize (ns ! j)) (filter (\<lambda>j. copied (ns ! j)) is)))
                (outputSize (ns ! i))]
        else [])"
  by (induction ns "is" idx rule: uploadEvents.induct) (simp_all add: copied_def)

lemma uploadEvents_upt:
  "uploadEvents ns [0..<k] 0 =
     map (\<lambda>i. CopyHostToDevice i (deviceOffset ns i) (outputSize (ns ! i)))
       (filter (\<lambda>i. copied (ns ! i)) [0..<k])"
  by (induction k) (simp_all add: uploadEvents_snoc deviceOffset_def)

lemma copyHostToDevice_fresh:
  assumes "length pre = idx" and "n \<le> length src" and "n \<le> r"
  shows "copyHostToDevice src idx n (pre @ replicate r 0)
           = (pre @ take n src) @ replicate (r - n) 0"
  using assms by (simp add: copyHostToDevice_def min_def)

lemma uploadNodes_region:
  fixes s s' :: "('v::zero) RooFitDriver" and col :: "nat \<Rightarrow> 'v list"
  assumes "uploadNodes is idx s = Inr s'"
    and "\<And>i. i \<in> set is \<Longrightarrow> fromDataset (nodes s ! i) \<Longrightarrow>
           dataMapCPU s i = Some (DataPtr (col i), length (col i))"
    and "\<And>i. i \<in> set is \<Longrightarrow> copied (nodes s ! i) \<Longrightarrow> outputSize (nodes s ! i) \<le> length (col i)"
    and "cudaMemDataset s = pre @ replicate r 0" and "length pre = idx"
    and "sum_list (map (\<lambda>i. outputSize (nodes s ! i)) (filter (\<lambda>i. copied (nodes s ! i)) is)) \<le> r"
  shows "cudaMemDataset s' =
           pre @ concat (map (\<lambda>i. take (outputSize (nodes s ! i)) (col i))
                          (filter (\<lambda>i. copied (nodes s ! i)) is))
           @ replicate (r - sum_list (map (\<lambda>i. outputSize (nodes s ! i))
                                        (filter (\<lambda>i. copied (nodes s ! i)) is))) 0"
  using assms
proof (induction "is" idx s arbitrary: pre r rule: uploadNodes.induct)
  case (1 idx s)
  then show ?case by simp
next
  case (2 i "is" idx s)
  show ?case
  proof (cases "fromDataset (nodes s ! i)")
    case False
    then have rec: "uploadNodes is idx s = Inr s'" using "2.prems"(1) by simp
    have "cudaMemDataset s' =
           pre @ concat (map (\<lambda>i. take (outputSize (nodes s ! i)) (col i))
                          (filter (\<lambda>i. copied (nodes s ! i)) is))
           @ replicate (r - sum_list (map (\<lambda>i. outputSize (nodes s ! i))
                                        (filter (\<lambda>i. copied (nodes s ! i)) is))) 0"
      using "2.prems"(2,3,6) False
      by (intro "2.IH"(1) [OF False rec _ _ "2.prems"(4,5)]) (simp_all add: copied_def)
    then show ?thesis using False by (simp add: copied_def)
  next
    case True
    have h: "dataMapCPU s i = Some (DataPtr (col i), length (col i))"
      using "2.prems"(2) [of i] True by simp
    show ?thesis
    proof (cases "outputSize (nodes s ! i) = 1")
      case one: True
      let ?s1 = "s\<lparr>dataMapCUDA := (dataMapCUDA s)(i \<mapsto> (DataPtr (col i), length (col i)))\<rparr>"
      have rec: "uploadNodes is idx ?s1 = Inr s'"
        using "2.prems"(1) True h one by (simp add: Let_def)
      have "cudaMemDataset s' =
           pre @ concat (map (\<lambda>i. take (outputSize (nodes ?s1 ! i)) (col i))
                          (filter (\<lambda>i. copied (nodes ?s1 ! i)) is))
           @ replicate (r - sum_list (map (\<lambda>i. outputSize (nodes ?s1 ! i))
                                        (filter (\<lambda>i. copied (nodes ?s1 ! i)) is))) 0"
        using "2.prems"(2,3,4,5,6) True one
        by (intro "2.IH"(2) [OF _ refl h one rec]) (simp_all add: copied_def)
      then show ?thesis using True one by (simp add: copied_def)
    next
      case many: False
      let ?n = "outputSize (nodes s ! i)"
      let ?s1 = "logEvent (CopyHostToDevice i idx ?n)
                   (s\<lparr>dataMapCUDA := (dataMapCUDA s)(i \<mapsto> (DevDataPtr idx, ?n)),
                      cudaMemDataset :=
                        copyHostToDevice (spanValues s (DataPtr (col i), length (col i))) idx ?n
                          (cudaMemDataset s)\<rparr>)"
      let ?rest = "sum_list (map (\<lambda>i. outputSize (nodes s ! i))
                     (filter (\<lambda>i. copied (nodes s ! i)) is))"
      have rec: "uploadNodes is (idx + ?n) ?s1 = Inr s'"
        using "2.prems"(1) True h many by (simp add: Let_def)
      have c: "copied (nodes s ! i)" using True many by (simp add: copied_def)
      have n: "?n \<le> length (col i)" using "2.prems"(3) [of i] c by simp
      have room: "?n + ?rest \<le> r" using "2.prems"(6) c by simp
      have src: "spanValues s (DataPtr (col i), length (col i)) = col i"
        by (simp add: spanValues_def)
      have mem: "cudaMemDataset ?s1 = (pre @ take ?n (col i)) @ replicate (r - ?n) 0"
        using copyHostToDevice_fresh [OF "2.prems"(5) n, of r] room "2.prems"(4)
        by (simp add: src logEvent_def)
      have "cudaMemDataset s' =
           (pre @ take ?n (col i))
           @ concat (map (\<lambda>i. take (outputSize (nodes ?s1 ! i)) (col i))
                          (filter (\<lambda>i. copied (nodes ?s1 ! i)) is))
           @ replicate ((r - ?n) - sum_list (map (\<lambda>i. outputSize (nodes ?s1 ! i))
                                        (filter (\<lambda>i. copied (nodes ?s1 ! i)) is))) 0"
      proof (rule "2.IH"(3) [OF _ refl h many rec _ _ mem])
        show "dataMapCPU ?s1 j = Some (DataPtr (col j), length (col j))"
          if "j \<in> set is" "fromDataset (nodes ?s1 ! j)" for j
          using "2.prems"(2) [of j] that by (simp add: logEvent_def)
        show "outputSize (nodes ?s1 ! j) \<le> length (col j)"
          if "j \<in> set is" "copied (nodes ?s1 ! j)" for j
          using "2.prems"(3) [of j] that by simp
        show "length (pre @ take ?n (col i)) = idx + ?n"
          using "2.prems"(5) n by simp
        show "sum_list (map (\<lambda>i. outputSize (nodes ?s1 ! i))
                 (filter (\<lambda>i. copied (nodes ?s1 ! i)) is)) \<le> r - ?n"
          using room by simp
      qed (use True in simp)
      then show ?thesis using c room by simp
    qed
  qed
qed

lemma concat_segment:
  assumes "\<And>x. x \<in> set xs \<Longrightarrow> length (seg x) = sz x"
    and "length (seg j) = sz j"
  shows "take (sz j) (drop (sum_list (map sz xs)) (concat (map seg (xs @ j # ys)) @ pad))
           = seg j"
proof -
  have "length (concat (map seg xs)) = sum_list (map sz xs)"
    using assms(1) by (induction xs) simp_all
  then show ?thesis using assms(2) by simp
qed

lemma length_concat_segments:
  assumes "\<And>x. x \<in> set xs \<Longrightarrow> length (seg x) = sz x"
  shows "length (concat (map seg xs)) = sum_list (map sz xs)"
  using assms by (induction xs) simp_all

lemma sum_list_filter_le:
  fixes f g :: "'a \<Rightarrow> nat"
  assumes "\<And>x. x \<in> set xs \<Longrightarrow> P x \<Longrightarrow> f x \<le> g x"
  shows "sum_list (map f (filter P xs)) \<le> sum_list (map g xs)"
  using assms
proof (induction xs)
  case Nil
  then show ?case by simp
next
  case (Cons x xs)
  have "sum_list (map f (filter P xs)) \<le> sum_list (map g xs)"
    using Cons by simp
  then show ?case using Cons.prems [of x] by (auto intro: add_mono trans_le_add2)
qed

lemma filter_upt_split:
  assumes "j < n" and "P j"
  shows "filter P [0..<n] = filter P [0..<j] @ j # filter P [Suc j..<n]"
proof -
  have "[0..<n] = [0..<j] @ j # [Suc j..<n]"
    using assms(1) by (metis less_imp_le_nat upt_add_eq_append upt_conv_Cons le0 le_add_diff_inverse)
  then have "filter P [0..<n] = filter P ([0..<j] @ j # [Suc j..<n])" by simp
  then show ?thesis using assms(2) by simp
qed

text \<open>
  Claim C10. In CUDA mode \<^verbatim>\<open>setData\<close> makes one host-to-device copy for each dataset
  node that is not scalar, and none for any other node. The copies fill the device array
  from offset 0 without gaps, in the order of the nodes: the span published in the device
  data map for such a node starts where the columns of the nodes before it end, and
  reading it gives the values of the column. The array is as long as all the columns
  together; what the copies leave of it stays zero. For a scalar dataset node the device
  data map gets the host span itself. The copy of a column reads as many values as the
  output size of the node; the statement is for output sizes within the columns.
\<close>

theorem setData_device_region:
  fixes s s' :: "('v::zero) RooFitDriver"
  assumes dev: "batchMode s = Cuda" and sd: "setData dataSpans outputSizeMap s = Inr s'"
    and fit: "spansFit dataSpans outputSizeMap (nodes s)"
  defines "ns \<equiv> nodes s'"
    and "copies \<equiv> drop (length (events s)) (events s')"
    and "columns \<equiv> filter (\<lambda>i. copied (nodes s' ! i)) [0..<length (nodes s')]"
    and "column \<equiv> \<lambda>i. take (outputSize (nodes s' ! i)) (boundColumn dataSpans (nodes s' ! i))"
  shows "copies = map (\<lambda>i. CopyHostToDevice i (deviceOffset ns i) (outputSize (ns ! i))) columns
       \<and> (\<exists>pad. cudaMemDataset s' = concat (map column columns) @ replicate pad 0)
       \<and> length (cudaMemDataset s')
           = sum_list (map (\<lambda>i. length (boundColumn dataSpans (ns ! i))) [0..<length ns])
       \<and> (\<forall>i < length ns.
            if fromDataset (ns ! i) then
              dataMapCPU s' i = Some (DataPtr (boundColumn dataSpans (ns ! i)),
                                      length (boundColumn dataSpans (ns ! i)))
              \<and> (if outputSize (ns ! i) = 1
                 then dataMapCUDA s' i = dataMapCPU s' i
                      \<and> (\<forall>idx n. CopyHostToDevice i idx n \<notin> set copies)
                 else dataMapCUDA s' i = Some (DevDataPtr (deviceOffset ns i), outputSize (ns ! i))
                      \<and> spanValues s' (DevDataPtr (deviceOffset ns i), outputSize (ns ! i))
                          = column i)
            else dataMapCUDA s' i = dataMapCUDA s i)"
proof -
  let ?n = "length (nodes s)"
  let ?col = "\<lambda>i. boundColumn dataSpans (nodes s ! i)"
  from sd obtain s1 totalSize s2 where
    b: "fold (bindNode dataSpans) [0..<?n] (s, 0) = (s1, totalSize)" and
    z: "sizeNodes outputSizeMap [0..<?n] s1 = Inr s2" and
    devs: "batchMode s2 = Cuda \<Longrightarrow>
       \<exists>s3. uploadNodes [0..<?n] 0 (s2\<lparr>cudaMemDataset := replicate totalSize 0\<rparr>)
               = Inr s3 \<and> s' = markGPUNodes s3"
    using setData_cases [OF sd] by blast
  note fb = fold_bindNode [of ?n s dataSpans 0, OF order_refl, unfolded b fst_conv]
  have s1: "batchMode s1 = batchMode s" "events s1 = events s" "length (nodes s1) = ?n"
    "dataMapCUDA s1 = dataMapCUDA s"
    using fb by simp_all
  have total: "totalSize = sum_list (map (\<lambda>j. length (?col j)) [0..<?n])"
    using fold_bindNode_total [of ?n s dataSpans 0] b by simp
  note sp = sizeNodes_preserves [OF z]
  have s2: "batchMode s2 = batchMode s1" "events s2 = events s1" "dataMapCPU s2 = dataMapCPU s1"
    "dataMapCUDA s2 = dataMapCUDA s1"
    using sp by simp_all
  have len2: "length (nodes s2) = ?n"
    using sp map_eq_length [of bindFields "nodes s2" "nodes s1"] s1(3) by simp
  let ?s2 = "s2\<lparr>cudaMemDataset := replicate totalSize 0\<rparr>"
  from devs s1 s2 dev obtain s3 where
    u: "uploadNodes [0..<?n] 0 ?s2 = Inr s3" and m: "s' = markGPUNodes s3"
    by auto
  have s3: "nodes s3 = nodes s2" "dataMapCPU s3 = dataMapCPU s2"
    "events s3 = events s2 @ uploadEvents (nodes s2) [0..<?n] 0"
    using uploadNodes_preserves [OF u] by simp_all
  have mf: "map fromDataset (nodes s') = map fromDataset (nodes s2)"
    and mo: "map outputSize (nodes s') = map outputSize (nodes s2)"
    and ma: "map argName (nodes s') = map argName (nodes s2)"
    unfolding m using s3(1) by (simp_all add: markGPUNodes_map)
  have len: "length ns = ?n"
    unfolding ns_def using map_eq_length [OF mf] len2 by simp
  have bf: "bindFields (nodes s2 ! j) = bindFields (bindInfo dataSpans (nodes s ! j))"
    if "j < ?n" for j
    using map_eq_nth [of bindFields "nodes s2" "nodes s1" j] sp fb that len2 by simp
  have fd: "fromDataset (ns ! j) = bound dataSpans (nodes s ! j)"
    and an: "argName (ns ! j) = argName (nodes s ! j)" if "j < ?n" for j
    using map_eq_nth [OF mf, of j] map_eq_nth [OF ma, of j] bf [OF that] that len
    by (simp_all add: ns_def bindFields_def bindInfo_def)
  have os: "outputSize (ns ! j) = outputSize (nodes s2 ! j)" if "j < ?n" for j
    using map_eq_nth [OF mo, of j] that len by (simp add: ns_def)
  have fd2: "fromDataset (nodes s2 ! j) = bound dataSpans (nodes s ! j)" if "j < ?n" for j
    using bf [OF that] by (simp add: bindFields_def bindInfo_def)
  have cp: "copied (ns ! j) = copied (nodes s2 ! j)" if "j < ?n" for j
    using fd [OF that] fd2 [OF that] os [OF that] by (simp add: copied_def)
  have bc: "boundColumn dataSpans (ns ! j) = ?col j" if "j < ?n" for j
    using an [OF that] by (simp add: boundColumn_def)
  have sz: "outputSizeMap j = Some (outputSize (nodes s2 ! j))" if "j < ?n" for j
    using sizeNodes_outputSize [OF z, of j] that s1(3) by simp
  have within: "outputSize (nodes s2 ! j) \<le> length (?col j)"
    if "j < ?n" "copied (nodes s2 ! j)" for j
  proof -
    have "case outputSizeMap j of None \<Rightarrow> True
          | Some n \<Rightarrow> bound dataSpans (nodes s ! j) \<longrightarrow>
              n = 1 \<or> n \<le> length (boundColumn dataSpans (nodes s ! j))"
      using fit that(1) by (simp add: spansFit_def)
    then show ?thesis
      using sz [OF that(1)] that(2) fd2 [OF that(1)] by (simp add: copied_def)
  qed
  have host: "dataMapCPU s2 j = Some (DataPtr (?col j), length (?col j))"
    if "j < ?n" "fromDataset (nodes s2 ! j)" for j
    using fb that fd2 [OF that(1)] s2(3)
    by (auto simp: bound_def boundColumn_def split: option.splits)
  have cols2: "columns = filter (\<lambda>i. copied (nodes s2 ! i)) [0..<?n]"
    unfolding columns_def using len cp by (auto simp: ns_def intro: filter_cong)
  have off: "deviceOffset ns j = deviceOffset (nodes s2) j" if "j \<le> ?n" for j
  proof -
    have f: "filter (\<lambda>i. copied (ns ! i)) [0..<j] = filter (\<lambda>i. copied (nodes s2 ! i)) [0..<j]"
      using that cp by (auto intro: filter_cong)
    have e: "map (\<lambda>i. outputSize (ns ! i)) (filter (\<lambda>i. copied (nodes s2 ! i)) [0..<j])
            = map (\<lambda>i. outputSize (nodes s2 ! i)) (filter (\<lambda>i. copied (nodes s2 ! i)) [0..<j])"
      by (rule map_cong [OF refl]) (use that os in auto)
    show ?thesis
      unfolding deviceOffset_def f e by (rule refl)
  qed
  have col_mem: "i < ?n" if "i \<in> set columns" for i
    using that len by (auto simp: columns_def ns_def)
  have copies: "copies = uploadEvents (nodes s2) [0..<?n] 0"
    by (simp add: copies_def m s3(3) s2(2) s1(2))
  have part1: "copies = map (\<lambda>i. CopyHostToDevice i (deviceOffset ns i) (outputSize (ns ! i))) columns"
    unfolding copies uploadEvents_upt cols2 [symmetric]
  proof (rule map_cong [OF refl])
    fix i assume "i \<in> set columns"
    then have "i < ?n" by (rule col_mem)
    then show "CopyHostToDevice i (deviceOffset (nodes s2) i) (outputSize (nodes s2 ! i))
                 = CopyHostToDevice i (deviceOffset ns i) (outputSize (ns ! i))"
      using os [of i] off [of i] by simp
  qed
  have seg: "column i = take (outputSize (nodes s2 ! i)) (?col i)" if "i < ?n" for i
    using os [OF that] bc [OF that] by (simp add: column_def ns_def)
  have seglen: "length (column i) = outputSize (nodes s2 ! i)" if "i \<in> set columns" for i
    using within [of i] col_mem [OF that] that seg [of i] by (simp add: cols2)
  let ?used = "sum_list (map (\<lambda>i. outputSize (nodes s2 ! i)) columns)"
  have room: "?used \<le> totalSize"
    unfolding total cols2 using within by (intro sum_list_filter_le) simp
  have "cudaMemDataset s3 =
           [] @ concat (map (\<lambda>i. take (outputSize (nodes ?s2 ! i)) (?col i))
                          (filter (\<lambda>i. copied (nodes ?s2 ! i)) [0..<?n]))
           @ replicate (totalSize - sum_list (map (\<lambda>i. outputSize (nodes ?s2 ! i))
                                        (filter (\<lambda>i. copied (nodes ?s2 ! i)) [0..<?n]))) 0"
  proof (rule uploadNodes_region [OF u])
    show "dataMapCPU ?s2 i = Some (DataPtr (?col i), length (?col i))"
      if "i \<in> set [0..<?n]" "fromDataset (nodes ?s2 ! i)" for i
      using host [of i] that by simp
    show "outputSize (nodes ?s2 ! i) \<le> length (?col i)"
      if "i \<in> set [0..<?n]" "copied (nodes ?s2 ! i)" for i
      using within [of i] that by simp
    show "sum_list (map (\<lambda>i. outputSize (nodes ?s2 ! i))
            (filter (\<lambda>i. copied (nodes ?s2 ! i)) [0..<?n])) \<le> totalSize"
      using room by (simp add: cols2)
  qed simp_all
  then have mem3: "cudaMemDataset s3 =
      concat (map (\<lambda>i. take (outputSize (nodes s2 ! i)) (?col i)) columns)
      @ replicate (totalSize - ?used) 0"
    by (simp add: cols2)
  have segs: "map (\<lambda>i. take (outputSize (nodes s2 ! i)) (?col i)) columns = map column columns"
    by (rule map_cong [OF refl]) (use col_mem seg in auto)
  have "cudaMemDataset s' = cudaMemDataset s3"
    by (simp add: m markGPUNodes_def)
  then have mem: "cudaMemDataset s' = concat (map column columns) @ replicate (totalSize - ?used) 0"
    unfolding mem3 segs .
  have part2: "\<exists>pad. cudaMemDataset s' = concat (map column columns) @ replicate pad 0"
    using mem by blast
  have "length (concat (map column columns)) = ?used"
    by (rule length_concat_segments) (rule seglen)
  then have "length (cudaMemDataset s') = totalSize"
    using mem room by simp
  moreover have "map (\<lambda>i. length (boundColumn dataSpans (ns ! i))) [0..<length ns]
                   = map (\<lambda>j. length (?col j)) [0..<?n]"
    unfolding len by (rule map_cong [OF refl]) (use bc in auto)
  ultimately have part3: "length (cudaMemDataset s')
           = sum_list (map (\<lambda>i. length (boundColumn dataSpans (ns ! i))) [0..<length ns])"
    unfolding total by (simp only:)
  have part4: "if fromDataset (ns ! i) then
              dataMapCPU s' i = Some (DataPtr (boundColumn dataSpans (ns ! i)),
                                      length (boundColumn dataSpans (ns ! i)))
              \<and> (if outputSize (ns ! i) = 1
                 then dataMapCUDA s' i = dataMapCPU s' i
                      \<and> (\<forall>idx n. CopyHostToDevice i idx n \<notin> set copies)
                 else dataMapCUDA s' i = Some (DevDataPtr (deviceOffset ns i), outputSize (ns ! i))
                      \<and> spanValues s' (DevDataPtr (deviceOffset ns i), outputSize (ns ! i))
                          = column i)
            else dataMapCUDA s' i = dataMapCUDA s i"
    if i: "i < length ns" for i
  proof -
    have i': "i < ?n" using i len by simp
    have mem_i: "i \<in> set [0..<?n]" using i' by simp
    show ?thesis
    proof (cases "fromDataset (ns ! i)")
      case False
      then have "\<not> fromDataset (nodes s2 ! i)" using fd [OF i'] fd2 [OF i'] by simp
      then have "dataMapCUDA s3 i = dataMapCUDA s2 i"
        using uploadNodes_dataMapCUDA [OF u, of i] by simp
      then show ?thesis using False s2(4) s1(4) by (simp add: m)
    next
      case True
      then have f2: "fromDataset (nodes s2 ! i)" using fd [OF i'] fd2 [OF i'] by simp
      have h: "dataMapCPU s' i = Some (DataPtr (boundColumn dataSpans (ns ! i)),
                                      length (boundColumn dataSpans (ns ! i)))"
        using host [OF i' f2] bc [OF i'] by (simp add: m s3(2))
      show ?thesis
      proof (cases "outputSize (ns ! i) = 1")
        case one: True
        then have o2: "outputSize (nodes s2 ! i) = 1" using os [OF i'] by simp
        have "dataMapCUDA s3 i = dataMapCPU s2 i"
          using uploadNodes_dataMapCUDA [OF u, of i] mem_i f2 o2 by simp
        moreover have "CopyHostToDevice i idx n \<notin> set copies" for idx n
          using uploadEvents_member [of "CopyHostToDevice i idx n" "nodes s2" "[0..<?n]" 0] o2
          unfolding copies by auto
        ultimately show ?thesis using True one h by (simp add: m s3(2))
      next
        case many: False
        then have o2: "outputSize (nodes s2 ! i) \<noteq> 1" using os [OF i'] by simp
        from uploadNodes_dataMapCUDA [OF u, of i] mem_i f2 o2 obtain k where
          k: "dataMapCUDA s3 i = Some (DevDataPtr k, outputSize (nodes s2 ! i))"
          "CopyHostToDevice i k (outputSize (nodes s2 ! i)) \<in> set copies"
          unfolding copies by auto
        have "k = deviceOffset ns i"
          using k(2) unfolding part1 by auto
        then have dm: "dataMapCUDA s' i = Some (DevDataPtr (deviceOffset ns i), outputSize (ns ! i))"
          using k(1) os [OF i'] by (simp add: m)
        have ci: "copied (nodes s2 ! i)" using f2 o2 by (simp add: copied_def)
        have split: "columns = filter (\<lambda>i. copied (nodes s2 ! i)) [0..<i]
                        @ i # filter (\<lambda>i. copied (nodes s2 ! i)) [Suc i..<?n]"
          unfolding cols2 using i' ci by (rule filter_upt_split)
        let ?xs = "filter (\<lambda>i. copied (nodes s2 ! i)) [0..<i]"
        have xs: "x \<in> set columns" if "x \<in> set ?xs" for x
          using that by (subst split) simp
        have icol: "i \<in> set columns" by (subst split) simp
        have offi: "deviceOffset ns i = sum_list (map (\<lambda>i. outputSize (nodes s2 ! i)) ?xs)"
          using off [of i] i' by (simp add: deviceOffset_def)
        have "take (outputSize (nodes s2 ! i))
                (drop (sum_list (map (\<lambda>i. outputSize (nodes s2 ! i)) ?xs))
                   (concat (map column (?xs @ i # filter (\<lambda>i. copied (nodes s2 ! i)) [Suc i..<?n]))
                    @ replicate (totalSize - ?used) 0))
              = column i"
          by (rule concat_segment) (use xs icol seglen in auto)
        then have "spanValues s' (DevDataPtr (deviceOffset ns i), outputSize (ns ! i)) = column i"
          using mem os [OF i'] offi split by (simp add: spanValues_def)
        then show ?thesis using True many h dm by simp
      qed
    qed
  qed
  show ?thesis using part1 part2 part3 part4 by blast
qed


lemma example_weighted_bound:
  "batchMode exampleDriverW = Cuda"
  "setData exampleSpansW exampleSizesW exampleDriverW = Inr exampleBoundW"
proof -
  show "batchMode exampleDriverW = Cuda" by code_simp
  have "case setData exampleSpansW exampleSizesW exampleDriverW of
          Inl e \<Rightarrow> False | Inr s' \<Rightarrow> True"
    by code_simp
  then show "setData exampleSpansW exampleSizesW exampleDriverW = Inr exampleBoundW"
    unfolding exampleBoundW_def by (rule Inr_projr)
qed

text \<open>
  In the example with more data the columns of \<open>x\<close> and \<open>y\<close> are copied to the offsets
  0 and 3 of the device array, which has seven elements; the value of \<open>g\<close> is not
  copied, the device data map points to the host span.
\<close>

theorem setData_device_region_witness:
  "batchMode exampleDriverW = Cuda
   \<and> setData exampleSpansW exampleSizesW exampleDriverW = Inr exampleBoundW
   \<and> spansFit exampleSpansW exampleSizesW (nodes exampleDriverW)
   \<and> drop (length (events exampleDriverW)) (events exampleBoundW)
       = [CopyHostToDevice 0 0 3, CopyHostToDevice 1 3 3]
   \<and> cudaMemDataset exampleBoundW = [1, 2, 3, 10, 20, 30, 0]
   \<and> length (cudaMemDataset exampleBoundW) = 7
   \<and> fromDataset (nodes exampleBoundW ! 1) \<and> outputSize (nodes exampleBoundW ! 1) = 3
   \<and> dataMapCUDA exampleBoundW 1 = Some (DevDataPtr 3, 3)
   \<and> spanValues exampleBoundW (DevDataPtr 3, 3) = [10, 20, 30]
   \<and> fromDataset (nodes exampleBoundW ! 2) \<and> outputSize (nodes exampleBoundW ! 2) = 1
   \<and> dataMapCPU exampleBoundW 2 = Some (DataPtr [7], 1)
   \<and> dataMapCUDA exampleBoundW 2 = dataMapCPU exampleBoundW 2"
proof -
  have fit: "spansFit exampleSpansW exampleSizesW (nodes exampleDriverW)"
    by code_simp
  note t = setData_device_region [OF example_weighted_bound fit]
  have n: "length (nodes exampleBoundW) = 6" by code_simp
  have cols: "filter (\<lambda>i. copied (nodes exampleBoundW ! i)) [0..<6] = [0, 1]"
    by code_simp
  have off: "deviceOffset (nodes exampleBoundW) 0 = 0" "deviceOffset (nodes exampleBoundW) 1 = 3"
    by code_simp+
  have f: "fromDataset (nodes exampleBoundW ! 1)" "outputSize (nodes exampleBoundW ! 1) = 3"
    "fromDataset (nodes exampleBoundW ! 2)" "outputSize (nodes exampleBoundW ! 2) = 1"
    "outputSize (nodes exampleBoundW ! 0) = 3"
    by code_simp+
  have c: "boundColumn exampleSpansW (nodes exampleBoundW ! 0) = [1, 2, 3]"
    "boundColumn exampleSpansW (nodes exampleBoundW ! 1) = [10, 20, 30]"
    "boundColumn exampleSpansW (nodes exampleBoundW ! 2) = [7]"
    by code_simp+
  have total: "sum_list (map (\<lambda>i. length (boundColumn exampleSpansW (nodes exampleBoundW ! i))) [0..<6])
                 = 7"
    by code_simp
  have ev: "drop (length (events exampleDriverW)) (events exampleBoundW)
       = [CopyHostToDevice 0 0 3, CopyHostToDevice 1 3 3]"
    using t off f by (simp add: n cols)
  have len: "length (cudaMemDataset exampleBoundW) = 7"
    using t by (simp add: n total)
  obtain pad where "cudaMemDataset exampleBoundW = [1, 2, 3, 10, 20, 30] @ replicate pad 0"
    using t f c by (auto simp: n cols)
  then have mem: "cudaMemDataset exampleBoundW = [1, 2, 3, 10, 20, 30, 0]"
    using len by (cases pad) auto
  have one: "1 < length (nodes exampleBoundW)" and two: "2 < length (nodes exampleBoundW)"
    by (simp_all add: n)
  from t have each: "\<forall>i < length (nodes exampleBoundW).
            if fromDataset (nodes exampleBoundW ! i) then
              dataMapCPU exampleBoundW i
                = Some (DataPtr (boundColumn exampleSpansW (nodes exampleBoundW ! i)),
                        length (boundColumn exampleSpansW (nodes exampleBoundW ! i)))
              \<and> (if outputSize (nodes exampleBoundW ! i) = 1
                 then dataMapCUDA exampleBoundW i = dataMapCPU exampleBoundW i
                      \<and> (\<forall>idx n. CopyHostToDevice i idx n
                            \<notin> set (drop (length (events exampleDriverW)) (events exampleBoundW)))
                 else dataMapCUDA exampleBoundW i
                        = Some (DevDataPtr (deviceOffset (nodes exampleBoundW) i),
                                outputSize (nodes exampleBoundW ! i))
                      \<and> spanValues exampleBoundW
                          (DevDataPtr (deviceOffset (nodes exampleBoundW) i),
                           outputSize (nodes exampleBoundW ! i))
                          = take (outputSize (nodes exampleBoundW ! i))
                              (boundColumn exampleSpansW (nodes exampleBoundW ! i)))
            else dataMapCUDA exampleBoundW i = dataMapCUDA exampleDriverW i"
    by blast
  have y: "dataMapCUDA exampleBoundW 1 = Some (DevDataPtr 3, 3)"
    "spanValues exampleBoundW (DevDataPtr 3, 3) = [10, 20, 30]"
    using each [rule_format, OF one] f off c by simp_all
  have g: "dataMapCPU exampleBoundW 2 = Some (DataPtr [7], 1)"
    "dataMapCUDA exampleBoundW 2 = dataMapCPU exampleBoundW 2"
    using each [rule_format, OF two] f c by simp_all
  show ?thesis
    using example_weighted_bound fit ev mem len f(1-4) y g by simp
qed

subsection \<open>What \<^verbatim>\<open>setData\<close> leaves alone\<close>

lemma bindNode_map:
  assumes "\<And>info x. f (info\<lparr>buffer := x\<rparr>) = f info"
    and "\<And>info x. f (info\<lparr>fromDataset := x\<rparr>) = f info"
    and "\<And>info x. f (info\<lparr>isDirty := x\<rparr>) = f info"
  shows "map f (nodes (fst (bindNode dataSpans i st))) = map f (nodes (fst st))"
  by (cases "i < length (nodes (fst st))")
     (simp_all add: bindNode_def Let_def map_list_update_same list_update_beyond assms
        split: option.splits)

lemma sizeNodes_map:
  assumes "\<And>info x. f (info\<lparr>outputSize := x\<rparr>) = f info"
    and "\<And>info x. f (info\<lparr>operMode := x\<rparr>) = f info"
  shows "sizeNodes outputSizeMap is s = Inr s' \<Longrightarrow> map f (nodes s') = map f (nodes s)"
proof (induction "is" arbitrary: s)
  case Nil
  then show ?case by simp
next
  case (Cons i "is")
  from Cons.prems obtain n where n: "outputSizeMap i = Some n"
    by (auto split: option.splits)
  let ?s1 = "updNode i (\<lambda>info. info\<lparr>outputSize := n\<rparr>) s"
  let ?s2 = "if \<not> isScalar (nodes ?s1 ! i) then setOperMode i ADirty ?s1 else ?s1"
  have rec: "sizeNodes outputSizeMap is ?s2 = Inr s'"
    using Cons.prems n by (simp add: Let_def)
  have "map f (nodes ?s2) = map f (nodes s)"
    by (cases "i < length (nodes s)")
       (simp_all add: setOperMode_def map_list_update_same list_update_beyond assms)
  then show ?case
    using Cons.IH [OF rec] by simp
qed

lemma setData_map:
  assumes "\<And>info x. f (info\<lparr>buffer := x\<rparr>) = f info"
    and "\<And>info x. f (info\<lparr>fromDataset := x\<rparr>) = f info"
    and "\<And>info x. f (info\<lparr>isDirty := x\<rparr>) = f info"
    and "\<And>info x. f (info\<lparr>outputSize := x\<rparr>) = f info"
    and "\<And>info x. f (info\<lparr>operMode := x\<rparr>) = f info"
    and "\<And>info x. f (info\<lparr>copyAfterEvaluation := x\<rparr>) = f info"
    and "setData dataSpans outputSizeMap s = Inr s'"
  shows "map f (nodes s') = map f (nodes s)"
proof -
  from assms(7) obtain s1 totalSize s2 where
    b: "fold (bindNode dataSpans) [0..<length (nodes s)] (s, 0) = (s1, totalSize)" and
    z: "sizeNodes outputSizeMap [0..<length (nodes s)] s1 = Inr s2" and
    host: "batchMode s2 \<noteq> Cuda \<Longrightarrow> s' = s2" and
    dev: "batchMode s2 = Cuda \<Longrightarrow>
       \<exists>s3. uploadNodes [0..<length (nodes s)] 0 (s2\<lparr>cudaMemDataset := replicate totalSize 0\<rparr>)
               = Inr s3 \<and> s' = markGPUNodes s3"
    using setData_cases [OF assms(7)] by blast
  have "map f (nodes (fst (fold (bindNode dataSpans) [0..<length (nodes s)] (s, 0))))
          = map f (nodes (fst (s, 0 :: nat)))"
    by (rule fold_preserves) (rule bindNode_map [OF assms(1-3)])
  then have s1: "map f (nodes s1) = map f (nodes s)"
    by (simp add: b)
  have s2: "map f (nodes s2) = map f (nodes s1)"
    using z by (rule sizeNodes_map [OF assms(4,5)])
  have "map f (nodes s') = map f (nodes s2)"
  proof (cases "batchMode s2 = Cuda")
    case False
    then show ?thesis using host by simp
  next
    case True
    then obtain s3 where
      u: "uploadNodes [0..<length (nodes s)] 0 (s2\<lparr>cudaMemDataset := replicate totalSize 0\<rparr>)
            = Inr s3" and m: "s' = markGPUNodes s3"
      using dev by blast
    show ?thesis
      using uploadNodes_preserves [OF u] by (simp add: m markGPUNodes_map assms(6))
  qed
  then show ?thesis using s1 s2 by simp
qed


section \<open>Construction\<close>

lemma map_snd_enumerate': "map (\<lambda>p. h (snd p)) (enumerate n xs) = map h xs"
  by (induction xs arbitrary: n) simp_all

lemma linkServers_map:
  assumes "\<And>info x. f (info\<lparr>serverInfos := x\<rparr>) = f info"
    and "\<And>info x. f (info\<lparr>clientInfos := x\<rparr>) = f info"
  shows "linkServers i svs ns = Inr ns' \<Longrightarrow> map f ns' = map f ns"
proof (induction svs arbitrary: ns)
  case Nil
  then show ?case by simp
next
  case (Cons sv svs)
  from Cons.prems have sv: "sv < length ns" by (simp split: if_splits)
  let ?ns1 = "ns[i := (ns ! i)\<lparr>serverInfos := serverInfos (ns ! i) @ [sv]\<rparr>]"
  let ?ns2 = "?ns1[sv := (?ns1 ! sv)\<lparr>clientInfos := clientInfos (?ns1 ! sv) @ [i]\<rparr>]"
  have rec: "linkServers i svs ?ns2 = Inr ns'"
    using Cons.prems sv by (simp add: Let_def)
  have "map f ?ns2 = map f ns"
    by (cases "i < length ns"; cases "i = sv")
       (simp_all add: map_list_update_same list_update_beyond assms)
  then show ?case using Cons.IH [OF rec] by simp
qed

lemma linkNodes_map:
  assumes "\<And>info x. f (info\<lparr>serverInfos := x\<rparr>) = f info"
    and "\<And>info x. f (info\<lparr>clientInfos := x\<rparr>) = f info"
  shows "linkNodes args i ns = Inr ns' \<Longrightarrow> map f ns' = map f ns"
proof (induction args arbitrary: i ns)
  case Nil
  then show ?case by simp
next
  case (Cons arg args)
  from Cons.prems obtain ns1 where
    l: "linkServers i (aValueServers arg) ns = Inr ns1" and rec: "linkNodes args (Suc i) ns1 = Inr ns'"
    by (auto split: sum.splits)
  show ?case
    using Cons.IH [OF rec] linkServers_map [OF assms l] by simp
qed

lemma construct_nodes:
  assumes "construct env lastBatchMode serverSet bm = (lastBatchMode', Inr s)"
    and "\<And>info x. f (info\<lparr>serverInfos := x\<rparr>) = f info"
    and "\<And>info x. f (info\<lparr>clientInfos := x\<rparr>) = f info"
  shows "map f (nodes s) = map (\<lambda>(i, arg). f (newNodeInfo i arg)) (enumerate 0 serverSet)"
proof -
  from assms(1) obtain ns where
    l: "linkNodes serverSet 0 (map (\<lambda>(i, arg). newNodeInfo i arg) (enumerate 0 serverSet)) = Inr ns"
    and s: "nodes s = ns"
    by (auto simp: construct_def split: if_splits prod.splits sum.splits)
  show ?thesis
    using linkNodes_map [OF assms(2,3) l] by (simp add: s case_prod_unfold comp_def)
qed

subsection \<open>The graph the constructor builds\<close>

lemma count_list_replicate_eq:
  "count_list (replicate n x) y = (if x = y then n else 0)"
  by (induction n) auto

lemma linkServers_edges:
  fixes ns ns' :: "'v NodeInfo list"
  assumes "linkServers i svs ns = Inr ns'" and "i < length ns"
  shows "length ns' = length ns
       \<and> (\<forall>a < length ns. serverInfos (ns' ! a) = serverInfos (ns ! a) @ (if a = i then svs else []))
       \<and> (\<forall>b < length ns. clientInfos (ns' ! b)
                              = clientInfos (ns ! b) @ replicate (count_list svs b) i)
       \<and> (\<forall>sv \<in> set svs. sv < length ns)"
  using assms
proof (induction svs arbitrary: ns)
  case Nil
  then show ?case by simp
next
  case (Cons sv svs)
  let ?ns1 = "ns[i := (ns ! i)\<lparr>serverInfos := serverInfos (ns ! i) @ [sv]\<rparr>]"
  let ?ns2 = "?ns1[sv := (?ns1 ! sv)\<lparr>clientInfos := clientInfos (?ns1 ! sv) @ [i]\<rparr>]"
  have sv: "sv < length ns"
    using Cons.prems(1) by (auto split: if_splits)
  then have link: "linkServers i svs ?ns2 = Inr ns'"
    using Cons.prems(1) by (simp add: Let_def)
  have len2: "length ?ns2 = length ns" by simp
  have s2: "serverInfos (?ns2 ! a) = serverInfos (ns ! a) @ (if a = i then [sv] else [])"
    if "a < length ns" for a
    using that Cons.prems(2) sv by (cases "a = sv"; cases "a = i") simp_all
  have c2: "clientInfos (?ns2 ! b) = clientInfos (ns ! b) @ (if b = sv then [i] else [])"
    if "b < length ns" for b
    using that Cons.prems(2) sv by (cases "b = sv"; cases "b = i") simp_all
  have ih: "length ns' = length ?ns2
       \<and> (\<forall>a < length ?ns2. serverInfos (ns' ! a) = serverInfos (?ns2 ! a) @ (if a = i then svs else []))
       \<and> (\<forall>b < length ?ns2. clientInfos (ns' ! b)
                              = clientInfos (?ns2 ! b) @ replicate (count_list svs b) i)
       \<and> (\<forall>sv \<in> set svs. sv < length ?ns2)"
    using link Cons.prems(2) by (intro Cons.IH) simp_all
  show ?case
    using ih sv unfolding len2 by (auto simp: s2 c2)
qed

lemma linkNodes_edges:
  fixes ns ns' :: "'v NodeInfo list"
  assumes "linkNodes args i ns = Inr ns'" and "i + length args \<le> length ns"
  shows "length ns' = length ns
       \<and> (\<forall>a < length ns. serverInfos (ns' ! a)
            = serverInfos (ns ! a)
              @ (if i \<le> a \<and> a < i + length args then aValueServers (args ! (a - i)) else []))
       \<and> (\<forall>b < length ns. \<forall>a. count_list (clientInfos (ns' ! b)) a
            = count_list (clientInfos (ns ! b)) a
              + (if i \<le> a \<and> a < i + length args
                 then count_list (aValueServers (args ! (a - i))) b else 0))
       \<and> (\<forall>arg \<in> set args. \<forall>sv \<in> set (aValueServers arg). sv < length ns)"
  using assms
proof (induction args arbitrary: i ns)
  case Nil
  then show ?case by auto
next
  case (Cons arg args)
  from Cons.prems(1) obtain ns1 where
    l1: "linkServers i (aValueServers arg) ns = Inr ns1" and l2: "linkNodes args (Suc i) ns1 = Inr ns'"
    by (auto split: sum.splits)
  have i: "i < length ns" using Cons.prems(2) by simp
  note e1 = linkServers_edges [OF l1 i]
  have len1: "length ns1 = length ns" using e1 by simp
  have ih: "length ns' = length ns1
       \<and> (\<forall>a < length ns1. serverInfos (ns' ! a)
            = serverInfos (ns1 ! a)
              @ (if Suc i \<le> a \<and> a < Suc i + length args then aValueServers (args ! (a - Suc i)) else []))
       \<and> (\<forall>b < length ns1. \<forall>a. count_list (clientInfos (ns' ! b)) a
            = count_list (clientInfos (ns1 ! b)) a
              + (if Suc i \<le> a \<and> a < Suc i + length args
                 then count_list (aValueServers (args ! (a - Suc i))) b else 0))
       \<and> (\<forall>arg \<in> set args. \<forall>sv \<in> set (aValueServers arg). sv < length ns1)"
    using l2 Cons.prems(2) by (intro Cons.IH) (simp_all add: len1)
  have sv: "serverInfos (ns' ! a)
            = serverInfos (ns ! a)
              @ (if i \<le> a \<and> a < i + length (arg # args)
                 then aValueServers ((arg # args) ! (a - i)) else [])"
    if a: "a < length ns" for a
  proof (cases "a = i")
    case True
    then show ?thesis using ih e1 a len1 by simp
  next
    case False
    then have "(arg # args) ! (a - i) = args ! (a - Suc i)" if "i \<le> a"
    proof -
      have "a - i = Suc (a - Suc i)" using that False by arith
      then show ?thesis by simp
    qed
    then show ?thesis using ih e1 a len1 False by auto
  qed
  have cl: "count_list (clientInfos (ns' ! b)) a
            = count_list (clientInfos (ns ! b)) a
              + (if i \<le> a \<and> a < i + length (arg # args)
                 then count_list (aValueServers ((arg # args) ! (a - i))) b else 0)"
    if b: "b < length ns" for a b
  proof (cases "a = i")
    case True
    then show ?thesis using ih e1 b len1 by (simp add: count_list_replicate_eq)
  next
    case False
    then have "(arg # args) ! (a - i) = args ! (a - Suc i)" if "i \<le> a"
    proof -
      have "a - i = Suc (a - Suc i)" using that False by arith
      then show ?thesis by simp
    qed
    then show ?thesis using ih e1 b len1 False by (auto simp: count_list_replicate_eq)
  qed
  show ?case
    using ih e1 sv cl len1 by auto
qed


text \<open>
  The constructor lists a server under a client as often as it lists the client under the
  server, and lets every edge point into the node vector: the graph it builds has valid
  and mutual edges. Its servers are the value servers of the arguments.
\<close>

text \<open>
  The constructor lists a server under a client as often as it lists the client under the
  server, and lets every edge point into the node vector: the graph it builds has valid
  and mutual edges. Its servers are the value servers of the arguments.
\<close>

lemma construct_edges:
  fixes s :: "('v::zero) RooFitDriver"
  assumes c: "construct env lastBatchMode serverSet bm = (lastBatchMode', Inr s)"
  shows "length (nodes s) = length serverSet"
    and "validEdges (nodes s)" and "mutualEdges (nodes s)"
    and "\<And>a. a < length serverSet \<Longrightarrow> serverInfos (nodes s ! a) = aValueServers (serverSet ! a)"
proof -
  let ?n = "length serverSet"
  define ns0 :: "'v NodeInfo list"
    where "ns0 = map (\<lambda>(i, arg). newNodeInfo i arg) (enumerate 0 serverSet)"
  from c obtain ns where
    l: "linkNodes serverSet 0 ns0 = Inr ns" and s: "nodes s = ns"
    unfolding ns0_def
    by (auto simp: construct_def split: if_splits prod.splits sum.splits)
  have len0: "length ns0 = ?n" by (simp add: ns0_def)
  have empty: "serverInfos (ns0 ! a) = []" "clientInfos (ns0 ! a) = []" if "a < ?n" for a
    using that by (simp_all add: ns0_def nth_enumerate_eq newNodeInfo_def)
  have le: "0 + length serverSet \<le> length ns0" using len0 by simp
  note e = linkNodes_edges [OF l le]
  note L = e [THEN conjunct1]
  note S = e [THEN conjunct2, THEN conjunct1, rule_format]
  note C = e [THEN conjunct2, THEN conjunct2, THEN conjunct1, rule_format]
  note V = e [THEN conjunct2, THEN conjunct2, THEN conjunct2, rule_format]
  have len: "length ns = ?n" using L len0 by simp
  have sv: "serverInfos (ns ! a) = aValueServers (serverSet ! a)" if "a < ?n" for a
    using S [of a] that len0 empty(1) [OF that] by simp
  have cl: "count_list (clientInfos (ns ! b)) a =
              (if a < ?n then count_list (aValueServers (serverSet ! a)) b else 0)"
    if "b < ?n" for a b
    using C [of b a] that len0 empty(2) [OF that] by simp
  have svb: "x < ?n" if "a < ?n" "x \<in> set (serverInfos (ns ! a))" for a x
  proof -
    have "serverSet ! a \<in> set serverSet" using that(1) by simp
    moreover have "x \<in> set (aValueServers (serverSet ! a))" using that sv by simp
    ultimately have "x < length ns0" by (rule V)
    then show ?thesis using len0 by simp
  qed
  have clb: "x < ?n" if "b < ?n" "x \<in> set (clientInfos (ns ! b))" for b x
  proof (rule ccontr)
    assume "\<not> x < ?n"
    then have "count_list (clientInfos (ns ! b)) x = 0" using cl [OF that(1)] by simp
    then show False using that(2) by (simp add: count_list_0_iff)
  qed
  show "length (nodes s) = ?n" using len s by simp
  show "validEdges (nodes s)"
    unfolding validEdges_def s
  proof (intro ballI conjI)
    fix info x assume "info \<in> set ns"
    then obtain i where i: "i < ?n" and info: "info = ns ! i"
      using len by (auto simp: in_set_conv_nth)
    show "x < length ns" if "x \<in> set (clientInfos info)"
      using clb [OF i] that len by (simp add: info)
    show "x < length ns" if "x \<in> set (serverInfos info)"
      using svb [OF i] that len by (simp add: info)
  qed
  show "mutualEdges (nodes s)"
    unfolding mutualEdges_def s len
  proof (intro ballI)
    fix i j assume "i \<in> set [0..<?n]" "j \<in> set [0..<?n]"
    then have i: "i < ?n" and j: "j < ?n" by simp_all
    show "count_list (serverInfos (ns ! i)) j = count_list (clientInfos (ns ! j)) i"
      unfolding sv [OF i] cl [OF j] using i by simp
  qed
  show "serverInfos (nodes s ! a) = aValueServers (serverSet ! a)" if "a < ?n" for a
    using sv [OF that] s by simp
qed

text \<open>
  Claim C3 at three inputs, all in a build with CUDA whose computing library is not
  loaded. With the INFO stream switched off the constructor returns a driver in CUDA
  mode. With the stream on, the first construction throws, having recorded the mode in
  \<^verbatim>\<open>lastBatchMode\<close>; the next construction in the same mode returns a driver.
\<close>

theorem construct_cuda_without_backend:
  "(case snd (construct
        \<lparr>builtWithCuda = True, hasCuda = False, infoStreamActive = False,
         cpuArchitectureGeneric = False\<rparr>
        (Off, False) exampleGraph Cuda :: _ \<times> (Error + int RooFitDriver)) of
      Inl e \<Rightarrow> False
    | Inr d \<Rightarrow> batchMode d = Cuda)
   \<and> fst (construct
        \<lparr>builtWithCuda = True, hasCuda = False, infoStreamActive = True,
         cpuArchitectureGeneric = False\<rparr>
        (Off, False) exampleGraph Cuda :: _ \<times> (Error + int RooFitDriver))
       = (Cuda, True)
   \<and> (case snd (construct
        \<lparr>builtWithCuda = True, hasCuda = False, infoStreamActive = True,
         cpuArchitectureGeneric = False\<rparr>
        (Off, False) exampleGraph Cuda :: _ \<times> (Error + int RooFitDriver)) of
      Inl e \<Rightarrow> e = RuntimeError
    | Inr d \<Rightarrow> False)
   \<and> (case snd (construct
        \<lparr>builtWithCuda = True, hasCuda = False, infoStreamActive = True,
         cpuArchitectureGeneric = False\<rparr>
        (Cuda, True) exampleGraph Cuda :: _ \<times> (Error + int RooFitDriver)) of
      Inl e \<Rightarrow> False
    | Inr d \<Rightarrow> batchMode d = Cuda)"
  by code_simp


section \<open>Parameters (\<^verbatim>\<open>getParameters\<close>)\<close>

lemma fold_addArg:
  assumes "distinct (map argName ns)" and "k \<le> length ns"
  shows "fold (\<lambda>i parameters. if P i then addArg ns i parameters else parameters) [0..<k] []
           = filter P [0..<k]"
  using assms(2)
proof (induction k)
  case 0
  then show ?case by simp
next
  case (Suc k)
  have "argName (ns ! k) \<notin> (\<lambda>j. argName (ns ! j)) ` set (filter P [0..<k])"
  proof
    assume "argName (ns ! k) \<in> (\<lambda>j. argName (ns ! j)) ` set (filter P [0..<k])"
    then obtain j where j: "j < k" "argName (ns ! j) = argName (ns ! k)" by auto
    have jk: "j < length (map argName ns)" "k < length (map argName ns)" "j \<noteq> k"
      using j(1) Suc.prems by simp_all
    have "map argName ns ! j \<noteq> map argName ns ! k"
      using assms(1) jk by (simp only: distinct_conv_nth) blast
    then show False using j(2) jk by simp
  qed
  then show ?case using Suc by (simp add: addArg_def)
qed

lemma insort_key_cong':
  "(\<And>x. x \<in> set (a # ys) \<Longrightarrow> f x = g x) \<Longrightarrow> insort_key f a ys = insort_key g a ys"
  by (induction ys) auto

lemma sort_key_cong':
  "(\<And>x. x \<in> set xs \<Longrightarrow> f x = g x) \<Longrightarrow> sort_key f xs = sort_key g xs"
proof (induction xs)
  case Nil
  then show ?case by simp
next
  case (Cons a xs)
  have "sort_key f xs = sort_key g xs" using Cons by simp
  moreover have "insort_key f a (sort_key g xs) = insort_key g a (sort_key g xs)"
    by (rule insort_key_cong') (use Cons.prems in auto)
  ultimately show ?case by simp
qed

lemma getParameters_eq:
  assumes "distinct (map argName (nodes s))"
  shows "getParameters s =
           sort_key (\<lambda>i. argName (nodes s ! i))
             (filter (\<lambda>i. \<not> fromDataset (nodes s ! i) \<and> isVariable (nodes s ! i))
                [0..<length (nodes s)])"
  unfolding getParameters_def using fold_addArg [OF assms order_refl] by simp

text \<open>
  Claim C8. After construction from a graph with distinct names and \<^verbatim>\<open>setData\<close>,
  \<^verbatim>\<open>getParameters\<close> returns exactly the nodes that are variables and not bound to the
  dataset, in the order of their names, and that is the provider's enumeration.
\<close>

theorem getParameters_sorted_parameters:
  assumes "construct env lastBatchMode serverSet bm = (lastBatchMode', Inr s0)"
    and "setData dataSpans outputSizeMap s0 = Inr s"
    and "distinct (map aName serverSet)"
  shows "set (getParameters s) =
           {i. i < length (nodes s) \<and> isVariable (nodes s ! i) \<and> \<not> fromDataset (nodes s ! i)}
       \<and> sorted (map (\<lambda>i. argName (nodes s ! i)) (getParameters s))
       \<and> distinct (getParameters s)
       \<and> getParameters s = providerParameters serverSet dataSpans"
proof -
  have n0: "map argName (nodes s0) = map aName serverSet"
    using construct_nodes [OF assms(1), of argName]
    by (simp add: newNodeInfo_def case_prod_unfold map_snd_enumerate')
  have v0: "map isVariable (nodes s0) = map aIsRealVar serverSet"
    using construct_nodes [OF assms(1), of isVariable]
    by (simp add: newNodeInfo_def case_prod_unfold map_snd_enumerate')
  have n: "map argName (nodes s) = map aName serverSet"
    using setData_map [OF _ _ _ _ _ _ assms(2), of argName] n0 by simp
  have v: "map isVariable (nodes s) = map aIsRealVar serverSet"
    using setData_map [OF _ _ _ _ _ _ assms(2), of isVariable] v0 by simp
  have len: "length (nodes s) = length serverSet" "length (nodes s0) = length serverSet"
    using n n0 by (metis length_map)+
  have name: "argName (nodes s ! i) = aName (serverSet ! i)"
    and var: "isVariable (nodes s ! i) = aIsRealVar (serverSet ! i)"
    and fd: "fromDataset (nodes s ! i) = (dataSpans (aName (serverSet ! i)) \<noteq> None)"
    if "i < length serverSet" for i
  proof -
    show "argName (nodes s ! i) = aName (serverSet ! i)"
      using n that len by (metis nth_map)
    show "isVariable (nodes s ! i) = aIsRealVar (serverSet ! i)"
      using v that len by (metis nth_map)
    have "argName (nodes s0 ! i) = aName (serverSet ! i)"
      using n0 that len by (metis nth_map)
    then show "fromDataset (nodes s ! i) = (dataSpans (aName (serverSet ! i)) \<noteq> None)"
      using setData_bindFields(1) [OF assms(2), of i] that len
      by (simp add: bindFields_def bindInfo_def bound_def)
  qed
  have dist: "distinct (map argName (nodes s))"
    using n assms(3) by simp
  note eq = getParameters_eq [OF dist]
  have keys: "map (\<lambda>i. argName (nodes s ! i)) xs = map (\<lambda>i. aName (serverSet ! i)) xs"
    if "set xs \<subseteq> {0..<length serverSet}" for xs
    using that name by (induction xs) auto
  have flt: "filter (\<lambda>i. \<not> fromDataset (nodes s ! i) \<and> isVariable (nodes s ! i))
                [0..<length serverSet]
           = filter (\<lambda>i. aIsRealVar (serverSet ! i) \<and> dataSpans (aName (serverSet ! i)) = None)
                [0..<length serverSet]"
    by (rule filter_cong) (auto simp: var fd)
  have srt: "sort_key (\<lambda>i. argName (nodes s ! i)) xs = sort_key (\<lambda>i. aName (serverSet ! i)) xs"
    if "set xs \<subseteq> {0..<length serverSet}" for xs
    by (rule sort_key_cong') (use that name in auto)
  have "getParameters s = providerParameters serverSet dataSpans"
    unfolding eq providerParameters_def len flt by (rule srt) auto
  moreover have "set (getParameters s) =
           {i. i < length (nodes s) \<and> isVariable (nodes s ! i) \<and> \<not> fromDataset (nodes s ! i)}"
    unfolding eq by auto
  moreover have "sorted (map (\<lambda>i. argName (nodes s ! i)) (getParameters s))"
    unfolding eq by simp
  moreover have "distinct (getParameters s)"
    unfolding eq by simp
  ultimately show ?thesis by simp
qed

text \<open>In the example \<open>p\<close> is the only parameter: \<open>x\<close> is bound to the dataset.\<close>

theorem getParameters_sorted_parameters_witness:
  "construct exampleEnv (Off, False) exampleGraph Cpu = ((Cpu, True), Inr (exampleDriver Cpu))
   \<and> setData exampleSpans exampleSizes (exampleDriver Cpu) = Inr (exampleBound Cpu)
   \<and> distinct (map aName exampleGraph)
   \<and> set (getParameters (exampleBound Cpu)) = {1}
   \<and> providerParameters exampleGraph exampleSpans = [1]"
proof -
  have "case snd (construct exampleEnv (Off, False) exampleGraph Cpu
                    :: _ \<times> (Error + int RooFitDriver)) of
          Inl e \<Rightarrow> False | Inr s' \<Rightarrow> True"
    by code_simp
  then have "snd (construct exampleEnv (Off, False) exampleGraph Cpu) = Inr (exampleDriver Cpu)"
    unfolding exampleDriver_def by (rule Inr_projr)
  moreover have "fst (construct exampleEnv (Off, False) exampleGraph Cpu
                        :: _ \<times> (Error + int RooFitDriver)) = (Cpu, True)"
    by code_simp
  ultimately have h1: "construct exampleEnv (Off, False) exampleGraph Cpu
                         = ((Cpu, True), Inr (exampleDriver Cpu))"
    by (simp add: prod_eq_iff)
  have "case setData exampleSpans exampleSizes (exampleDriver Cpu) of
          Inl e \<Rightarrow> False | Inr s' \<Rightarrow> True"
    by code_simp
  then have h2: "setData exampleSpans exampleSizes (exampleDriver Cpu) = Inr (exampleBound Cpu)"
    unfolding exampleBound_def by (rule Inr_projr)
  have h3: "distinct (map aName exampleGraph)"
    by code_simp
  have h4: "providerParameters exampleGraph exampleSpans = [1]"
    by code_simp
  show ?thesis
    using getParameters_sorted_parameters [OF h1 h2 h3] h1 h2 h3 h4 by simp
qed

section \<open>Evaluation on the host (\<^verbatim>\<open>getVal\<close>)\<close>

subsection \<open>One node of the host pass\<close>

lemma fold_updNode_other [simp]:
  "events (fold (\<lambda>c. updNode c g) cs s) = events s"
  "batchMode (fold (\<lambda>c. updNode c g) cs s) = batchMode s"
  "dataMapCPU (fold (\<lambda>c. updNode c g) cs s) = dataMapCPU s"
  "dataMapCUDA (fold (\<lambda>c. updNode c g) cs s) = dataMapCUDA s"
  "streamQueries (fold (\<lambda>c. updNode c g) cs s) = streamQueries s"
  by (induction cs arbitrary: s) simp_all

lemma fold_updNode_map:
  assumes "\<And>info. f (g info) = f info"
  shows "map f (nodes (fold (\<lambda>c. updNode c g) cs s)) = map f (nodes s)"
  by (induction cs arbitrary: s) (simp_all add: map_list_update_same assms)

lemma fold_updNode_length [simp]:
  "length (nodes (fold (\<lambda>c. updNode c g) cs s)) = length (nodes s)"
  by (induction cs arbitrary: s) simp_all

lemma fold_setDirty_nth:
  "j < length (nodes s) \<Longrightarrow>
   isDirty (nodes (fold (\<lambda>c. updNode c (\<lambda>info. info\<lparr>isDirty := True\<rparr>)) cs s) ! j)
     = (isDirty (nodes s ! j) \<or> j \<in> set cs)"
proof (induction cs arbitrary: s)
  case Nil
  then show ?case by simp
next
  case (Cons c cs)
  let ?s1 = "updNode c (\<lambda>info. info\<lparr>isDirty := True\<rparr>) s"
  have "isDirty (nodes ?s1 ! j) = (isDirty (nodes s ! j) \<or> j = c)"
    using Cons.prems by (cases "j = c") simp_all
  then show ?case
    using Cons.IH [of ?s1] Cons.prems by auto
qed

lemma writeOutput_map:
  assumes "\<And>info x. f (info\<lparr>buffer := x\<rparr>) = f info"
    and "\<And>info x. f (info\<lparr>scalarBuffer := x\<rparr>) = f info"
  shows "map f (nodes (writeOutput p nOut out s)) = map f (nodes s)"
  by (cases p) (simp_all add: writeOutput_def map_list_update_same assms)

lemma writeOutput_other [simp]:
  "events (writeOutput p nOut out s) = events s"
  "batchMode (writeOutput p nOut out s) = batchMode s"
  "dataMapCPU (writeOutput p nOut out s) = dataMapCPU s"
  "dataMapCUDA (writeOutput p nOut out s) = dataMapCUDA s"
  "streamQueries (writeOutput p nOut out s) = streamQueries s"
  "length (nodes (writeOutput p nOut out s)) = length (nodes s)"
  by (cases p; simp add: writeOutput_def)+

lemma computeBatch_map:
  assumes "\<And>info x. f (info\<lparr>buffer := x\<rparr>) = f info"
    and "\<And>info x. f (info\<lparr>scalarBuffer := x\<rparr>) = f info"
  shows "map f (nodes (computeBatch K i side p nOut s)) = map f (nodes s)"
  by (simp add: computeBatch_def Let_def writeOutput_map assms)

lemma computeBatch_other [simp]:
  "events (computeBatch K i side p nOut s)
     = events s @ [case side of Host \<Rightarrow> ComputeCPU i | Device \<Rightarrow> ComputeCUDA i]"
  "batchMode (computeBatch K i side p nOut s) = batchMode s"
  "dataMapCPU (computeBatch K i side p nOut s) = dataMapCPU s"
  "dataMapCUDA (computeBatch K i side p nOut s) = dataMapCUDA s"
  "streamQueries (computeBatch K i side p nOut s) = streamQueries s"
  "length (nodes (computeBatch K i side p nOut s)) = length (nodes s)"
  by (simp_all add: computeBatch_def Let_def)

lemma computeCPUNode_map:
  assumes "\<And>info x. f (info\<lparr>buffer := x\<rparr>) = f info"
    and "\<And>info x. f (info\<lparr>scalarBuffer := x\<rparr>) = f info"
    and "\<And>info x. f (info\<lparr>hasLogged := x\<rparr>) = f info"
  shows "map f (nodes (computeCPUNode K i s)) = map f (nodes s)"
  by (cases "i < length (nodes s)")
     (simp_all add: computeCPUNode_def Let_def computeBatch_map map_list_update_same
        list_update_beyond assms)

lemma computeCPUNode_other [simp]:
  "batchMode (computeCPUNode K i s) = batchMode s"
  "streamQueries (computeCPUNode K i s) = streamQueries s"
  "length (nodes (computeCPUNode K i s)) = length (nodes s)"
  by (simp_all add: computeCPUNode_def Let_def)

lemma computeCPUNode_events:
  "events (computeCPUNode K i s) =
     events s
     @ (if outputSize (nodes s ! i) \<noteq> 1 \<and> \<not> hasLogged (nodes s ! i) \<and> batchMode s = Cuda
        then [LogNoCuda i] else [])
     @ [ComputeCPU i]"
  by (simp add: computeCPUNode_def Let_def)

lemma getValNode_skip: "\<not> needsRun counter s k \<Longrightarrow> getValNode K counter k s = s"
  by (auto simp: getValNode_def needsRun_def processVariable_def)

lemma getValNode_run_eq:
  assumes "needsRun counter s k"
  shows "getValNode K counter k s =
     (let s1 = (if isVariable (nodes s ! k)
                then updNode k (\<lambda>info. info\<lparr>lastSetValCount := counter k\<rparr>) s else s);
          s2 = fold (\<lambda>c. updNode c (\<lambda>clientInfo. clientInfo\<lparr>isDirty := True\<rparr>))
                 (clientInfos (nodes s1 ! k)) s1
      in updNode k (\<lambda>info. info\<lparr>isDirty := False\<rparr>) (computeCPUNode K k s2))"
  using assms
  by (auto simp: getValNode_def needsRun_def processVariable_def setClientsDirty_def Let_def)

lemma getValNode_map:
  assumes "\<And>info x. f (info\<lparr>buffer := x\<rparr>) = f info"
    and "\<And>info x. f (info\<lparr>scalarBuffer := x\<rparr>) = f info"
    and "\<And>info x. f (info\<lparr>hasLogged := x\<rparr>) = f info"
    and "\<And>info x. f (info\<lparr>isDirty := x\<rparr>) = f info"
    and "\<And>info x. f (info\<lparr>lastSetValCount := x\<rparr>) = f info"
  shows "map f (nodes (getValNode K counter k s)) = map f (nodes s)"
proof (cases "needsRun counter s k")
  case False
  then show ?thesis by (simp add: getValNode_skip)
next
  case True
  show ?thesis
    unfolding getValNode_run_eq [OF True] Let_def
    by (simp add: map_list_update_same computeCPUNode_map fold_updNode_map assms)
qed

lemma getValNode_other [simp]:
  "batchMode (getValNode K counter k s) = batchMode s"
  "length (nodes (getValNode K counter k s)) = length (nodes s)"
  by (cases "needsRun counter s k";
      simp add: getValNode_skip getValNode_run_eq Let_def)+

lemma getValNode_run:
  assumes k: "k < length (nodes s)" and host: "batchMode s \<noteq> Cuda"
    and run: "needsRun counter s k" and self: "k \<notin> set (clientInfos (nodes s ! k))"
  shows "events (getValNode K counter k s) = events s @ [ComputeCPU k]"
    and "\<And>j. j < length (nodes s) \<Longrightarrow>
           isDirty (nodes (getValNode K counter k s) ! j)
             = (j \<noteq> k \<and> (isDirty (nodes s ! j) \<or> j \<in> set (clientInfos (nodes s ! k))))"
    and "\<And>j. j < length (nodes s) \<Longrightarrow>
           lastSetValCount (nodes (getValNode K counter k s) ! j)
             = (if j = k \<and> isVariable (nodes s ! k) then counter k
                else lastSetValCount (nodes s ! j))"
proof -
  define s1 where "s1 = (if isVariable (nodes s ! k)
                then updNode k (\<lambda>info. info\<lparr>lastSetValCount := counter k\<rparr>) s else s)"
  define s2 where "s2 = fold (\<lambda>c. updNode c (\<lambda>clientInfo. clientInfo\<lparr>isDirty := True\<rparr>))
                 (clientInfos (nodes s1 ! k)) s1"
  define s3 where "s3 = computeCPUNode K k s2"
  have eq: "getValNode K counter k s = updNode k (\<lambda>info. info\<lparr>isDirty := False\<rparr>) s3"
    unfolding getValNode_run_eq [OF run] s1_def s2_def s3_def Let_def by simp
  have len: "length (nodes s1) = length (nodes s)" "length (nodes s2) = length (nodes s)"
    "length (nodes s3) = length (nodes s)"
    by (simp_all add: s1_def s2_def s3_def)
  have cl: "clientInfos (nodes s1 ! k) = clientInfos (nodes s ! k)"
    using k by (simp add: s1_def)
  have bm: "batchMode s2 = batchMode s" by (simp add: s2_def s1_def)
  show "events (getValNode K counter k s) = events s @ [ComputeCPU k]"
    using host by (simp add: eq s3_def computeCPUNode_events bm) (simp add: s2_def s1_def)
  have d3: "map isDirty (nodes s3) = map isDirty (nodes s2)"
    and l3: "map lastSetValCount (nodes s3) = map lastSetValCount (nodes s2)"
    unfolding s3_def by (simp_all add: computeCPUNode_map)
  have l2: "map lastSetValCount (nodes s2) = map lastSetValCount (nodes s1)"
    unfolding s2_def by (simp add: fold_updNode_map)
  show "isDirty (nodes (getValNode K counter k s) ! j)
             = (j \<noteq> k \<and> (isDirty (nodes s ! j) \<or> j \<in> set (clientInfos (nodes s ! k))))"
    if j: "j < length (nodes s)" for j
  proof (cases "j = k")
    case True
    then show ?thesis using k len by (simp add: eq)
  next
    case False
    have "isDirty (nodes s3 ! j) = isDirty (nodes s2 ! j)"
      using map_eq_nth [OF d3] j len by simp
    also have "\<dots> = (isDirty (nodes s1 ! j) \<or> j \<in> set (clientInfos (nodes s ! k)))"
      unfolding s2_def cl using j len by (simp add: fold_setDirty_nth)
    also have "isDirty (nodes s1 ! j) = isDirty (nodes s ! j)"
      using False by (simp add: s1_def)
    finally show ?thesis using False by (simp add: eq)
  qed
  show "lastSetValCount (nodes (getValNode K counter k s) ! j)
             = (if j = k \<and> isVariable (nodes s ! k) then counter k
                else lastSetValCount (nodes s ! j))"
    if j: "j < length (nodes s)" for j
  proof -
    have "lastSetValCount (nodes s3 ! j) = lastSetValCount (nodes s1 ! j)"
      using map_eq_nth [OF l3] map_eq_nth [OF l2] j len by simp
    moreover have "lastSetValCount (nodes s1 ! j) =
        (if j = k \<and> isVariable (nodes s ! k) then counter k else lastSetValCount (nodes s ! j))"
      using j by (simp add: s1_def nth_list_update)
    moreover have "lastSetValCount (nodes (updNode k (\<lambda>info. info\<lparr>isDirty := False\<rparr>) s3) ! j)
                     = lastSetValCount (nodes s3 ! j)"
      using j len by (cases "j = k") simp_all
    ultimately show ?thesis
      by (simp only: eq)
  qed
qed

subsection \<open>The host pass\<close>

lemma hostPass_map:
  assumes "\<And>info x. f (info\<lparr>buffer := x\<rparr>) = f info"
    and "\<And>info x. f (info\<lparr>scalarBuffer := x\<rparr>) = f info"
    and "\<And>info x. f (info\<lparr>hasLogged := x\<rparr>) = f info"
    and "\<And>info x. f (info\<lparr>isDirty := x\<rparr>) = f info"
    and "\<And>info x. f (info\<lparr>lastSetValCount := x\<rparr>) = f info"
  shows "map f (nodes (fold (getValNode K counter) is s)) = map f (nodes s)"
  by (rule fold_preserves) (rule getValNode_map [OF assms])

lemma hostPass_other [simp]:
  "batchMode (fold (getValNode K counter) is s) = batchMode s"
  "length (nodes (fold (getValNode K counter) is s)) = length (nodes s)"
  by (induction "is" arbitrary: s) simp_all

lemma hostPass_invariant:
  fixes s :: "'v RooFitDriver" and K :: "'v Kernel" and counter :: "nat \<Rightarrow> 64 word" and k :: nat
  assumes host: "batchMode s \<noteq> Cuda"
    and after: "\<And>i c. i < length (nodes s) \<Longrightarrow> c \<in> set (clientInfos (nodes s ! i))
                  \<Longrightarrow> i < c \<and> c < length (nodes s)"
    and k: "k \<le> length (nodes s)"
  defines "s' \<equiv> fold (getValNode K counter) [0..<k] s"
  shows "\<exists>rs. events s' = events s @ map ComputeCPU rs
          \<and> (\<forall>i. i \<in> set rs \<longleftrightarrow> i < k \<and> passRuns counter (nodes s) rs i)
          \<and> (\<forall>j. k \<le> j \<and> j < length (nodes s) \<longrightarrow>
                 isDirty (nodes s' ! j)
                   = (isDirty (nodes s ! j)
                      \<or> (\<exists>i' \<in> set rs. j \<in> set (clientInfos (nodes s ! i'))))
                 \<and> lastSetValCount (nodes s' ! j) = lastSetValCount (nodes s ! j))
          \<and> (\<forall>j < k. \<not> fromDataset (nodes s ! j) \<longrightarrow>
                 (if isVariable (nodes s ! j) then lastSetValCount (nodes s' ! j) = counter j
                  else \<not> isDirty (nodes s' ! j)))"
  using k unfolding s'_def
proof (induction k)
  case 0
  show ?case
    by (rule exI [of _ "[]"]) simp
next
  case (Suc k)
  let ?ns = "nodes s"
  let ?n = "length (nodes s)"
  define t where "t = fold (getValNode K counter) [0..<k] s"
  have k: "k < ?n" using Suc.prems by simp
  from Suc.IH obtain rs where
    ev: "events t = events s @ map ComputeCPU rs" and
    mem: "\<And>i. i \<in> set rs \<longleftrightarrow> i < k \<and> passRuns counter ?ns rs i" and
    later: "\<And>j. k \<le> j \<Longrightarrow> j < ?n \<Longrightarrow>
              isDirty (nodes t ! j)
                = (isDirty (?ns ! j) \<or> (\<exists>i' \<in> set rs. j \<in> set (clientInfos (?ns ! i'))))
              \<and> lastSetValCount (nodes t ! j) = lastSetValCount (?ns ! j)" and
    fin: "\<And>j. j < k \<Longrightarrow> \<not> fromDataset (?ns ! j) \<Longrightarrow>
              (if isVariable (?ns ! j) then lastSetValCount (nodes t ! j) = counter j
               else \<not> isDirty (nodes t ! j))"
    using Suc.prems unfolding t_def by auto
  have len: "length (nodes t) = ?n" and bm: "batchMode t \<noteq> Cuda"
    using host by (simp_all add: t_def)
  have fd: "fromDataset (nodes t ! j) = fromDataset (?ns ! j)"
    and iv: "isVariable (nodes t ! j) = isVariable (?ns ! j)"
    and ci: "clientInfos (nodes t ! j) = clientInfos (?ns ! j)" if "j < ?n" for j
    using map_eq_nth [OF hostPass_map, of fromDataset j K counter "[0..<k]" s]
      map_eq_nth [OF hostPass_map, of isVariable j K counter "[0..<k]" s]
      map_eq_nth [OF hostPass_map, of clientInfos j K counter "[0..<k]" s] that
    by (simp_all add: t_def)
  have step: "fold (getValNode K counter) [0..<Suc k] s = getValNode K counter k t"
    by (simp add: t_def)
  have run_iff: "needsRun counter t k \<longleftrightarrow> passRuns counter ?ns rs k"
    using later [of k] k by (simp add: needsRun_def passRuns_def fd iv)
  have notself: "k \<notin> set (clientInfos (nodes t ! k))"
    using after [OF k, of k] k by (auto simp: ci)
  have before: "i' < j" if "i' < ?n" "j \<in> set (clientInfos (?ns ! i'))" for i' j
    using after [OF that] by simp
  have rs_lt: "i < k" if "i \<in> set rs" for i
    using mem that by blast
  show ?case
  proof (cases "needsRun counter t k")
    case False
    then have same: "getValNode K counter k t = t" by (rule getValNode_skip)
    have nk: "\<not> passRuns counter ?ns rs k" using False run_iff by simp
    have "\<And>i. i \<in> set rs \<longleftrightarrow> i < Suc k \<and> passRuns counter ?ns rs i"
      using mem nk by (auto simp: less_Suc_eq)
    moreover have "isDirty (nodes t ! j)
                = (isDirty (?ns ! j) \<or> (\<exists>i' \<in> set rs. j \<in> set (clientInfos (?ns ! i'))))
              \<and> lastSetValCount (nodes t ! j) = lastSetValCount (?ns ! j)"
      if "Suc k \<le> j" "j < ?n" for j
      using later [of j] that by simp
    moreover have "if isVariable (?ns ! j) then lastSetValCount (nodes t ! j) = counter j
               else \<not> isDirty (nodes t ! j)"
      if "j < Suc k" "\<not> fromDataset (?ns ! j)" for j
    proof (cases "j = k")
      case True
      then show ?thesis
        using False that(2) k by (auto simp: needsRun_def fd iv later)
    next
      case False
      then show ?thesis using fin [of j] that by simp
    qed
    ultimately show ?thesis
      unfolding step same using ev by (intro exI [of _ rs]) blast
  next
    case True
    note r = getValNode_run [OF k [folded len] bm True notself, unfolded len]
    have pk: "passRuns counter ?ns rs k" using True run_iff by simp
    have stable: "passRuns counter ?ns (rs @ [k]) i = passRuns counter ?ns rs i" if "i \<le> k" for i
      using before [OF k, of i] that by (auto simp: passRuns_def)
    have "\<And>i. i \<in> set (rs @ [k]) \<longleftrightarrow> i < Suc k \<and> passRuns counter ?ns (rs @ [k]) i"
      using mem pk stable by (auto simp: less_Suc_eq)
    moreover have "isDirty (nodes (getValNode K counter k t) ! j)
                = (isDirty (?ns ! j)
                   \<or> (\<exists>i' \<in> set (rs @ [k]). j \<in> set (clientInfos (?ns ! i'))))
              \<and> lastSetValCount (nodes (getValNode K counter k t) ! j)
                  = lastSetValCount (?ns ! j)"
      if "Suc k \<le> j" "j < ?n" for j
      using r(2) [OF that(2)] r(3) [OF that(2)] later [of j] that k by (auto simp: ci)
    moreover have "if isVariable (?ns ! j)
               then lastSetValCount (nodes (getValNode K counter k t) ! j) = counter j
               else \<not> isDirty (nodes (getValNode K counter k t) ! j)"
      if "j < Suc k" "\<not> fromDataset (?ns ! j)" for j
    proof (cases "j = k")
      case True
      then show ?thesis
        using r(2) [of k] r(3) [of k] k by (simp add: iv)
    next
      case False
      then have jk: "j < k" using that(1) by simp
      have "j \<notin> set (clientInfos (?ns ! k))"
        using before [OF k, of j] jk by auto
      then show ?thesis
        using r(2) [of j] r(3) [of j] fin [OF jk that(2)] jk k False by (simp add: ci)
    qed
    moreover have "events (getValNode K counter k t) = events s @ map ComputeCPU (rs @ [k])"
      using r(1) ev by simp
    ultimately show ?thesis
      unfolding step by (intro exI [of _ "rs @ [k]"]) blast
  qed
qed

lemma hostPass_idle:
  assumes "\<And>j. j < length (nodes s) \<Longrightarrow> \<not> needsRun counter s j" and "k \<le> length (nodes s)"
  shows "fold (getValNode K counter) [0..<k] s = s"
  using assms(2) by (induction k) (simp_all add: getValNode_skip assms(1))

subsection \<open>Well-formed graphs\<close>

lemma wellFormed_cong:
  fixes ns ns' :: "'v NodeInfo list"
  assumes "map serverInfos ns' = map serverInfos ns" and "map clientInfos ns' = map clientInfos ns"
  shows "wellFormed ns' = wellFormed ns"
proof -
  have len: "length ns' = length ns" using assms(1) by (rule map_eq_length)
  have sv: "serverInfos (ns' ! i) = serverInfos (ns ! i)"
    and cl: "clientInfos (ns' ! i) = clientInfos (ns ! i)" if "i < length ns" for i
    using map_eq_nth [OF assms(1)] map_eq_nth [OF assms(2)] that len by simp_all
  have "validEdges ns' = validEdges ns"
    unfolding validEdges_def all_set_conv_all_nth len by (simp add: sv cl)
  moreover have "mutualEdges ns' = mutualEdges ns"
    unfolding mutualEdges_def len by (simp add: sv cl)
  moreover have "topological ns' = topological ns"
    unfolding topological_def len by (simp add: sv)
  ultimately show ?thesis by (simp add: wellFormed_def)
qed

lemma wellFormed_valid:
  assumes "wellFormed ns" and "i < length ns"
  shows "c \<in> set (clientInfos (ns ! i)) \<Longrightarrow> c < length ns"
    and "sv \<in> set (serverInfos (ns ! i)) \<Longrightarrow> sv < length ns"
  using assms by (auto simp: wellFormed_def validEdges_def)

lemma wellFormed_mutual:
  assumes "wellFormed ns" and "i < length ns" and "j < length ns"
  shows "j \<in> set (serverInfos (ns ! i)) \<longleftrightarrow> i \<in> set (clientInfos (ns ! j))"
proof -
  have "count_list (serverInfos (ns ! i)) j = count_list (clientInfos (ns ! j)) i"
    using assms by (simp add: wellFormed_def mutualEdges_def)
  then show ?thesis
    by (metis count_list_0_iff)
qed

lemma wellFormed_after:
  assumes "wellFormed ns" and "i < length ns" and "c \<in> set (clientInfos (ns ! i))"
  shows "i < c \<and> c < length ns"
proof -
  have c: "c < length ns" using wellFormed_valid(1) [OF assms] .
  then have "i \<in> set (serverInfos (ns ! c))"
    using wellFormed_mutual [OF assms(1) c assms(2)] assms(3) by simp
  then have "i < c"
    using assms(1) c by (auto simp: wellFormed_def topological_def)
  then show ?thesis using c by simp
qed

subsection \<open>getVal on the host\<close>

lemma getVal_host:
  assumes "batchMode s \<noteq> Cuda"
  shows "getVal fuel active K counter s = Some (r, s') \<longleftrightarrow>
           s' = fold (getValNode K counter) [0..<length (nodes s)]
                  (s\<lparr>getValInvocations := getValInvocations s + 1\<rparr>)
           \<and> r = topValue s'"
  using assms by (auto simp: getVal_def Let_def)

lemma needsRun_getValInvocations [simp]:
  "needsRun counter (s\<lparr>getValInvocations := g\<rparr>) j = needsRun counter s j"
  by (simp add: needsRun_def)

lemma spanValues_cong:
  assumes "nodes s' = nodes s" and "cudaMemDataset s' = cudaMemDataset s"
  shows "spanValues s' = spanValues s"
  by (rule ext) (simp add: spanValues_def assms split: prod.splits Pointer.splits)

lemma topValue_cong:
  assumes "nodes s' = nodes s" and "cudaMemDataset s' = cudaMemDataset s"
    and "dataMapCPU s' = dataMapCPU s"
  shows "topValue s' = topValue s"
  unfolding topValue_def spanValues_cong [OF assms(1,2)] assms by simp

lemma topValue_getValInvocations [simp]:
  "topValue (s\<lparr>getValInvocations := g\<rparr>) = topValue s"
  by (rule topValue_cong) simp_all

text \<open>After a pass nothing is left to recompute for the counters it has seen.\<close>

lemma getVal_host_settled:
  assumes wf: "wellFormed (nodes s)" and host: "batchMode s \<noteq> Cuda"
    and e: "getVal fuel active K counter s = Some (r, s')"
  shows "length (nodes s') = length (nodes s)"
    and "batchMode s' = batchMode s"
    and "\<And>f. \<lbrakk>\<And>info x. f (info\<lparr>buffer := x\<rparr>) = f info;
               \<And>info x. f (info\<lparr>scalarBuffer := x\<rparr>) = f info;
               \<And>info x. f (info\<lparr>hasLogged := x\<rparr>) = f info;
               \<And>info x. f (info\<lparr>isDirty := x\<rparr>) = f info;
               \<And>info x. f (info\<lparr>lastSetValCount := x\<rparr>) = f info\<rbrakk>
            \<Longrightarrow> map f (nodes s') = map f (nodes s)"
    and "\<And>j. j < length (nodes s) \<Longrightarrow> \<not> fromDataset (nodes s ! j) \<Longrightarrow>
           (if isVariable (nodes s ! j) then lastSetValCount (nodes s' ! j) = counter j
            else \<not> isDirty (nodes s' ! j))"
proof -
  let ?s0 = "s\<lparr>getValInvocations := getValInvocations s + 1\<rparr>"
  have s': "s' = fold (getValNode K counter) [0..<length (nodes ?s0)] ?s0"
    using e host by (simp add: getVal_host)
  show "length (nodes s') = length (nodes s)" "batchMode s' = batchMode s"
    by (simp_all add: s')
  show "map f (nodes s') = map f (nodes s)"
    if "\<And>info x. f (info\<lparr>buffer := x\<rparr>) = f info"
      "\<And>info x. f (info\<lparr>scalarBuffer := x\<rparr>) = f info"
      "\<And>info x. f (info\<lparr>hasLogged := x\<rparr>) = f info"
      "\<And>info x. f (info\<lparr>isDirty := x\<rparr>) = f info"
      "\<And>info x. f (info\<lparr>lastSetValCount := x\<rparr>) = f info" for f
    unfolding s' using hostPass_map [OF that, of K counter _ ?s0] by simp
  have after: "i < c \<and> c < length (nodes ?s0)"
    if "i < length (nodes ?s0)" "c \<in> set (clientInfos (nodes ?s0 ! i))" for i c
    using wellFormed_after [OF wf, of i c] that by simp
  have host0: "batchMode ?s0 \<noteq> Cuda" using host by simp
  from hostPass_invariant [OF host0 after order_refl, of K counter]
  show "if isVariable (nodes s ! j) then lastSetValCount (nodes s' ! j) = counter j
            else \<not> isDirty (nodes s' ! j)"
    if "j < length (nodes s)" "\<not> fromDataset (nodes s ! j)" for j
    using that unfolding s' by auto
qed

text \<open>The kernels a pass invokes, from the state it starts in.\<close>

lemma getVal_host_runs:
  assumes wf: "wellFormed (nodes s)" and host: "batchMode s \<noteq> Cuda"
    and e: "getVal fuel active K counter s = Some (r, s')"
  shows "\<exists>rs. events s' = events s @ map ComputeCPU rs
          \<and> (\<forall>i. i \<in> set rs \<longleftrightarrow> i < length (nodes s) \<and> passRuns counter (nodes s) rs i)"
proof -
  let ?s0 = "s\<lparr>getValInvocations := getValInvocations s + 1\<rparr>"
  have s': "s' = fold (getValNode K counter) [0..<length (nodes ?s0)] ?s0"
    using e host by (simp add: getVal_host)
  have after: "i < c \<and> c < length (nodes ?s0)"
    if "i < length (nodes ?s0)" "c \<in> set (clientInfos (nodes ?s0 ! i))" for i c
    using wellFormed_after [OF wf, of i c] that by simp
  have host0: "batchMode ?s0 \<noteq> Cuda" using host by simp
  from hostPass_invariant [OF host0 after order_refl, of K counter]
  show ?thesis unfolding s' by auto
qed

lemma getVal_host_the:
  "batchMode s \<noteq> Cuda \<Longrightarrow>
     getVal fuel active K counter s
       = Some (fst (the (getVal fuel active K counter s)), snd (the (getVal fuel active K counter s)))"
  by (simp add: getVal_def Let_def)

lemma recomputeRel_leafInputs:
  assumes "leafInputs ns"
  shows "recomputeRel ns = serverRel ns"
proof -
  have "\<not> isVariable (ns ! i) \<and> \<not> fromDataset (ns ! i)"
    if "i < length ns" "sv \<in> set (serverInfos (ns ! i))" for i sv
  proof -
    have "serverInfos (ns ! i) \<noteq> []" using that(2) by auto
    then show ?thesis using assms that(1) by (auto simp: leafInputs_def)
  qed
  then show ?thesis by (auto simp: recomputeRel_def serverRel_def)
qed

text \<open>
  Claim C1, as the code has it. Host mode, two consecutive evaluations with no
  \<^verbatim>\<open>setData\<close> in between, on a graph whose edges are mutual, as the constructor
  builds them, and go from earlier to later nodes, the order in which the graph provider
  hands the nodes over. The second evaluation never invokes the kernel of a node bound to the dataset. It
  recomputes a variable that is not bound iff the \<^verbatim>\<open>valueResetCounter\<close> of the variable
  differs from what it was at the first evaluation. It invokes the kernel of any other
  node \<open>N\<close> iff such a variable with a changed counter reaches \<open>N\<close> along server
  edges through nodes that are neither variables nor bound to the dataset. When the
  variables and the nodes bound to the dataset have no servers, these are all the
  parameter leaves among the transitive servers of \<open>N\<close>.
\<close>

theorem getVal_host_recomputes_iff_reached:
  assumes wf: "wellFormed (nodes s0)" and host: "batchMode s0 \<noteq> Cuda"
    and e1: "getVal fuel1 active1 K1 counter1 s0 = Some (r1, s1)"
    and e2: "getVal fuel2 active2 K2 counter2 s1 = Some (r2, s2)"
    and N: "N < length (nodes s0)"
  shows "(ComputeCPU N \<in> set (drop (length (events s1)) (events s2)) \<longleftrightarrow>
            \<not> fromDataset (nodes s0 ! N)
            \<and> (if isVariable (nodes s0 ! N) then counter2 N \<noteq> counter1 N
               else \<exists>p. (p, N) \<in> (recomputeRel (nodes s0))\<^sup>+
                        \<and> isVariable (nodes s0 ! p) \<and> \<not> fromDataset (nodes s0 ! p)
                        \<and> counter2 p \<noteq> counter1 p))
       \<and> (leafInputs (nodes s0) \<and> \<not> fromDataset (nodes s0 ! N) \<and> \<not> isVariable (nodes s0 ! N) \<longrightarrow>
            (ComputeCPU N \<in> set (drop (length (events s1)) (events s2)) \<longleftrightarrow>
               (\<exists>p. (p, N) \<in> (serverRel (nodes s0))\<^sup>+
                    \<and> isVariable (nodes s0 ! p) \<and> \<not> fromDataset (nodes s0 ! p)
                    \<and> counter2 p \<noteq> counter1 p)))"
proof -
  let ?ns = "nodes s0"
  let ?n = "length (nodes s0)"
  note st = getVal_host_settled [OF wf host e1]
  have len1: "length (nodes s1) = ?n" and host1: "batchMode s1 \<noteq> Cuda"
    using st(1,2) host by simp_all
  have sv: "map serverInfos (nodes s1) = map serverInfos ?ns"
    and cl: "map clientInfos (nodes s1) = map clientInfos ?ns"
    and fd: "map fromDataset (nodes s1) = map fromDataset ?ns"
    and iv: "map isVariable (nodes s1) = map isVariable ?ns"
    by (rule st(3); simp)+
  have wf1: "wellFormed (nodes s1)"
    using wellFormed_cong [OF sv cl] wf by simp
  from getVal_host_runs [OF wf1 host1 e2] obtain rs where
    ev: "events s2 = events s1 @ map ComputeCPU rs" and
    mem1: "\<And>i. i \<in> set rs \<longleftrightarrow> i < ?n \<and> passRuns counter2 (nodes s1) rs i"
    unfolding len1 by blast
  have ran: "ComputeCPU i \<in> set (drop (length (events s1)) (events s2)) \<longleftrightarrow> i \<in> set rs" for i
    by (auto simp: ev)
  have param: "i \<in> set rs \<longleftrightarrow> counter2 i \<noteq> counter1 i"
    if "i < ?n" "\<not> fromDataset (?ns ! i)" "isVariable (?ns ! i)" for i
    using mem1 [of i] st(4) [OF that(1,2)] that
      map_eq_nth [OF fd, of i] map_eq_nth [OF iv, of i] len1
    by (auto simp: passRuns_def)
  have derived: "i \<in> set rs \<longleftrightarrow> (\<exists>i' \<in> set rs. i \<in> set (clientInfos (?ns ! i')))"
    if "i < ?n" "\<not> fromDataset (?ns ! i)" "\<not> isVariable (?ns ! i)" for i
  proof -
    have "clientInfos (nodes s1 ! i') = clientInfos (?ns ! i')" if "i' \<in> set rs" for i'
      using mem1 [of i'] that map_eq_nth [OF cl, of i'] len1 by simp
    then show ?thesis
      using mem1 [of i] st(4) [OF that(1,2)] that
        map_eq_nth [OF fd, of i] map_eq_nth [OF iv, of i] len1
      by (auto simp: passRuns_def)
  qed
  have rs_nd: "i < ?n \<and> \<not> fromDataset (?ns ! i)" if "i \<in> set rs" for i
    using mem1 [of i] that map_eq_nth [OF fd, of i] len1 by (auto simp: passRuns_def)
  have edge: "b \<in> set (clientInfos (?ns ! a)) \<and> a < ?n \<and> b < ?n
              \<and> \<not> isVariable (?ns ! b) \<and> \<not> fromDataset (?ns ! b)"
    if "(a, b) \<in> recomputeRel ?ns" for a b
  proof -
    from that have b: "b < ?n" and a: "a \<in> set (serverInfos (?ns ! b))"
      and live: "\<not> isVariable (?ns ! b)" "\<not> fromDataset (?ns ! b)"
      by (auto simp: recomputeRel_def)
    have a': "a < ?n" using wellFormed_valid(2) [OF wf b a] .
    show ?thesis
      using wellFormed_mutual [OF wf b a'] a a' b live by simp
  qed
  have forward: "b \<in> set rs" if "(a, b) \<in> (recomputeRel ?ns)\<^sup>+" "a \<in> set rs" for a b
    using that
  proof (induction rule: trancl_induct)
    case (base y)
    then show ?case using derived [of y] edge [of a y] by blast
  next
    case (step y z)
    then show ?case using derived [of z] edge [of y z] by blast
  qed
  have backward: "i \<in> set rs \<Longrightarrow> \<not> isVariable (?ns ! i) \<Longrightarrow>
        \<exists>p. (p, i) \<in> (recomputeRel ?ns)\<^sup>+ \<and> isVariable (?ns ! p) \<and> \<not> fromDataset (?ns ! p)
             \<and> counter2 p \<noteq> counter1 p" for i
  proof (induction i rule: less_induct)
    case (less i)
    have i: "i < ?n" "\<not> fromDataset (?ns ! i)" using rs_nd [OF less.prems(1)] by simp_all
    from derived [OF i less.prems(2)] less.prems(1) obtain i' where
      i': "i' \<in> set rs" "i \<in> set (clientInfos (?ns ! i'))" by blast
    have i'n: "i' < ?n" "\<not> fromDataset (?ns ! i')" using rs_nd [OF i'(1)] by simp_all
    have lt: "i' < i" using wellFormed_after [OF wf i'n(1) i'(2)] by simp
    have "i' \<in> set (serverInfos (?ns ! i))"
      using wellFormed_mutual [OF wf i(1) i'n(1)] i'(2) by simp
    then have e: "(i', i) \<in> recomputeRel ?ns"
      using i less.prems(2) by (simp add: recomputeRel_def)
    show ?case
    proof (cases "isVariable (?ns ! i')")
      case True
      then have "counter2 i' \<noteq> counter1 i'" using param [OF i'n True] i'(1) by simp
      then show ?thesis using e True i'n(2) by blast
    next
      case False
      from less.IH [OF lt i'(1) False] obtain p where
        "(p, i') \<in> (recomputeRel ?ns)\<^sup>+" "isVariable (?ns ! p)" "\<not> fromDataset (?ns ! p)"
        "counter2 p \<noteq> counter1 p" by blast
      then show ?thesis using e by (meson trancl.trancl_into_trancl)
    qed
  qed
  have main: "ComputeCPU N \<in> set (drop (length (events s1)) (events s2)) \<longleftrightarrow>
            \<not> fromDataset (?ns ! N)
            \<and> (if isVariable (?ns ! N) then counter2 N \<noteq> counter1 N
               else \<exists>p. (p, N) \<in> (recomputeRel ?ns)\<^sup>+
                        \<and> isVariable (?ns ! p) \<and> \<not> fromDataset (?ns ! p)
                        \<and> counter2 p \<noteq> counter1 p)"
  proof (cases "fromDataset (?ns ! N)")
    case True
    then show ?thesis using rs_nd [of N] ran by auto
  next
    case nd: False
    show ?thesis
    proof (cases "isVariable (?ns ! N)")
      case True
      then show ?thesis using param [OF N nd True] ran nd by simp
    next
      case False
      have "N \<in> set rs" if "(p, N) \<in> (recomputeRel ?ns)\<^sup>+" "isVariable (?ns ! p)"
        "\<not> fromDataset (?ns ! p)" "counter2 p \<noteq> counter1 p" for p
      proof -
        have "p < ?n"
          using that(1) edge by (meson tranclD)
        then have "p \<in> set rs" using param [of p] that by simp
        then show ?thesis using forward [OF that(1)] by simp
      qed
      then show ?thesis using backward [of N] False ran nd by auto
    qed
  qed
  show ?thesis
    using main recomputeRel_leafInputs [of ?ns] by auto
qed

text \<open>
  In the example, setting \<open>p\<close> from 2 to 5 between two evaluations makes the second one
  recompute \<open>top\<close>, which \<open>p\<close> reaches through \<open>f\<close>.
\<close>

theorem getVal_host_recomputes_iff_reached_witness:
  "wellFormed (nodes (exampleBound Cpu)) \<and> leafInputs (nodes (exampleBound Cpu))
   \<and> batchMode (exampleBound Cpu) \<noteq> Cuda
   \<and> getVal 0 (\<lambda>q i. False) (exampleKernel 2) (\<lambda>i. 0) (exampleBound Cpu)
       = Some (Inr 12, exampleEval1)
   \<and> getVal 0 (\<lambda>q i. False) (exampleKernel 5) (\<lambda>i. 1) exampleEval1
       = Some (Inr 30, exampleEval3)
   \<and> 3 < length (nodes (exampleBound Cpu)) \<and> \<not> fromDataset (nodes (exampleBound Cpu) ! 3)
   \<and> \<not> isVariable (nodes (exampleBound Cpu) ! 3)
   \<and> ComputeCPU 3 \<in> set (drop (length (events exampleEval1)) (events exampleEval3))
   \<and> (\<exists>p. (p, 3) \<in> (recomputeRel (nodes (exampleBound Cpu)))\<^sup>+
          \<and> isVariable (nodes (exampleBound Cpu) ! p)
          \<and> \<not> fromDataset (nodes (exampleBound Cpu) ! p) \<and> (1 :: 64 word) \<noteq> 0)
   \<and> (\<exists>p. (p, 3) \<in> (serverRel (nodes (exampleBound Cpu)))\<^sup>+
          \<and> isVariable (nodes (exampleBound Cpu) ! p)
          \<and> \<not> fromDataset (nodes (exampleBound Cpu) ! p) \<and> (1 :: 64 word) \<noteq> 0)"
proof -
  have h1: "wellFormed (nodes (exampleBound Cpu))" by code_simp
  have h2: "leafInputs (nodes (exampleBound Cpu))" by code_simp
  have h3: "batchMode (exampleBound Cpu) \<noteq> Cuda" by code_simp
  have "fst (the (getVal 0 (\<lambda>q i. False) (exampleKernel 2) (\<lambda>i. 0) (exampleBound Cpu))) = Inr 12"
    by code_simp
  then have h4: "getVal 0 (\<lambda>q i. False) (exampleKernel 2) (\<lambda>i. 0) (exampleBound Cpu)
       = Some (Inr 12, exampleEval1)"
    using getVal_host_the [OF h3, of 0 "\<lambda>q i. False" "exampleKernel 2" "\<lambda>i. 0"]
    by (simp add: exampleEval1_def)
  have h3': "batchMode exampleEval1 \<noteq> Cuda" by code_simp
  have "fst (the (getVal 0 (\<lambda>q i. False) (exampleKernel 5) (\<lambda>i. 1) exampleEval1)) = Inr 30"
    by code_simp
  then have h5: "getVal 0 (\<lambda>q i. False) (exampleKernel 5) (\<lambda>i. 1) exampleEval1
       = Some (Inr 30, exampleEval3)"
    using getVal_host_the [OF h3', of 0 "\<lambda>q i. False" "exampleKernel 5" "\<lambda>i. 1"]
    by (simp add: exampleEval3_def)
  have h6: "3 < length (nodes (exampleBound Cpu))" "\<not> fromDataset (nodes (exampleBound Cpu) ! 3)"
    "\<not> isVariable (nodes (exampleBound Cpu) ! 3)"
    by code_simp+
  have h7: "ComputeCPU 3 \<in> set (drop (length (events exampleEval1)) (events exampleEval3))"
    by code_simp
  show ?thesis
    using getVal_host_recomputes_iff_reached [OF h1 h3 h4 h5 h6(1)]
      h1 h2 h3 h4 h5 h6 h7
    by simp
qed

text \<open>
  Claim C1 as stated counts every parameter among the transitive servers. A node that the
  dataset binds is skipped by the pass and passes nothing on: with the column \<open>f\<close> in
  the data spans of the example, the change of \<open>p\<close>, a transitive server of \<open>top\<close>,
  recomputes \<open>p\<close> alone.
\<close>

theorem dataset_bound_node_blocks_recompute:
  "wellFormed (nodes exampleBoundF) \<and> batchMode exampleBoundF \<noteq> Cuda
   \<and> \<not> isVariable (nodes exampleBoundF ! 3) \<and> \<not> fromDataset (nodes exampleBoundF ! 3)
   \<and> isVariable (nodes exampleBoundF ! 1) \<and> \<not> fromDataset (nodes exampleBoundF ! 1)
   \<and> serverInfos (nodes exampleBoundF ! 1) = []
   \<and> (1, 3) \<in> (serverRel (nodes exampleBoundF))\<^sup>+
   \<and> (1 :: 64 word) \<noteq> 0
   \<and> (case getVal 0 (\<lambda>q i. False) (exampleKernel 2) (\<lambda>i. 0) exampleBoundF of
        None \<Rightarrow> False
      | Some (r1, s1) \<Rightarrow>
          (case getVal 0 (\<lambda>q i. False) (exampleKernel 5) (\<lambda>i. 1) s1 of
             None \<Rightarrow> False
           | Some (r2, s2) \<Rightarrow>
               drop (length (events s1)) (events s2) = [ComputeCPU 1]))"
proof -
  have "2 < length (nodes exampleBoundF) \<and> 1 \<in> set (serverInfos (nodes exampleBoundF ! 2))"
    "3 < length (nodes exampleBoundF) \<and> 2 \<in> set (serverInfos (nodes exampleBoundF ! 3))"
    by code_simp+
  then have "(1, 2) \<in> serverRel (nodes exampleBoundF)" "(2, 3) \<in> serverRel (nodes exampleBoundF)"
    by (simp_all add: serverRel_def)
  then have path: "(1, 3) \<in> (serverRel (nodes exampleBoundF))\<^sup>+"
    by (rule trancl_into_trancl [OF r_into_trancl])
  have "wellFormed (nodes exampleBoundF)" "batchMode exampleBoundF \<noteq> Cuda"
    "\<not> isVariable (nodes exampleBoundF ! 3)" "\<not> fromDataset (nodes exampleBoundF ! 3)"
    "isVariable (nodes exampleBoundF ! 1)" "\<not> fromDataset (nodes exampleBoundF ! 1)"
    "serverInfos (nodes exampleBoundF ! 1) = []"
    by code_simp+
  moreover have "case getVal 0 (\<lambda>q i. False) (exampleKernel 2) (\<lambda>i. 0) exampleBoundF of
        None \<Rightarrow> False
      | Some (r1, s1) \<Rightarrow>
          (case getVal 0 (\<lambda>q i. False) (exampleKernel 5) (\<lambda>i. 1) s1 of
             None \<Rightarrow> False
           | Some (r2, s2) \<Rightarrow>
               drop (length (events s1)) (events s2) = [ComputeCPU 1])"
    by code_simp
  ultimately show ?thesis using path by simp
qed

text \<open>
  On the host, two calls of \<^verbatim>\<open>getVal\<close> after \<^verbatim>\<open>setData\<close> with the same parameter
  values and counters return the same result, and the second call invokes no kernel.
\<close>

lemma getVal_host_twice:
  assumes wf: "wellFormed (nodes s)" and host: "batchMode s \<noteq> Cuda"
    and sd: "setData dataSpans outputSizeMap s = Inr s0"
    and e1: "getVal fuel1 active1 K counter s0 = Some (r1, s1)"
    and e2: "getVal fuel2 active2 K counter s1 = Some (r2, s2)"
  shows "r2 = r1 \<and> drop (length (events s1)) (events s2) = []"
proof -
  have sv0: "map serverInfos (nodes s0) = map serverInfos (nodes s)"
    and cl0: "map clientInfos (nodes s0) = map clientInfos (nodes s)"
    by (rule setData_map [OF _ _ _ _ _ _ sd]; simp)+
  have wf0: "wellFormed (nodes s0)"
    using wellFormed_cong [OF sv0 cl0] wf by simp
  have host0: "batchMode s0 \<noteq> Cuda"
    using setData_frame(3) [OF sd] host by simp
  note st = getVal_host_settled [OF wf0 host0 e1]
  have len1: "length (nodes s1) = length (nodes s0)" and host1: "batchMode s1 \<noteq> Cuda"
    using st(1,2) host0 by simp_all
  have fd: "map fromDataset (nodes s1) = map fromDataset (nodes s0)"
    and iv: "map isVariable (nodes s1) = map isVariable (nodes s0)"
    by (rule st(3); simp)+
  let ?s1 = "s1\<lparr>getValInvocations := getValInvocations s1 + 1\<rparr>"
  have idle: "\<not> needsRun counter ?s1 j" if "j < length (nodes ?s1)" for j
    using st(4) [of j] that map_eq_nth [OF fd, of j] map_eq_nth [OF iv, of j] len1
    by (auto simp: needsRun_def)
  have "s2 = fold (getValNode K counter) [0..<length (nodes ?s1)] ?s1" and r2: "r2 = topValue s2"
    using e2 host1 by (simp_all add: getVal_host)
  then have s2: "s2 = ?s1"
    using hostPass_idle [OF idle order_refl] by simp
  have "r1 = topValue s1"
    using e1 host0 by (simp add: getVal_host)
  then show ?thesis
    using r2 by (simp add: s2)
qed

section \<open>Evaluation with a device (\<^verbatim>\<open>getValHeterogeneous\<close>)\<close>

subsection \<open>The operations of the scheduler, field by field\<close>

lemma assignToGPU_map:
  assumes "\<And>info x. f (info\<lparr>buffer := x\<rparr>) = f info"
    and "\<And>info x. f (info\<lparr>scalarBuffer := x\<rparr>) = f info"
    and "\<And>info x. f (info\<lparr>remServers := x\<rparr>) = f info"
  shows "map f (nodes (assignToGPU K i s)) = map f (nodes s)"
  by (cases "i < length (nodes s)")
     (simp_all add: assignToGPU_def Let_def computeBatch_map map_list_update_same
        list_update_beyond assms)

lemma assignToGPU_other [simp]:
  "batchMode (assignToGPU K i s) = batchMode s"
  "streamQueries (assignToGPU K i s) = streamQueries s"
  "length (nodes (assignToGPU K i s)) = length (nodes s)"
  "events (assignToGPU K i s) = events s @ [ComputeCUDA i]"
  by (simp_all add: assignToGPU_def Let_def)

lemma computeBatch_nth:
  "j \<noteq> i \<Longrightarrow> p = ScalarPtr i \<or> p = CpuPtr i \<or> p = GpuPtr i \<Longrightarrow>
     nodes (computeBatch K i side p nOut s) ! j = nodes s ! j"
  by (auto simp: computeBatch_def writeOutput_def Let_def)

lemma computeBatch_remServers:
  "map remServers (nodes (computeBatch K i side p nOut s)) = map remServers (nodes s)"
  by (simp add: computeBatch_map)

lemma assignToGPU_remServers:
  "i < length (nodes s) \<Longrightarrow>
     map remServers (nodes (assignToGPU K i s)) = (map remServers (nodes s))[i := - 1]"
  by (simp add: assignToGPU_def Let_def computeBatch_remServers map_update)

lemma releaseServer_map:
  assumes "\<And>info x. f (info\<lparr>buffer := x\<rparr>) = f info"
    and "\<And>info x. f (info\<lparr>remClients := x\<rparr>) = f info"
  shows "map f (nodes (releaseServer sv s)) = map f (nodes s)"
  by (cases "sv < length (nodes s)")
     (simp_all add: releaseServer_def Let_def map_list_update_same list_update_beyond assms)

lemma releaseServer_other [simp]:
  "batchMode (releaseServer sv s) = batchMode s"
  "streamQueries (releaseServer sv s) = streamQueries s"
  "length (nodes (releaseServer sv s)) = length (nodes s)"
  "events (releaseServer sv s) = events s"
  "dataMapCUDA (releaseServer sv s) = dataMapCUDA s"
  by (simp_all add: releaseServer_def Let_def)

lemma fold_releaseServer_map:
  assumes "\<And>info x. f (info\<lparr>buffer := x\<rparr>) = f info"
    and "\<And>info x. f (info\<lparr>remClients := x\<rparr>) = f info"
  shows "map f (nodes (fold releaseServer svs s)) = map f (nodes s)"
  by (rule fold_preserves) (rule releaseServer_map [OF assms])

lemma fold_releaseServer_other [simp]:
  "batchMode (fold releaseServer svs s) = batchMode s"
  "streamQueries (fold releaseServer svs s) = streamQueries s"
  "length (nodes (fold releaseServer svs s)) = length (nodes s)"
  "events (fold releaseServer svs s) = events s"
  "dataMapCUDA (fold releaseServer svs s) = dataMapCUDA s"
  by (induction svs arbitrary: s) simp_all

text \<open>The two client loops do the same.\<close>

lemma notifyClientCPU_eq: "notifyClientCPU K c s = notifyClientGPU K c s"
  by (auto simp: notifyClientCPU_def notifyClientGPU_def Let_def)

lemma notifyClientGPU_map:
  assumes "\<And>info x. f (info\<lparr>buffer := x\<rparr>) = f info"
    and "\<And>info x. f (info\<lparr>scalarBuffer := x\<rparr>) = f info"
    and "\<And>info x. f (info\<lparr>remServers := x\<rparr>) = f info"
  shows "map f (nodes (notifyClientGPU K c s)) = map f (nodes s)"
  by (simp add: notifyClientGPU_def Let_def assignToGPU_map map_list_update_same assms)

lemma notifyClientGPU_other [simp]:
  "batchMode (notifyClientGPU K c s) = batchMode s"
  "streamQueries (notifyClientGPU K c s) = streamQueries s"
  "length (nodes (notifyClientGPU K c s)) = length (nodes s)"
  by (simp_all add: notifyClientGPU_def Let_def)

lemma computeInGPU_static [simp]:
  "computeInGPU (info\<lparr>buffer := b\<rparr>) = computeInGPU info"
  "computeInGPU (info\<lparr>scalarBuffer := v\<rparr>) = computeInGPU info"
  "computeInGPU (info\<lparr>remServers := r\<rparr>) = computeInGPU info"
  "computeInGPU (info\<lparr>remClients := r\<rparr>) = computeInGPU info"
  "computeInGPU (info\<lparr>hasLogged := h\<rparr>) = computeInGPU info"
  by (simp_all add: computeInGPU_def isScalar_def)

lemma notifyClientGPU_remServers:
  assumes "c < length (nodes s)"
  shows "map remServers (nodes (notifyClientGPU K c s))
           = (map remServers (nodes s))
               [c := (if launches (nodes s) c then - 1 else remServers (nodes s ! c) - 1)]"
  using assms
  by (auto simp: notifyClientGPU_def Let_def launches_def assignToGPU_remServers map_update)

lemma notifyClientGPU_events:
  assumes "c < length (nodes s)"
  shows "events (notifyClientGPU K c s)
           = events s @ (if launches (nodes s) c then [ComputeCUDA c] else [])"
  using assms by (auto simp: notifyClientGPU_def Let_def launches_def)

lemma sameGraph_length: "sameGraph ns' ns \<Longrightarrow> length ns' = length ns"
  unfolding sameGraph_def by (elim conjE) (rule map_eq_length)

lemma sameGraph_nth:
  assumes "sameGraph ns' ns" and "i < length ns"
  shows "serverInfos (ns' ! i) = serverInfos (ns ! i)"
    and "clientInfos (ns' ! i) = clientInfos (ns ! i)"
    and "computeInGPU (ns' ! i) = computeInGPU (ns ! i)"
    and "fromDataset (ns' ! i) = fromDataset (ns ! i)"
proof -
  have i: "i < length ns'" using sameGraph_length [OF assms(1)] assms(2) by simp
  from assms(1) have e: "map serverInfos ns' = map serverInfos ns"
    "map clientInfos ns' = map clientInfos ns" "map computeInGPU ns' = map computeInGPU ns"
    "map fromDataset ns' = map fromDataset ns"
    by (simp_all add: sameGraph_def)
  show "serverInfos (ns' ! i) = serverInfos (ns ! i)" using e(1) i by (rule map_eq_nth)
  show "clientInfos (ns' ! i) = clientInfos (ns ! i)" using e(2) i by (rule map_eq_nth)
  show "computeInGPU (ns' ! i) = computeInGPU (ns ! i)" using e(3) i by (rule map_eq_nth)
  show "fromDataset (ns' ! i) = fromDataset (ns ! i)" using e(4) i by (rule map_eq_nth)
qed

lemma sameGraph_refl [simp]: "sameGraph ns ns"
  by (simp add: sameGraph_def)

lemma sameGraph_trans: "sameGraph ns'' ns' \<Longrightarrow> sameGraph ns' ns \<Longrightarrow> sameGraph ns'' ns"
  by (simp add: sameGraph_def)

lemma pending_cong:
  assumes "serverInfos (ns' ! i) = serverInfos (ns ! i)"
    and "\<And>sv. sv \<in> set (serverInfos (ns ! i)) \<Longrightarrow>
           (remServers (ns' ! sv) = - 2) = (remServers (ns ! sv) = - 2)"
  shows "pending ns' i = pending ns i"
proof -
  have "filter (\<lambda>sv. remServers (ns' ! sv) \<noteq> - 2) (serverInfos (ns ! i))
          = filter (\<lambda>sv. remServers (ns ! sv) \<noteq> - 2) (serverInfos (ns ! i))"
    by (rule filter_cong) (simp_all add: assms(2))
  then show ?thesis by (simp add: pending_def assms(1))
qed

lemma filter_retire:
  assumes "P k" and "\<And>sv. sv \<in> set svs \<Longrightarrow> P' sv = (P sv \<and> sv \<noteq> k)"
  shows "int (length (filter P' svs)) = int (length (filter P svs)) - int (count_list svs k)"
  using assms(2) by (induction svs) (auto simp: assms(1))

lemma pending_retire:
  assumes "serverInfos (ns' ! i) = serverInfos (ns ! i)"
    and "remServers (ns ! k) \<noteq> - 2" and "remServers (ns' ! k) = - 2"
    and "\<And>sv. sv \<in> set (serverInfos (ns ! i)) \<Longrightarrow> sv \<noteq> k \<Longrightarrow>
           remServers (ns' ! sv) = remServers (ns ! sv)"
  shows "pending ns' i = pending ns i - int (count_list (serverInfos (ns ! i)) k)"
  unfolding pending_def assms(1)
proof (rule filter_retire)
  show "remServers (ns ! k) \<noteq> - 2" by (rule assms(2))
  show "(remServers (ns' ! sv) \<noteq> - 2) = (remServers (ns ! sv) \<noteq> - 2 \<and> sv \<noteq> k)"
    if "sv \<in> set (serverInfos (ns ! i))" for sv
    using assms(3) assms(4) [OF that] by (cases "sv = k") simp_all
qed

lemma pending_zero_iff:
  "pending ns i = 0 \<longleftrightarrow> (\<forall>sv \<in> set (serverInfos (ns ! i)). remServers (ns ! sv) = - 2)"
  by (auto simp: pending_def filter_empty_conv)

lemma pending_nonneg: "0 \<le> pending ns i"
  by (simp add: pending_def)

lemma map_remServers_nth:
  assumes "map remServers ns' = (map remServers ns)[k := v]" and "j < length ns"
  shows "remServers (ns' ! j) = (if j = k then v else remServers (ns ! j))"
proof -
  have "length ns' = length ns" using assms(1) by (metis length_list_update length_map)
  then have "remServers (ns' ! j) = map remServers ns' ! j" using assms(2) by simp
  then show ?thesis using assms by (simp add: nth_list_update)
qed

text \<open>Notifying one client keeps the invariant, with one client less to notify.\<close>

lemma nodeInv_notify:
  fixes ns ns' :: "'v NodeInfo list"
  assumes inv: "\<And>j. j < length ns \<Longrightarrow> nodeInv (c # rest) E ns j"
    and c: "c < length ns"
    and g: "sameGraph ns' ns"
    and rs: "map remServers ns'
               = (map remServers ns)[c := (if launches ns c then - 1 else remServers (ns ! c) - 1)]"
    and cuda: "\<And>j. ComputeCUDA j \<in> E' \<longleftrightarrow> ComputeCUDA j \<in> E \<or> j = c \<and> launches ns c"
    and cpu: "\<And>j. ComputeCPU j \<in> E' \<longleftrightarrow> ComputeCPU j \<in> E"
    and valid: "\<And>j sv. j < length ns \<Longrightarrow> sv \<in> set (serverInfos (ns ! j)) \<Longrightarrow> sv < length ns"
    and i: "i < length ns"
  shows "nodeInv rest E' ns' i"
proof -
  note r = map_remServers_nth [OF rs]
  note gi = sameGraph_nth [OF g i]
  have old: "1 \<le> remServers (ns ! c)"
    "remServers (ns ! c) = pending ns c + 1 + int (count_list rest c)"
    using inv [OF c] pending_nonneg [of ns c] by (auto simp: nodeInv_def)
  have same: "(remServers (ns' ! sv) = - 2) = (remServers (ns ! sv) = - 2)" if "sv < length ns" for sv
    using r [OF that] old(1) by (auto simp: launches_def)
  have pend: "pending ns' i = pending ns i"
    by (rule pending_cong) (use gi(1) valid [OF i] same in auto)
  show ?thesis
  proof (cases "i = c")
    case True
    have "pending ns c = 0 \<and> count_list rest c = 0" if "launches ns c"
      using that old(2) pending_nonneg [of ns c] unfolding launches_def by linarith
    then show ?thesis
      using inv [OF c] r [OF c] old pend gi cuda [of c] cpu [of c] True
        pending_nonneg [of ns c]
      by (auto simp: nodeInv_def launches_def)
  next
    case False
    then show ?thesis
      using inv [OF i] r [OF i] pend gi cuda [of i] cpu [of i]
      by (auto simp: nodeInv_def)
  qed
qed

text \<open>
  Retiring a node that is ready keeps the invariant, with all its clients to notify.
\<close>

lemma nodeInv_retire:
  fixes ns ns' :: "'v NodeInfo list"
  assumes inv: "\<And>j. j < length ns \<Longrightarrow> nodeInv [] E ns j"
    and k: "k < length ns"
    and ready: "remServers (ns ! k) = - 1 \<or> remServers (ns ! k) = 0 \<and> \<not> computeInGPU (ns ! k)"
    and g: "sameGraph ns' ns"
    and rs: "map remServers ns' = (map remServers ns)[k := - 2]"
    and cuda: "\<And>j. ComputeCUDA j \<in> E' \<longleftrightarrow> ComputeCUDA j \<in> E"
    and cpu: "\<And>j. ComputeCPU j \<in> E' \<longleftrightarrow>
                ComputeCPU j \<in> E \<or> j = k \<and> remServers (ns ! k) = 0 \<and> \<not> fromDataset (ns ! k)"
    and valid: "\<And>j sv. j < length ns \<Longrightarrow> sv \<in> set (serverInfos (ns ! j)) \<Longrightarrow> sv < length ns"
    and mutual: "\<And>j. j < length ns \<Longrightarrow>
                   count_list (serverInfos (ns ! j)) k = count_list (clientInfos (ns ! k)) j"
    and i: "i < length ns"
  shows "nodeInv (clientInfos (ns ! k)) E' ns' i"
proof -
  note r = map_remServers_nth [OF rs]
  note gi = sameGraph_nth [OF g i]
  have nk: "remServers (ns ! k) \<noteq> - 2" using ready by auto
  have pk: "pending ns k = 0" using inv [OF k] ready by (auto simp: nodeInv_def)
  have pend: "pending ns' i = pending ns i - int (count_list (clientInfos (ns ! k)) i)"
  proof -
    have "pending ns' i = pending ns i - int (count_list (serverInfos (ns ! i)) k)"
    proof (rule pending_retire)
      show "serverInfos (ns' ! i) = serverInfos (ns ! i)" by (rule gi(1))
      show "remServers (ns ! k) \<noteq> - 2" by (rule nk)
      show "remServers (ns' ! k) = - 2" using r [OF k] by simp
      show "remServers (ns' ! sv) = remServers (ns ! sv)"
        if "sv \<in> set (serverInfos (ns ! i))" "sv \<noteq> k" for sv
        using r [OF valid [OF i that(1)]] that(2) by simp
    qed
    then show ?thesis using mutual [OF i] by simp
  qed
  have zero: "count_list (clientInfos (ns ! k)) i = 0" if "pending ns i = 0"
  proof -
    have "k \<notin> set (serverInfos (ns ! i))"
      using that nk by (auto simp: pending_zero_iff)
    then show ?thesis using mutual [OF i] by simp
  qed
  show ?thesis
  proof (cases "i = k")
    case True
    then show ?thesis
      using inv [OF k] r [OF k] ready pend pk zero gi cuda [of k] cpu [of k]
        pending_nonneg [of ns k]
      by (auto simp: nodeInv_def)
  next
    case False
    then show ?thesis
      using inv [OF i] r [OF i] pend zero gi cuda [of i] cpu [of i]
      by (auto simp: nodeInv_def)
  qed
qed

text \<open>The invariant only reads the counters, the graph and the compute events.\<close>

lemma nodeInv_cong:
  fixes ns ns' :: "'v NodeInfo list"
  assumes inv: "\<And>j. j < length ns \<Longrightarrow> nodeInv rest E ns j"
    and g: "sameGraph ns' ns"
    and rs: "map remServers ns' = map remServers ns"
    and cuda: "\<And>j. ComputeCUDA j \<in> E' \<longleftrightarrow> ComputeCUDA j \<in> E"
    and cpu: "\<And>j. ComputeCPU j \<in> E' \<longleftrightarrow> ComputeCPU j \<in> E"
    and valid: "\<And>j sv. j < length ns \<Longrightarrow> sv \<in> set (serverInfos (ns ! j)) \<Longrightarrow> sv < length ns"
    and i: "i < length ns"
  shows "nodeInv rest E' ns' i"
proof -
  have len: "length ns' = length ns" using sameGraph_length [OF g] .
  have r: "remServers (ns' ! j) = remServers (ns ! j)" if "j < length ns" for j
    using map_eq_nth [OF rs, of j] that len by simp
  note gi = sameGraph_nth [OF g i]
  have pend: "pending ns' i = pending ns i"
    by (rule pending_cong) (use gi(1) valid [OF i] r in auto)
  show ?thesis
    using inv [OF i] r [OF i] pend gi cuda [of i] cpu [of i] by (auto simp: nodeInv_def)
qed

subsection \<open>The invariant, step by step\<close>

lemma sameGraph_sym: "sameGraph ns' ns \<Longrightarrow> sameGraph ns ns'"
  by (simp add: sameGraph_def)

lemma sameGraph_valid:
  fixes ns ns' :: "'v NodeInfo list"
  assumes "sameGraph ns' ns" and "validEdges ns" and "j < length ns"
    and "sv \<in> set (serverInfos (ns' ! j))"
  shows "sv < length ns'"
proof -
  have "sv \<in> set (serverInfos (ns ! j))"
    using sameGraph_nth(1) [OF assms(1,3)] assms(4) by simp
  then have "sv < length ns"
    using assms(2,3) by (auto simp: validEdges_def)
  then show ?thesis using sameGraph_length [OF assms(1)] by simp
qed

lemma sameGraph_mutual:
  fixes ns ns' :: "'v NodeInfo list"
  assumes "sameGraph ns' ns" and "mutualEdges ns" and "j < length ns" and "k < length ns"
  shows "count_list (serverInfos (ns' ! j)) k = count_list (clientInfos (ns' ! k)) j"
  using sameGraph_nth(1) [OF assms(1,3)] sameGraph_nth(2) [OF assms(1,4)] assms(2-4)
  by (simp add: mutualEdges_def)

lemma schedState_notify:
  assumes st: "schedState ns0 e0 (c # rest) s" and c: "c < length ns0"
    and valid: "validEdges ns0"
  shows "schedState ns0 e0 rest (notifyClientGPU K c s)"
proof -
  let ?s' = "notifyClientGPU K c s"
  from st have g: "sameGraph (nodes s) ns0" and e0: "e0 \<le> length (events s)"
    and inv: "\<And>i. i < length ns0 \<Longrightarrow> nodeInv (c # rest) (set (drop e0 (events s))) (nodes s) i"
    by (simp_all add: schedState_def)
  have len: "length (nodes s) = length ns0" using sameGraph_length [OF g] .
  have cs: "c < length (nodes s)" using c len by simp
  have g': "sameGraph (nodes ?s') (nodes s)"
    by (simp add: sameGraph_def notifyClientGPU_map)
  have ev: "events ?s' = events s @ (if launches (nodes s) c then [ComputeCUDA c] else [])"
    using cs by (rule notifyClientGPU_events)
  have "nodeInv rest (set (drop e0 (events ?s'))) (nodes ?s') i" if "i < length ns0" for i
  proof (rule nodeInv_notify [where c = c and ns = "nodes s" and E = "set (drop e0 (events s))"])
    show "nodeInv (c # rest) (set (drop e0 (events s))) (nodes s) j" if "j < length (nodes s)" for j
      using inv that len by simp
    show "c < length (nodes s)" by (rule cs)
    show "sameGraph (nodes ?s') (nodes s)" by (rule g')
    show "map remServers (nodes ?s') = (map remServers (nodes s))
            [c := if launches (nodes s) c then - 1 else remServers (nodes s ! c) - 1]"
      using cs by (rule notifyClientGPU_remServers)
    show "(ComputeCUDA j \<in> set (drop e0 (events ?s')))
            = (ComputeCUDA j \<in> set (drop e0 (events s)) \<or> j = c \<and> launches (nodes s) c)" for j
      using e0 by (auto simp: ev)
    show "(ComputeCPU j \<in> set (drop e0 (events ?s'))) = (ComputeCPU j \<in> set (drop e0 (events s)))" for j
      using e0 by (auto simp: ev)
    show "sv < length (nodes s)" if "j < length (nodes s)" "sv \<in> set (serverInfos (nodes s ! j))" for j sv
      using sameGraph_valid [OF g valid] that len by simp
    show "i < length (nodes s)" using that len by simp
  qed
  moreover have "sameGraph (nodes ?s') ns0" using g' g by (rule sameGraph_trans)
  moreover have "e0 \<le> length (events ?s')" using e0 by (simp add: ev)
  ultimately show ?thesis by (simp add: schedState_def)
qed

lemma schedState_notify_all:
  assumes "schedState ns0 e0 cs s" and "\<And>c. c \<in> set cs \<Longrightarrow> c < length ns0"
    and "validEdges ns0"
  shows "schedState ns0 e0 [] (fold (notifyClientGPU K) cs s)"
  using assms(1,2)
proof (induction cs arbitrary: s)
  case Nil
  then show ?case by simp
next
  case (Cons c cs)
  have "schedState ns0 e0 cs (notifyClientGPU K c s)"
    using Cons.prems by (intro schedState_notify assms(3)) simp_all
  then show ?case using Cons.IH Cons.prems(2) by simp
qed

lemma schedState_cong:
  assumes st: "schedState ns0 e0 rest s" and valid: "validEdges ns0"
    and g: "sameGraph (nodes s') (nodes s)"
    and rs: "map remServers (nodes s') = map remServers (nodes s)"
    and ev: "\<exists>es. events s' = events s @ es \<and> (\<forall>j. ComputeCUDA j \<notin> set es \<and> ComputeCPU j \<notin> set es)"
  shows "schedState ns0 e0 rest s'"
proof -
  from st have g0: "sameGraph (nodes s) ns0" and e0: "e0 \<le> length (events s)"
    and inv: "\<And>i. i < length ns0 \<Longrightarrow> nodeInv rest (set (drop e0 (events s))) (nodes s) i"
    by (simp_all add: schedState_def)
  have len: "length (nodes s) = length ns0" using sameGraph_length [OF g0] .
  from ev obtain es where es: "events s' = events s @ es"
    "\<And>j. ComputeCUDA j \<notin> set es" "\<And>j. ComputeCPU j \<notin> set es" by blast
  have "nodeInv rest (set (drop e0 (events s'))) (nodes s') i" if "i < length ns0" for i
  proof (rule nodeInv_cong [where ns = "nodes s" and E = "set (drop e0 (events s))"])
    show "nodeInv rest (set (drop e0 (events s))) (nodes s) j" if "j < length (nodes s)" for j
      using inv that len by simp
    show "sameGraph (nodes s') (nodes s)" by (rule g)
    show "map remServers (nodes s') = map remServers (nodes s)" by (rule rs)
    show "(ComputeCUDA j \<in> set (drop e0 (events s'))) = (ComputeCUDA j \<in> set (drop e0 (events s)))" for j
      using e0 es(2) by (auto simp: es(1))
    show "(ComputeCPU j \<in> set (drop e0 (events s'))) = (ComputeCPU j \<in> set (drop e0 (events s)))" for j
      using e0 es(3) by (auto simp: es(1))
    show "sv < length (nodes s)" if "j < length (nodes s)" "sv \<in> set (serverInfos (nodes s ! j))" for j sv
      using sameGraph_valid [OF g0 valid] that len by simp
    show "i < length (nodes s)" using that len by simp
  qed
  moreover have "sameGraph (nodes s') ns0" using g g0 by (rule sameGraph_trans)
  moreover have "e0 \<le> length (events s')" using e0 by (simp add: es(1))
  ultimately show ?thesis by (simp add: schedState_def)
qed

lemma schedState_release:
  assumes "schedState ns0 e0 rest s" and "validEdges ns0"
  shows "schedState ns0 e0 rest (fold releaseServer svs s)"
  using assms
  by (rule schedState_cong) (simp_all add: sameGraph_def fold_releaseServer_map)

lemma schedState_retire:
  assumes st: "schedState ns0 e0 [] s" and k: "k < length ns0"
    and valid: "validEdges ns0" and mutual: "mutualEdges ns0"
    and ready: "remServers (nodes s ! k) = - 1
                \<or> remServers (nodes s ! k) = 0 \<and> \<not> computeInGPU (nodes s ! k)"
    and g: "sameGraph (nodes s1) (nodes s)"
    and rs: "map remServers (nodes s1) = (map remServers (nodes s))[k := - 2]"
    and ev: "\<exists>es. events s1 = events s @ es \<and> (\<forall>j. ComputeCUDA j \<notin> set es)
               \<and> (\<forall>j. ComputeCPU j \<in> set es \<longleftrightarrow>
                      j = k \<and> remServers (nodes s ! k) = 0 \<and> \<not> fromDataset (nodes s ! k))"
  shows "schedState ns0 e0 (clientInfos (nodes s ! k)) s1"
proof -
  from st have g0: "sameGraph (nodes s) ns0" and e0: "e0 \<le> length (events s)"
    and inv: "\<And>i. i < length ns0 \<Longrightarrow> nodeInv [] (set (drop e0 (events s))) (nodes s) i"
    by (simp_all add: schedState_def)
  have len: "length (nodes s) = length ns0" using sameGraph_length [OF g0] .
  from ev obtain es where es: "events s1 = events s @ es"
    "\<And>j. ComputeCUDA j \<notin> set es"
    "\<And>j. ComputeCPU j \<in> set es \<longleftrightarrow>
           j = k \<and> remServers (nodes s ! k) = 0 \<and> \<not> fromDataset (nodes s ! k)"
    by blast
  have "nodeInv (clientInfos (nodes s ! k)) (set (drop e0 (events s1))) (nodes s1) i"
    if "i < length ns0" for i
  proof (rule nodeInv_retire [where ns = "nodes s" and E = "set (drop e0 (events s))"])
    show "nodeInv [] (set (drop e0 (events s))) (nodes s) j" if "j < length (nodes s)" for j
      using inv that len by simp
    show "k < length (nodes s)" using k len by simp
    show "remServers (nodes s ! k) = - 1
                \<or> remServers (nodes s ! k) = 0 \<and> \<not> computeInGPU (nodes s ! k)"
      by (rule ready)
    show "sameGraph (nodes s1) (nodes s)" by (rule g)
    show "map remServers (nodes s1) = (map remServers (nodes s))[k := - 2]" by (rule rs)
    show "(ComputeCUDA j \<in> set (drop e0 (events s1))) = (ComputeCUDA j \<in> set (drop e0 (events s)))" for j
      using e0 es(2) by (auto simp: es(1))
    show "(ComputeCPU j \<in> set (drop e0 (events s1)))
            = (ComputeCPU j \<in> set (drop e0 (events s))
               \<or> j = k \<and> remServers (nodes s ! k) = 0 \<and> \<not> fromDataset (nodes s ! k))" for j
      using e0 es(3) [of j] by (auto simp: es(1))
    show "sv < length (nodes s)" if "j < length (nodes s)" "sv \<in> set (serverInfos (nodes s ! j))" for j sv
      using sameGraph_valid [OF g0 valid] that len by simp
    show "count_list (serverInfos (nodes s ! j)) k = count_list (clientInfos (nodes s ! k)) j"
      if "j < length (nodes s)" for j
      using sameGraph_mutual [OF g0 mutual] that k len by simp
    show "i < length (nodes s)" using that len by simp
  qed
  moreover have "sameGraph (nodes s1) ns0" using g g0 by (rule sameGraph_trans)
  moreover have "e0 \<le> length (events s1)" using e0 by (simp add: es(1))
  ultimately show ?thesis by (simp add: schedState_def)
qed

lemma schedState_clients:
  assumes "schedState ns0 e0 rest s" and "validEdges ns0" and "k < length ns0"
    and "c \<in> set (clientInfos (nodes s ! k))"
  shows "c < length ns0"
proof -
  from assms(1) have g0: "sameGraph (nodes s) ns0" by (simp add: schedState_def)
  have "c \<in> set (clientInfos (ns0 ! k))"
    using sameGraph_nth(2) [OF g0 assms(3)] assms(4) by simp
  then show ?thesis using assms(2,3) by (auto simp: validEdges_def)
qed

lemma schedState_length: "schedState ns0 e0 rest s \<Longrightarrow> length (nodes s) = length ns0"
  by (simp add: schedState_def sameGraph_length)

lemma updNode_remServers:
  "k < length (nodes s) \<Longrightarrow>
     map remServers (nodes (updNode k (\<lambda>info. info\<lparr>remServers := v\<rparr>) s))
       = (map remServers (nodes s))[k := v]"
  by (simp add: map_update)

text \<open>
  Retiring a node: a device node whose stream is idle, and a host node that is ready,
  which is computed in the same breath unless the dataset binds it.
\<close>

lemma schedState_retired_device:
  assumes st: "schedState ns0 e0 [] s" and k: "k < length ns0"
    and valid: "validEdges ns0" and mutual: "mutualEdges ns0"
    and r: "remServers (nodes s ! k) = - 1"
  shows "schedState ns0 e0 (clientInfos (nodes s ! k))
           (updNode k (\<lambda>info. info\<lparr>remServers := - 2\<rparr>) s)"
proof -
  let ?s1 = "updNode k (\<lambda>info. info\<lparr>remServers := - 2\<rparr>) s"
  have len: "length (nodes s) = length ns0" using schedState_length [OF st] .
  show ?thesis
  proof (rule schedState_retire [OF st k valid mutual])
    show "remServers (nodes s ! k) = - 1
            \<or> remServers (nodes s ! k) = 0 \<and> \<not> computeInGPU (nodes s ! k)"
      using r by simp
    show "sameGraph (nodes ?s1) (nodes s)"
      by (simp add: sameGraph_def map_list_update_same)
    show "map remServers (nodes ?s1) = (map remServers (nodes s))[k := - 2]"
      using k len by (simp add: map_update)
    show "\<exists>es. events ?s1 = events s @ es \<and> (\<forall>j. ComputeCUDA j \<notin> set es)
             \<and> (\<forall>j. ComputeCPU j \<in> set es \<longleftrightarrow>
                    j = k \<and> remServers (nodes s ! k) = 0 \<and> \<not> fromDataset (nodes s ! k))"
      using r by (intro exI [of _ "[]"]) simp
  qed
qed

lemma schedState_retired_host:
  assumes st: "schedState ns0 e0 [] s" and k: "k < length ns0"
    and valid: "validEdges ns0" and mutual: "mutualEdges ns0"
    and ready: "remServers (nodes s ! k) = 0" "\<not> computeInGPU (nodes s ! k)"
  defines "s1 \<equiv> updNode k (\<lambda>info. info\<lparr>remServers := - 2\<rparr>) s"
  shows "schedState ns0 e0 (clientInfos (nodes s ! k))
           (if \<not> fromDataset (nodes s1 ! k) then computeCPUNode K k s1 else s1)"
proof -
  let ?s2 = "if \<not> fromDataset (nodes s1 ! k) then computeCPUNode K k s1 else s1"
  have len: "length (nodes s) = length ns0" using schedState_length [OF st] .
  have fd: "fromDataset (nodes s1 ! k) = fromDataset (nodes s ! k)"
    using k len by (simp add: s1_def)
  show ?thesis
  proof (rule schedState_retire [OF st k valid mutual])
    show "remServers (nodes s ! k) = - 1
              \<or> remServers (nodes s ! k) = 0 \<and> \<not> computeInGPU (nodes s ! k)"
      using ready by simp
    show "sameGraph (nodes ?s2) (nodes s)"
      by (simp add: s1_def sameGraph_def computeCPUNode_map map_list_update_same)
    show "map remServers (nodes ?s2) = (map remServers (nodes s))[k := - 2]"
      using k len by (simp add: s1_def computeCPUNode_map map_update)
    show "\<exists>es. events ?s2 = events s @ es \<and> (\<forall>j. ComputeCUDA j \<notin> set es)
               \<and> (\<forall>j. ComputeCPU j \<in> set es \<longleftrightarrow>
                      j = k \<and> remServers (nodes s ! k) = 0 \<and> \<not> fromDataset (nodes s ! k))"
    proof (cases "fromDataset (nodes s ! k)")
      case True
      then show ?thesis using fd by (intro exI [of _ "[]"]) (simp add: s1_def)
    next
      case False
      then show ?thesis
        using fd ready(1)
        by (intro exI [of _ "(if outputSize (nodes s1 ! k) \<noteq> 1 \<and> \<not> hasLogged (nodes s1 ! k)
                                   \<and> batchMode s1 = Cuda then [LogNoCuda k] else [])
                             @ [ComputeCPU k]"])
           (auto simp: computeCPUNode_events s1_def)
    qed
  qed
qed

lemma schedState_finishGPUNode:
  assumes st: "schedState ns0 e0 [] s" and k: "k < length ns0"
    and valid: "validEdges ns0" and mutual: "mutualEdges ns0"
  shows "schedState ns0 e0 [] (finishGPUNode active K k s)"
proof (cases "remServers (nodes s ! k) = - 1")
  case False
  then show ?thesis using st by (simp add: finishGPUNode_def)
next
  case True
  let ?s0 = "s\<lparr>streamQueries := streamQueries s + 1\<rparr>"
  have st0: "schedState ns0 e0 [] ?s0"
    using st by (simp add: schedState_def)
  show ?thesis
  proof (cases "active (streamQueries s) k")
    case active: True
    then show ?thesis using st0 True by (simp add: finishGPUNode_def Let_def)
  next
    case idle: False
    let ?s1 = "updNode k (\<lambda>info. info\<lparr>remServers := - 2\<rparr>) ?s0"
    let ?s2 = "fold (notifyClientGPU K) (clientInfos (nodes ?s1 ! k)) ?s1"
    have len: "length (nodes s) = length ns0" using schedState_length [OF st] .
    have eq: "finishGPUNode active K k s = fold releaseServer (serverInfos (nodes ?s2 ! k)) ?s2"
      using True idle by (simp add: finishGPUNode_def Let_def)
    have cl: "clientInfos (nodes ?s1 ! k) = clientInfos (nodes ?s0 ! k)"
      using k len by simp
    have "schedState ns0 e0 (clientInfos (nodes ?s0 ! k)) ?s1"
      by (rule schedState_retired_device [OF st0 k valid mutual]) (use True in simp)
    then have "schedState ns0 e0 [] ?s2"
      unfolding cl
      by (rule schedState_notify_all) (use schedState_clients [OF st0 valid k] valid in auto)
    then show ?thesis
      unfolding eq using valid by (rule schedState_release)
  qed
qed

lemma schedState_finish_all:
  assumes "schedState ns0 e0 [] s" and "\<And>k. k \<in> set ks \<Longrightarrow> k < length ns0"
    and "validEdges ns0" and "mutualEdges ns0"
  shows "schedState ns0 e0 [] (fold (finishGPUNode active K) ks s)"
  using assms(1,2)
proof (induction ks arbitrary: s)
  case Nil
  then show ?case by simp
next
  case (Cons k ks)
  have "schedState ns0 e0 [] (finishGPUNode active K k s)"
    using Cons.prems by (intro schedState_finishGPUNode assms(3,4)) simp_all
  then show ?case using Cons.IH Cons.prems(2) by simp
qed

lemma schedState_runCPUNode:
  assumes st: "schedState ns0 e0 [] s" and k: "k < length ns0"
    and valid: "validEdges ns0" and mutual: "mutualEdges ns0"
    and ready: "remServers (nodes s ! k) = 0" "\<not> computeInGPU (nodes s ! k)"
  shows "schedState ns0 e0 [] (runCPUNode K k s)"
proof -
  let ?s1 = "updNode k (\<lambda>info. info\<lparr>remServers := - 2\<rparr>) s"
  let ?s2 = "if \<not> fromDataset (nodes ?s1 ! k) then computeCPUNode K k ?s1 else ?s1"
  let ?s3 = "fold (notifyClientGPU K) (clientInfos (nodes ?s2 ! k)) ?s2"
  have len: "length (nodes s) = length ns0" using schedState_length [OF st] .
  have same: "notifyClientCPU K = notifyClientGPU K"
    by (rule ext)+ (rule notifyClientCPU_eq)
  have eq: "runCPUNode K k s = fold releaseServer (serverInfos (nodes ?s3 ! k)) ?s3"
    by (simp add: runCPUNode_def Let_def same)
  have g2: "sameGraph (nodes ?s2) (nodes s)"
    by (simp add: sameGraph_def computeCPUNode_map map_list_update_same)
  have cl: "clientInfos (nodes ?s2 ! k) = clientInfos (nodes s ! k)"
    using sameGraph_nth(2) [OF g2, of k] k len by simp
  have "schedState ns0 e0 (clientInfos (nodes s ! k)) ?s2"
    by (rule schedState_retired_host [OF st k valid mutual ready])
  then have "schedState ns0 e0 [] ?s3"
    unfolding cl
    by (rule schedState_notify_all) (use schedState_clients [OF st valid k] valid in auto)
  then show ?thesis
    unfolding eq using valid by (rule schedState_release)
qed

lemma nextCPUNode_Some:
  assumes "nextCPUNode s = Some k"
  shows "k < length (nodes s)" "remServers (nodes s ! k) = 0" "\<not> computeInGPU (nodes s ! k)"
    "\<And>j. j < k \<Longrightarrow> \<not> (remServers (nodes s ! j) = 0 \<and> \<not> computeInGPU (nodes s ! j))"
  using assms unfolding nextCPUNode_def find_Some_iff by auto

lemma schedState_step:
  assumes st: "schedState ns0 e0 [] s" and valid: "validEdges ns0" and mutual: "mutualEdges ns0"
  shows "schedState ns0 e0 [] (schedulerStep active K s)"
proof -
  let ?s1 = "fold (finishGPUNode active K) [0..<length (nodes s)] s"
  have len: "length (nodes s) = length ns0" using schedState_length [OF st] .
  have st1: "schedState ns0 e0 [] ?s1"
    using st by (rule schedState_finish_all) (simp_all add: len valid mutual)
  show ?thesis
  proof (cases "nextCPUNode ?s1")
    case None
    have "schedState ns0 e0 [] (logEvent Sleep ?s1)"
      using st1 valid by (rule schedState_cong) (simp_all add: exI [of _ "[Sleep]"])
    then show ?thesis using None by (simp add: schedulerStep_def Let_def)
  next
    case (Some k)
    note n = nextCPUNode_Some [OF Some]
    have "k < length ns0" using n(1) schedState_length [OF st1] by simp
    then have "schedState ns0 e0 [] (runCPUNode K k ?s1)"
      using st1 valid mutual n(2,3) by (intro schedState_runCPUNode) simp_all
    then show ?thesis using Some by (simp add: schedulerStep_def Let_def)
  qed
qed

text \<open>Launching a device node whose servers are all retired keeps the invariant.\<close>

lemma nodeInv_launch:
  fixes ns ns' :: "'v NodeInfo list"
  assumes inv: "\<And>j. j < length ns \<Longrightarrow> nodeInv [] E ns j"
    and k: "k < length ns"
    and ready: "remServers (ns ! k) = 0" "computeInGPU (ns ! k)"
    and g: "sameGraph ns' ns"
    and rs: "map remServers ns' = (map remServers ns)[k := - 1]"
    and cuda: "\<And>j. ComputeCUDA j \<in> E' \<longleftrightarrow> ComputeCUDA j \<in> E \<or> j = k"
    and cpu: "\<And>j. ComputeCPU j \<in> E' \<longleftrightarrow> ComputeCPU j \<in> E"
    and valid: "\<And>j sv. j < length ns \<Longrightarrow> sv \<in> set (serverInfos (ns ! j)) \<Longrightarrow> sv < length ns"
    and i: "i < length ns"
  shows "nodeInv [] E' ns' i"
proof -
  note r = map_remServers_nth [OF rs]
  note gi = sameGraph_nth [OF g i]
  have same: "(remServers (ns' ! sv) = - 2) = (remServers (ns ! sv) = - 2)" if "sv < length ns" for sv
    using r [OF that] ready(1) by auto
  have pend: "pending ns' i = pending ns i"
    by (rule pending_cong) (use gi(1) valid [OF i] same in auto)
  show ?thesis
  proof (cases "i = k")
    case True
    then show ?thesis
      using inv [OF k] r [OF k] ready pend gi cuda [of k] cpu [of k]
      by (auto simp: nodeInv_def)
  next
    case False
    then show ?thesis
      using inv [OF i] r [OF i] pend gi cuda [of i] cpu [of i]
      by (auto simp: nodeInv_def)
  qed
qed

lemma schedState_launch:
  assumes st: "schedState ns0 e0 [] s" and k: "k < length ns0" and valid: "validEdges ns0"
    and ready: "remServers (nodes s ! k) = 0" "computeInGPU (nodes s ! k)"
  shows "schedState ns0 e0 [] (assignToGPU K k s)"
proof -
  let ?s' = "assignToGPU K k s"
  from st have g0: "sameGraph (nodes s) ns0" and e0: "e0 \<le> length (events s)"
    and inv: "\<And>i. i < length ns0 \<Longrightarrow> nodeInv [] (set (drop e0 (events s))) (nodes s) i"
    by (simp_all add: schedState_def)
  have len: "length (nodes s) = length ns0" using sameGraph_length [OF g0] .
  have g': "sameGraph (nodes ?s') (nodes s)"
    by (simp add: sameGraph_def assignToGPU_map)
  have "nodeInv [] (set (drop e0 (events ?s'))) (nodes ?s') i" if "i < length ns0" for i
  proof (rule nodeInv_launch [where k = k and ns = "nodes s" and E = "set (drop e0 (events s))"])
    show "nodeInv [] (set (drop e0 (events s))) (nodes s) j" if "j < length (nodes s)" for j
      using inv that len by simp
    show "k < length (nodes s)" using k len by simp
    show "remServers (nodes s ! k) = 0" "computeInGPU (nodes s ! k)" by (rule ready)+
    show "sameGraph (nodes ?s') (nodes s)" by (rule g')
    show "map remServers (nodes ?s') = (map remServers (nodes s))[k := - 1]"
      using k len by (simp add: assignToGPU_remServers)
    show "(ComputeCUDA j \<in> set (drop e0 (events ?s')))
            = (ComputeCUDA j \<in> set (drop e0 (events s)) \<or> j = k)" for j
      using e0 by auto
    show "(ComputeCPU j \<in> set (drop e0 (events ?s'))) = (ComputeCPU j \<in> set (drop e0 (events s)))" for j
      using e0 by auto
    show "sv < length (nodes s)" if "j < length (nodes s)" "sv \<in> set (serverInfos (nodes s ! j))" for j sv
      using sameGraph_valid [OF g0 valid] that len by simp
    show "i < length (nodes s)" using that len by simp
  qed
  moreover have "sameGraph (nodes ?s') ns0" using g' g0 by (rule sameGraph_trans)
  moreover have "e0 \<le> length (events ?s')" using e0 by simp
  ultimately show ?thesis by (simp add: schedState_def)
qed

lemma schedState_resetCounters:
  assumes valid: "validEdges (nodes s)"
  shows "schedState (nodes s) (length (events s)) [] (resetCounters s)"
proof -
  define ns where "ns = nodes (resetCounters s)"
  have nth: "ns ! i = (nodes s ! i)\<lparr>remClients := int (length (clientInfos (nodes s ! i))),
                                      remServers := int (length (serverInfos (nodes s ! i))),
                                      buffer := None\<rparr>" if "i < length (nodes s)" for i
    using that by (simp add: ns_def resetCounters_def)
  have ev: "events (resetCounters s) = events s"
    by (simp add: resetCounters_def)
  have g: "sameGraph ns (nodes s)"
    by (simp add: ns_def sameGraph_def resetCounters_def)
  have "nodeInv [] (set (drop (length (events s)) (events (resetCounters s)))) ns i"
    if i: "i < length (nodes s)" for i
  proof -
    have "filter (\<lambda>sv. remServers (ns ! sv) \<noteq> - 2) (serverInfos (nodes s ! i))
            = serverInfos (nodes s ! i)"
    proof (rule filter_True, rule ballI)
      fix sv assume "sv \<in> set (serverInfos (nodes s ! i))"
      then have "sv < length (nodes s)" using valid i by (auto simp: validEdges_def)
      then show "remServers (ns ! sv) \<noteq> - 2" by (simp add: nth)
    qed
    then have p: "pending ns i = int (length (serverInfos (nodes s ! i)))"
      by (simp add: pending_def nth [OF i])
    have r: "remServers (ns ! i) = int (length (serverInfos (nodes s ! i)))"
      by (simp add: nth [OF i])
    show ?thesis
      unfolding nodeInv_def ev p r by simp
  qed
  then show ?thesis
    using g unfolding schedState_def ns_def ev by simp
qed

lemma schedState_assign_all:
  assumes "schedState ns0 e0 [] s" and "\<And>k. k \<in> set ks \<Longrightarrow> k < length ns0"
    and "validEdges ns0"
  shows "schedState ns0 e0 []
           (fold (\<lambda>i s. if remServers (nodes s ! i) = 0 \<and> computeInGPU (nodes s ! i)
                         then assignToGPU K i s else s) ks s)"
  using assms(1,2)
proof (induction ks arbitrary: s)
  case Nil
  then show ?case by simp
next
  case (Cons k ks)
  have "schedState ns0 e0 []
          (if remServers (nodes s ! k) = 0 \<and> computeInGPU (nodes s ! k)
           then assignToGPU K k s else s)"
    using Cons.prems schedState_launch [OF Cons.prems(1) _ assms(3), of k K] by simp
  then show ?case using Cons.IH Cons.prems(2) by simp
qed

lemma schedState_initial:
  assumes "validEdges (nodes s)"
  shows "schedState (nodes s) (length (events s)) [] (assignInitial K (resetCounters s))"
proof -
  have "length (nodes (resetCounters s)) = length (nodes s)"
    by (simp add: resetCounters_def)
  then show ?thesis
    unfolding assignInitial_def
    using schedState_resetCounters [OF assms] assms
    by (intro schedState_assign_all) simp_all
qed

subsection \<open>The loop\<close>

lemma schedState_iterate:
  assumes "schedState ns0 e0 [] s" and "validEdges ns0" and "mutualEdges ns0"
  shows "schedState ns0 e0 [] ((schedulerStep active K ^^ m) s)"
  by (induction m) (simp_all add: assms schedState_step)

text \<open>
  The loop returns after exactly as many steps as it takes for the top node to be
  retired.
\<close>

lemma schedulerLoop_Some_iff:
  "schedulerLoop fuel active K s = Some s' \<longleftrightarrow>
     (\<exists>m < fuel. s' = (schedulerStep active K ^^ m) s
        \<and> remServers (last (nodes s')) = - 2
        \<and> (\<forall>m' < m. remServers (last (nodes ((schedulerStep active K ^^ m') s))) \<noteq> - 2))"
proof (induction fuel arbitrary: s)
  case 0
  then show ?case by simp
next
  case (Suc fuel)
  show ?case
  proof (cases "remServers (last (nodes s)) = - 2")
    case True
    have "(\<exists>m < Suc fuel. s' = (schedulerStep active K ^^ m) s
        \<and> remServers (last (nodes s')) = - 2
        \<and> (\<forall>m' < m. remServers (last (nodes ((schedulerStep active K ^^ m') s))) \<noteq> - 2))
        \<longleftrightarrow> s' = s"
    proof
      assume "\<exists>m < Suc fuel. s' = (schedulerStep active K ^^ m) s
        \<and> remServers (last (nodes s')) = - 2
        \<and> (\<forall>m' < m. remServers (last (nodes ((schedulerStep active K ^^ m') s))) \<noteq> - 2)"
      then obtain m where m: "s' = (schedulerStep active K ^^ m) s"
        "\<forall>m' < m. remServers (last (nodes ((schedulerStep active K ^^ m') s))) \<noteq> - 2"
        by blast
      have "m = 0"
      proof (rule ccontr)
        assume "m \<noteq> 0"
        then have "0 < m" by simp
        then show False using m(2) True by auto
      qed
      then show "s' = s" using m(1) by simp
    next
      assume "s' = s"
      then show "\<exists>m < Suc fuel. s' = (schedulerStep active K ^^ m) s
        \<and> remServers (last (nodes s')) = - 2
        \<and> (\<forall>m' < m. remServers (last (nodes ((schedulerStep active K ^^ m') s))) \<noteq> - 2)"
        using True by (intro exI [of _ 0]) simp
    qed
    then show ?thesis using True by auto
  next
    case False
    let ?t = "schedulerStep active K s"
    have "(\<exists>m < Suc fuel. s' = (schedulerStep active K ^^ m) s
        \<and> remServers (last (nodes s')) = - 2
        \<and> (\<forall>m' < m. remServers (last (nodes ((schedulerStep active K ^^ m') s))) \<noteq> - 2))
      \<longleftrightarrow> (\<exists>m < fuel. s' = (schedulerStep active K ^^ m) ?t
        \<and> remServers (last (nodes s')) = - 2
        \<and> (\<forall>m' < m. remServers (last (nodes ((schedulerStep active K ^^ m') ?t))) \<noteq> - 2))"
      (is "?L \<longleftrightarrow> ?R")
    proof
      assume ?L
      then obtain m where m: "m < Suc fuel" "s' = (schedulerStep active K ^^ m) s"
        "remServers (last (nodes s')) = - 2"
        "\<forall>m' < m. remServers (last (nodes ((schedulerStep active K ^^ m') s))) \<noteq> - 2"
        by blast
      have "m \<noteq> 0"
      proof
        assume "m = 0"
        then show False using m(2,3) False by simp
      qed
      then obtain k where k: "m = Suc k" by (cases m) auto
      have "\<forall>m' < k. remServers (last (nodes ((schedulerStep active K ^^ m') ?t))) \<noteq> - 2"
        using m(4) unfolding k by (metis Suc_less_eq funpow_Suc_right o_apply)
      then show ?R
        using m(1-3) unfolding k by (intro exI [of _ k]) (simp add: funpow_swap1)
    next
      assume ?R
      then obtain k where k: "k < fuel" "s' = (schedulerStep active K ^^ k) ?t"
        "remServers (last (nodes s')) = - 2"
        "\<forall>m' < k. remServers (last (nodes ((schedulerStep active K ^^ m') ?t))) \<noteq> - 2"
        by blast
      have "remServers (last (nodes ((schedulerStep active K ^^ m') s))) \<noteq> - 2"
        if "m' < Suc k" for m'
      proof (cases m')
        case 0
        then show ?thesis using False by simp
      next
        case (Suc j)
        then show ?thesis using k(4) that by (simp add: funpow_swap1)
      qed
      then show ?L
        using k(1-3) by (intro exI [of _ "Suc k"]) (simp add: funpow_swap1)
    qed
    then show ?thesis using False Suc.IH [of ?t] by simp
  qed
qed

lemma withServers_sound:
  assumes "\<And>x. x \<in> set xs \<Longrightarrow> x < length ns \<and> (x, t) \<in> (serverRel ns)\<^sup>*"
    and "validEdges ns" and "j \<in> set (withServers ns k xs)"
  shows "(j, t) \<in> (serverRel ns)\<^sup>*"
  using assms(1,3)
proof (induction k arbitrary: xs)
  case 0
  then show ?case by simp
next
  case (Suc k)
  have step: "x < length ns \<and> (x, t) \<in> (serverRel ns)\<^sup>*"
    if mem: "x \<in> set (xs @ concat (map (\<lambda>i. serverInfos (ns ! i)) xs))" for x
  proof (cases "x \<in> set xs")
    case True
    then show ?thesis using Suc.prems(1) by simp
  next
    case False
    then obtain i where i: "i \<in> set xs" "x \<in> set (serverInfos (ns ! i))"
      using mem by auto
    have il: "i < length ns" and it: "(i, t) \<in> (serverRel ns)\<^sup>*"
      using Suc.prems(1) [OF i(1)] by simp_all
    have "(x, i) \<in> serverRel ns" using i(2) il by (simp add: serverRel_def)
    moreover have "x < length ns"
      using assms(2) il i(2) by (auto simp: validEdges_def)
    ultimately show ?thesis using it by (meson converse_rtrancl_into_rtrancl)
  qed
  have "j \<in> set (withServers ns k (xs @ concat (map (\<lambda>i. serverInfos (ns ! i)) xs)))"
    using Suc.prems(2) by simp
  with step show ?case by (rule Suc.IH)
qed

lemma feedsTop_by_search:
  assumes "validEdges ns" and "ns \<noteq> []"
    and "\<forall>i \<in> set [0..<length ns]. i \<in> set (withServers ns (length ns) [length ns - 1])"
  shows "feedsTop ns"
proof -
  have "(i, length ns - 1) \<in> (serverRel ns)\<^sup>*" if "i < length ns" for i
  proof (rule withServers_sound [OF _ assms(1)])
    show "i \<in> set (withServers ns (length ns) [length ns - 1])"
      using assms(3) that by simp
    show "x < length ns \<and> (x, length ns - 1) \<in> (serverRel ns)\<^sup>*"
      if "x \<in> set [length ns - 1]" for x
      using that assms(2) by simp
  qed
  then show ?thesis using assms(2) by (simp add: feedsTop_def)
qed

subsection \<open>When the top node is retired\<close>

lemma retired_servers:
  assumes st: "schedState ns0 e0 [] t" and z: "z < length ns0"
    and r: "remServers (nodes t ! z) < 0" and y: "y \<in> set (serverInfos (ns0 ! z))"
  shows "remServers (nodes t ! y) = - 2"
proof -
  from st have g: "sameGraph (nodes t) ns0"
    and inv: "nodeInv [] (set (drop e0 (events t))) (nodes t) z"
    using z by (simp_all add: schedState_def)
  have "pending (nodes t) z = 0"
    using inv r by (auto simp: nodeInv_def)
  then show ?thesis
    using y sameGraph_nth(1) [OF g z] by (simp add: pending_zero_iff)
qed

lemma top_retired_all_retired:
  assumes st: "schedState ns0 e0 [] t" and top: "feedsTop ns0"
    and r: "remServers (last (nodes t)) = - 2"
  shows "\<forall>info \<in> set (nodes t). remServers info = - 2"
proof -
  have len: "length (nodes t) = length ns0" using schedState_length [OF st] .
  have ne: "nodes t \<noteq> []" using top len by (auto simp: feedsTop_def)
  have rt: "remServers (nodes t ! (length ns0 - 1)) = - 2"
    using r ne len by (simp add: last_conv_nth)
  have "remServers (nodes t ! i) = - 2" if "i < length ns0" for i
  proof -
    have "(i, length ns0 - 1) \<in> (serverRel ns0)\<^sup>*"
      using top that by (simp add: feedsTop_def)
    then show ?thesis
    proof (induction rule: converse_rtrancl_induct)
      case base
      then show ?case by (rule rt)
    next
      case (step y z)
      then have "z < length ns0" "y \<in> set (serverInfos (ns0 ! z))"
        by (simp_all add: serverRel_def)
      then show ?case using retired_servers [OF st, of z y] step.IH by simp
    qed
  qed
  then show ?thesis using len by (auto simp: in_set_conv_nth)
qed

lemma getVal_device:
  assumes "batchMode s = Cuda"
  shows "getVal fuel active K counter s =
           map_option (\<lambda>s'. (topValue s', s'))
             (schedulerLoop fuel active K
                (assignInitial K (resetCounters (s\<lparr>getValInvocations := getValInvocations s + 1\<rparr>))))"
  using assms by (simp add: getVal_def getValHeterogeneous_def Let_def)

text \<open>
  Claim C7. Device mode, on a graph that satisfies the data-model invariants and consists
  of the top node and its transitive servers. \<^verbatim>\<open>getVal\<close> returns iff after some number
  of steps of the scheduler every node has \<^verbatim>\<open>remServers = -2\<close>; and whenever the top
  node has reached -2, every node has.
\<close>

theorem getVal_device_returns_iff_all_retired:
  fixes s :: "'v RooFitDriver" and K :: "'v Kernel" and active :: "nat \<Rightarrow> nat \<Rightarrow> bool"
    and counter :: "nat \<Rightarrow> 64 word"
  assumes wf: "wellFormed (nodes s)" and top: "feedsTop (nodes s)" and dev: "batchMode s = Cuda"
  defines "start \<equiv> assignInitial K (resetCounters (s\<lparr>getValInvocations := getValInvocations s + 1\<rparr>))"
  shows "((\<exists>fuel r. getVal fuel active K counter s = Some r) \<longleftrightarrow>
            (\<exists>m. \<forall>info \<in> set (nodes ((schedulerStep active K ^^ m) start)).
                   remServers info = - 2))
       \<and> (\<forall>m. remServers (last (nodes ((schedulerStep active K ^^ m) start))) = - 2 \<longrightarrow>
                (\<forall>info \<in> set (nodes ((schedulerStep active K ^^ m) start)).
                   remServers info = - 2))"
proof -
  let ?s0 = "s\<lparr>getValInvocations := getValInvocations s + 1\<rparr>"
  let ?it = "\<lambda>m. (schedulerStep active K ^^ m) start"
  have valid: "validEdges (nodes s)" and mutual: "mutualEdges (nodes s)"
    using wf by (simp_all add: wellFormed_def)
  have "schedState (nodes ?s0) (length (events ?s0)) [] start"
    unfolding start_def by (rule schedState_initial) (use valid in simp)
  then have st: "schedState (nodes s) (length (events s)) [] (?it m)" for m
    using valid mutual by (intro schedState_iterate) simp_all
  have all: "\<forall>info \<in> set (nodes (?it m)). remServers info = - 2"
    if "remServers (last (nodes (?it m))) = - 2" for m
    using st top that by (rule top_retired_all_retired)
  have ne: "nodes (?it m) \<noteq> []" for m
    using schedState_length [OF st [of m]] top by (auto simp: feedsTop_def)
  have "(\<exists>fuel r. getVal fuel active K counter s = Some r) \<longleftrightarrow>
            (\<exists>m. \<forall>info \<in> set (nodes (?it m)). remServers info = - 2)"
  proof
    assume "\<exists>fuel r. getVal fuel active K counter s = Some r"
    then obtain fuel s' where "schedulerLoop fuel active K start = Some s'"
      by (auto simp: getVal_device [OF dev] start_def)
    then obtain m where "s' = ?it m" "remServers (last (nodes s')) = - 2"
      unfolding schedulerLoop_Some_iff by blast
    then show "\<exists>m. \<forall>info \<in> set (nodes (?it m)). remServers info = - 2"
      using all [of m] by blast
  next
    assume "\<exists>m. \<forall>info \<in> set (nodes (?it m)). remServers info = - 2"
    then obtain m where "\<forall>info \<in> set (nodes (?it m)). remServers info = - 2" by blast
    then have ex: "remServers (last (nodes (?it m))) = - 2"
      using ne [of m] by simp
    define m0 where "m0 = (LEAST m. remServers (last (nodes (?it m))) = - 2)"
    have m0: "remServers (last (nodes (?it m0))) = - 2"
      unfolding m0_def using ex by (rule LeastI)
    have least: "remServers (last (nodes (?it m'))) \<noteq> - 2" if "m' < m0" for m'
      using that not_less_Least unfolding m0_def by blast
    have L: "schedulerLoop (Suc m0) active K start = Some (?it m0)"
      unfolding schedulerLoop_Some_iff using m0 least by (intro exI [of _ m0]) simp
    have "getVal (Suc m0) active K counter s
            = map_option (\<lambda>s'. (topValue s', s')) (schedulerLoop (Suc m0) active K start)"
      unfolding start_def by (rule getVal_device [OF dev])
    then have "getVal (Suc m0) active K counter s = Some (topValue (?it m0), ?it m0)"
      by (simp only: L option.map)
    then show "\<exists>fuel r. getVal fuel active K counter s = Some r"
      by blast
  qed
  then show ?thesis using all by blast
qed

text \<open>
  The example in CUDA mode: \<open>p\<close> runs on the host, \<open>f\<close> and \<open>top\<close> on the device;
  the evaluation returns 12 after the scheduler has slept three times.
\<close>

lemma example_device_facts:
  "wellFormed (nodes (exampleBound Cuda))" "feedsTop (nodes (exampleBound Cuda))"
  "batchMode (exampleBound Cuda) = Cuda"
proof -
  show wf: "wellFormed (nodes (exampleBound Cuda))" by code_simp
  show "batchMode (exampleBound Cuda) = Cuda" by code_simp
  show "feedsTop (nodes (exampleBound Cuda))"
  proof (rule feedsTop_by_search)
    show "validEdges (nodes (exampleBound Cuda))" using wf by (simp add: wellFormed_def)
    show "nodes (exampleBound Cuda) \<noteq> []" by code_simp
    show "\<forall>i \<in> set [0..<length (nodes (exampleBound Cuda))].
            i \<in> set (withServers (nodes (exampleBound Cuda)) (length (nodes (exampleBound Cuda)))
                       [length (nodes (exampleBound Cuda)) - 1])"
      by code_simp
  qed
qed

lemma example_device_eval:
  "getVal 10 exampleActive (exampleKernel 2) (\<lambda>i. 0) (exampleBound Cuda)
     = Some (Inr 12, exampleDeviceEval)"
proof -
  have "case getVal 10 exampleActive (exampleKernel 2) (\<lambda>i. 0) (exampleBound Cuda) of
          None \<Rightarrow> False | Some (r, s') \<Rightarrow> r = Inr 12"
    by code_simp
  then show ?thesis
    by (auto simp: exampleDeviceEval_def split: option.splits)
qed


theorem getVal_device_returns_iff_all_retired_witness:
  "wellFormed (nodes (exampleBound Cuda)) \<and> feedsTop (nodes (exampleBound Cuda))
   \<and> batchMode (exampleBound Cuda) = Cuda
   \<and> getVal 10 exampleActive (exampleKernel 2) (\<lambda>i. 0) (exampleBound Cuda)
       = Some (Inr 12, exampleDeviceEval)
   \<and> (\<exists>m. \<forall>info \<in> set (nodes ((schedulerStep exampleActive (exampleKernel 2) ^^ m)
              (assignInitial (exampleKernel 2)
                (resetCounters ((exampleBound Cuda)
                   \<lparr>getValInvocations := getValInvocations (exampleBound Cuda) + 1\<rparr>))))).
          remServers info = - 2)"
  using getVal_device_returns_iff_all_retired
          [OF example_device_facts, of exampleActive "exampleKernel 2" "\<lambda>i. 0"]
    example_device_facts example_device_eval
  by blast

subsection \<open>Fields the scheduler leaves alone\<close>

lemma schedStatic_fields [simp]:
  "schedStatic lastSetValCount" "schedStatic isDirty" "schedStatic fromDataset"
  "schedStatic outputSize" "schedStatic copyAfterEvaluation" "schedStatic computeInGPU"
  "schedStatic serverInfos" "schedStatic clientInfos"
  by (simp_all add: schedStatic_def)

lemma resetCounters_map:
  "schedStatic f \<Longrightarrow> map f (nodes (resetCounters s)) = map f (nodes s)"
  by (simp add: schedStatic_def resetCounters_def)

lemma assignInitial_map:
  assumes "schedStatic f"
  shows "map f (nodes (assignInitial K s)) = map f (nodes s)"
  unfolding assignInitial_def
  by (rule fold_preserves) (use assms in \<open>simp add: schedStatic_def assignToGPU_map\<close>)

lemma finishGPUNode_map:
  assumes "schedStatic f"
  shows "map f (nodes (finishGPUNode active K k s)) = map f (nodes s)"
proof -
  have n: "map f (nodes (fold (notifyClientGPU K) cs t)) = map f (nodes t)" for cs t
    by (rule fold_preserves) (use assms in \<open>simp add: schedStatic_def notifyClientGPU_map\<close>)
  have r: "map f (nodes (fold releaseServer svs t)) = map f (nodes t)" for svs t
    using assms by (simp add: schedStatic_def fold_releaseServer_map)
  show ?thesis
    using assms by (simp add: finishGPUNode_def Let_def n r map_list_update_same schedStatic_def)
qed

lemma runCPUNode_map:
  assumes "schedStatic f"
  shows "map f (nodes (runCPUNode K k s)) = map f (nodes s)"
proof -
  have same: "notifyClientCPU K = notifyClientGPU K"
    by (rule ext)+ (rule notifyClientCPU_eq)
  have n: "map f (nodes (fold (notifyClientGPU K) cs t)) = map f (nodes t)" for cs t
    by (rule fold_preserves) (use assms in \<open>simp add: schedStatic_def notifyClientGPU_map\<close>)
  have r: "map f (nodes (fold releaseServer svs t)) = map f (nodes t)" for svs t
    using assms by (simp add: schedStatic_def fold_releaseServer_map)
  show ?thesis
    using assms
    by (simp add: runCPUNode_def Let_def same n r computeCPUNode_map map_list_update_same
        schedStatic_def)
qed

lemma schedulerStep_map:
  assumes "schedStatic f"
  shows "map f (nodes (schedulerStep active K s)) = map f (nodes s)"
proof -
  have "map f (nodes (fold (finishGPUNode active K) ks t)) = map f (nodes t)" for ks t
    by (rule fold_preserves) (rule finishGPUNode_map [OF assms])
  then show ?thesis
    by (simp add: schedulerStep_def Let_def runCPUNode_map [OF assms] split: option.splits)
qed

lemma schedulerLoop_map:
  assumes "schedStatic f"
  shows "schedulerLoop fuel active K s = Some s' \<Longrightarrow> map f (nodes s') = map f (nodes s)"
  by (induction fuel arbitrary: s) (auto simp: schedulerStep_map [OF assms] split: if_splits)

lemma schedulerLoop_batchMode:
  "schedulerLoop fuel active K s = Some s' \<Longrightarrow> batchMode s' = batchMode s"
proof (induction fuel arbitrary: s)
  case 0
  then show ?case by simp
next
  case (Suc fuel)
  have f: "batchMode (fold (finishGPUNode active K) ks t) = batchMode t" for ks t
    by (rule fold_preserves)
       (simp add: finishGPUNode_def Let_def
          fold_preserves [of batchMode "notifyClientGPU K"])
  have "batchMode (schedulerStep active K s) = batchMode s"
    by (simp add: schedulerStep_def Let_def f runCPUNode_def notifyClientCPU_eq
        fold_preserves [of batchMode "notifyClientGPU K"]
        fold_preserves [of batchMode "notifyClientCPU K"] split: option.splits)
  then show ?case using Suc by (auto split: if_splits)
qed

section \<open>Termination of the device scheduler\<close>

subsection \<open>The work that is left\<close>

lemma sum_list_update_int:
  fixes xs :: "int list"
  shows "i < length xs \<Longrightarrow> sum_list (xs[i := y]) = sum_list xs + y - xs ! i"
proof (induction xs arbitrary: i)
  case Nil
  then show ?case by simp
next
  case (Cons x xs)
  then show ?case by (cases i) simp_all
qed

lemma load_update: "c < length rs \<Longrightarrow> load (rs[c := v]) = load rs + effort v - effort (rs ! c)"
  by (simp add: load_def map_update sum_list_update_int)

lemma effort_mono: "a \<le> b \<Longrightarrow> effort a \<le> effort b"
  by (simp add: effort_def)

lemma effort_nonneg: "0 \<le> effort r"
  by (simp add: effort_def)

lemma load_nonneg: "0 \<le> load rs"
  unfolding load_def by (rule sum_list_nonneg) (auto simp: effort_nonneg)

lemma workLeft_nonneg: "0 \<le> workLeft Q s"
  using load_nonneg [of "map remServers (nodes s)"] by (simp add: workLeft_def)

lemma workLeft_fields [simp]:
  "workLeft Q (logEvent e s) = workLeft Q s"
  by (simp add: workLeft_def)

lemma notifyClientGPU_load:
  assumes "c < length (nodes s)"
  shows "load (map remServers (nodes (notifyClientGPU K c s))) \<le> load (map remServers (nodes s))"
proof -
  have "effort (if launches (nodes s) c then - 1 else remServers (nodes s ! c) - 1)
          \<le> effort (remServers (nodes s ! c))"
    by (auto simp: launches_def effort_def)
  then show ?thesis
    using assms by (simp add: notifyClientGPU_remServers load_update)
qed

lemma fold_notifyClientGPU_work:
  assumes "\<And>c. c \<in> set cs \<Longrightarrow> c < length (nodes s)"
  shows "workLeft Q (fold (notifyClientGPU K) cs s) \<le> workLeft Q s"
  using assms
proof (induction cs arbitrary: s)
  case Nil
  then show ?case by simp
next
  case (Cons c cs)
  have "workLeft Q (notifyClientGPU K c s) \<le> workLeft Q s"
    using notifyClientGPU_load [of c s K] Cons.prems by (simp add: workLeft_def)
  moreover have "workLeft Q (fold (notifyClientGPU K) cs (notifyClientGPU K c s))
                   \<le> workLeft Q (notifyClientGPU K c s)"
    using Cons.prems by (intro Cons.IH) simp
  ultimately show ?case by simp
qed

lemma fold_releaseServer_work [simp]:
  "workLeft Q (fold releaseServer svs s) = workLeft Q s"
  by (simp add: workLeft_def fold_releaseServer_map)

lemma fold_notifyClientGPU_length [simp]:
  "length (nodes (fold (notifyClientGPU K) cs s)) = length (nodes s)"
  by (rule fold_preserves) simp

text \<open>
  The scan of one node for a finished device computation: it changes nothing unless the
  node is on the device, and then it retires the node or uses up a query.
\<close>

lemma finishGPUNode_work:
  assumes st: "schedState ns0 e0 [] s" and valid: "validEdges ns0" and k0: "k < length ns0"
    and fair: "\<forall>q \<ge> Q. \<forall>i. \<not> active q i"
  shows "remServers (nodes s ! k) \<noteq> - 1 \<Longrightarrow> finishGPUNode active K k s = s"
    and "remServers (nodes s ! k) = - 1 \<Longrightarrow> workLeft Q (finishGPUNode active K k s) < workLeft Q s"
proof -
  have len: "length (nodes s) = length ns0" by (rule schedState_length [OF st])
  have k: "k < length (nodes s)" using k0 len by simp
  show "finishGPUNode active K k s = s" if "remServers (nodes s ! k) \<noteq> - 1"
    using that by (simp add: finishGPUNode_def)
  show "workLeft Q (finishGPUNode active K k s) < workLeft Q s" if r: "remServers (nodes s ! k) = - 1"
  proof (cases "active (streamQueries s) k")
    case True
    then have "streamQueries s < Q" using fair by (meson not_le)
    then show ?thesis
      using r True by (simp add: finishGPUNode_def Let_def workLeft_def)
  next
    case False
    let ?s0 = "s\<lparr>streamQueries := streamQueries s + 1\<rparr>"
    let ?s1 = "updNode k (\<lambda>info. info\<lparr>remServers := - 2\<rparr>) ?s0"
    let ?s2 = "fold (notifyClientGPU K) (clientInfos (nodes ?s1 ! k)) ?s1"
    have eq: "finishGPUNode active K k s = fold releaseServer (serverInfos (nodes ?s2 ! k)) ?s2"
      using r False by (simp add: finishGPUNode_def Let_def)
    have "load (map remServers (nodes ?s1)) = load (map remServers (nodes s)) - 1"
      using k r by (simp add: map_update load_update effort_def)
    then have "workLeft Q ?s1 < workLeft Q s"
      by (simp add: workLeft_def)
    moreover have "workLeft Q ?s2 \<le> workLeft Q ?s1"
    proof (rule fold_notifyClientGPU_work)
      fix c assume "c \<in> set (clientInfos (nodes ?s1 ! k))"
      then have "c \<in> set (clientInfos (nodes s ! k))" using k by simp
      then show "c < length (nodes ?s1)"
        using schedState_clients [OF st valid k0] len by simp
    qed
    ultimately show ?thesis by (simp add: eq)
  qed
qed

lemma finish_all_work:
  assumes "schedState ns0 e0 [] s" and valid: "validEdges ns0" and mutual: "mutualEdges ns0"
    and "\<And>k. k \<in> set ks \<Longrightarrow> k < length ns0"
    and fair: "\<forall>q \<ge> Q. \<forall>i. \<not> active q i"
  shows "(if \<exists>k \<in> set ks. remServers (nodes s ! k) = - 1
          then workLeft Q (fold (finishGPUNode active K) ks s) < workLeft Q s
          else fold (finishGPUNode active K) ks s = s)
         \<and> workLeft Q (fold (finishGPUNode active K) ks s) \<le> workLeft Q s"
  using assms(1,4)
proof (induction ks arbitrary: s)
  case Nil
  then show ?case by simp
next
  case (Cons k ks)
  have k: "k < length ns0" using Cons.prems(2) by simp
  note w = finishGPUNode_work [OF Cons.prems(1) valid k fair, of K]
  let ?s' = "finishGPUNode active K k s"
  have st': "schedState ns0 e0 [] ?s'"
    by (rule schedState_finishGPUNode [OF Cons.prems(1) k valid mutual])
  have ih: "(if \<exists>k \<in> set ks. remServers (nodes ?s' ! k) = - 1
             then workLeft Q (fold (finishGPUNode active K) ks ?s') < workLeft Q ?s'
             else fold (finishGPUNode active K) ks ?s' = ?s')
            \<and> workLeft Q (fold (finishGPUNode active K) ks ?s') \<le> workLeft Q ?s'"
    using Cons.prems(2) by (intro Cons.IH st') simp
  show ?case
  proof (cases "remServers (nodes s ! k) = - 1")
    case True
    then show ?thesis using w(2) ih by auto
  next
    case False
    then have e: "?s' = s" by (rule w(1))
    have "(if \<exists>k \<in> set ks. remServers (nodes s ! k) = - 1
             then workLeft Q (fold (finishGPUNode active K) ks s) < workLeft Q s
             else fold (finishGPUNode active K) ks s = s)
            \<and> workLeft Q (fold (finishGPUNode active K) ks s) \<le> workLeft Q s"
      using ih unfolding e .
    then show ?thesis using False by (simp add: e)
  qed
qed

lemma runCPUNode_work:
  assumes st: "schedState ns0 e0 [] s" and valid: "validEdges ns0" and k0: "k < length ns0"
    and r: "remServers (nodes s ! k) = 0"
  shows "workLeft Q (runCPUNode K k s) < workLeft Q s"
proof -
  let ?s1 = "updNode k (\<lambda>info. info\<lparr>remServers := - 2\<rparr>) s"
  let ?s2 = "if \<not> fromDataset (nodes ?s1 ! k) then computeCPUNode K k ?s1 else ?s1"
  let ?s3 = "fold (notifyClientGPU K) (clientInfos (nodes ?s2 ! k)) ?s2"
  have len: "length (nodes s) = length ns0" by (rule schedState_length [OF st])
  have k: "k < length (nodes s)" using k0 len by simp
  have same: "notifyClientCPU K = notifyClientGPU K"
    by (rule ext)+ (rule notifyClientCPU_eq)
  have eq: "runCPUNode K k s = fold releaseServer (serverInfos (nodes ?s3 ! k)) ?s3"
    by (simp add: runCPUNode_def Let_def same)
  have rs2: "map remServers (nodes ?s2) = (map remServers (nodes s))[k := - 2]"
    using k by (simp add: computeCPUNode_map map_update)
  have "load (map remServers (nodes ?s2)) = load (map remServers (nodes s)) - 2"
    unfolding rs2 using k r by (simp add: load_update effort_def)
  moreover have "streamQueries ?s2 = streamQueries s" by simp
  ultimately have "workLeft Q ?s2 < workLeft Q s"
    by (simp add: workLeft_def)
  moreover have "workLeft Q ?s3 \<le> workLeft Q ?s2"
  proof (rule fold_notifyClientGPU_work)
    fix c assume c: "c \<in> set (clientInfos (nodes ?s2 ! k))"
    have "map clientInfos (nodes ?s2) = map clientInfos (nodes s)"
      by (simp add: computeCPUNode_map map_list_update_same)
    then have "clientInfos (nodes ?s2 ! k) = clientInfos (nodes s ! k)"
      using map_eq_nth [of clientInfos "nodes ?s2" "nodes s" k] k by simp
    then show "c < length (nodes ?s2)"
      using c schedState_clients [OF st valid k0] len by simp
  qed
  ultimately show ?thesis by (simp add: eq)
qed

subsection \<open>Device nodes are launched as soon as they are ready\<close>

lemma devicesLaunched_update:
  fixes s s' :: "'v RooFitDriver"
  assumes g: "devicesLaunched s"
    and gpu: "map computeInGPU (nodes s') = map computeInGPU (nodes s)"
    and rs: "map remServers (nodes s') = (map remServers (nodes s))[c := v]"
    and v: "computeInGPU (nodes s ! c) \<Longrightarrow> v \<noteq> 0"
  shows "devicesLaunched s'"
  unfolding devicesLaunched_def
proof (intro allI impI)
  fix i assume i: "i < length (nodes s')" and gi: "computeInGPU (nodes s' ! i)"
  have len: "length (nodes s') = length (nodes s)" using gpu by (rule map_eq_length)
  have gi': "computeInGPU (nodes s ! i)" using map_eq_nth [OF gpu i] gi by simp
  have "remServers (nodes s' ! i) = (if i = c then v else remServers (nodes s ! i))"
    using map_remServers_nth [OF rs] i len by simp
  then show "remServers (nodes s' ! i) \<noteq> 0"
    using g gi' v i len by (auto simp: devicesLaunched_def)
qed

lemma devicesLaunched_same:
  fixes s s' :: "'v RooFitDriver"
  assumes g: "devicesLaunched s"
    and gpu: "map computeInGPU (nodes s') = map computeInGPU (nodes s)"
    and rs: "map remServers (nodes s') = map remServers (nodes s)"
  shows "devicesLaunched s'"
  unfolding devicesLaunched_def
proof (intro allI impI)
  fix i assume i: "i < length (nodes s')" and gi: "computeInGPU (nodes s' ! i)"
  have len: "length (nodes s') = length (nodes s)" using gpu by (rule map_eq_length)
  have "computeInGPU (nodes s ! i)" using map_eq_nth [OF gpu i] gi by simp
  moreover have "remServers (nodes s' ! i) = remServers (nodes s ! i)"
    using map_eq_nth [OF rs i] by simp
  ultimately show "remServers (nodes s' ! i) \<noteq> 0"
    using g i len by (simp add: devicesLaunched_def)
qed

lemma devicesLaunched_notify:
  assumes "devicesLaunched s" and "c < length (nodes s)"
  shows "devicesLaunched (notifyClientGPU K c s)"
  using assms(1)
proof (rule devicesLaunched_update)
  show "map computeInGPU (nodes (notifyClientGPU K c s)) = map computeInGPU (nodes s)"
    by (simp add: notifyClientGPU_map)
  show "map remServers (nodes (notifyClientGPU K c s))
          = (map remServers (nodes s))
              [c := (if launches (nodes s) c then - 1 else remServers (nodes s ! c) - 1)]"
    by (rule notifyClientGPU_remServers [OF assms(2)])
  show "(if launches (nodes s) c then - 1 else remServers (nodes s ! c) - 1) \<noteq> 0"
    if "computeInGPU (nodes s ! c)"
    using that by (auto simp: launches_def)
qed

lemma devicesLaunched_notify_all:
  assumes "devicesLaunched s" and "\<And>c. c \<in> set cs \<Longrightarrow> c < length (nodes s)"
  shows "devicesLaunched (fold (notifyClientGPU K) cs s)"
  using assms
proof (induction cs arbitrary: s)
  case Nil
  then show ?case by simp
next
  case (Cons c cs)
  have "devicesLaunched (notifyClientGPU K c s)"
    using Cons.prems by (intro devicesLaunched_notify) simp_all
  then show ?case using Cons.IH Cons.prems(2) by simp
qed

lemma devicesLaunched_finishGPUNode:
  assumes st: "schedState ns0 e0 [] s" and valid: "validEdges ns0" and k0: "k < length ns0"
    and g: "devicesLaunched s"
  shows "devicesLaunched (finishGPUNode active K k s)"
proof (cases "remServers (nodes s ! k) = - 1 \<and> \<not> active (streamQueries s) k")
  case False
  have "devicesLaunched (s\<lparr>streamQueries := streamQueries s + 1\<rparr>)"
    using g by (simp add: devicesLaunched_def)
  then show ?thesis using False g by (auto simp: finishGPUNode_def Let_def)
next
  case True
  let ?s0 = "s\<lparr>streamQueries := streamQueries s + 1\<rparr>"
  let ?s1 = "updNode k (\<lambda>info. info\<lparr>remServers := - 2\<rparr>) ?s0"
  let ?s2 = "fold (notifyClientGPU K) (clientInfos (nodes ?s1 ! k)) ?s1"
  have len: "length (nodes s) = length ns0" by (rule schedState_length [OF st])
  have k: "k < length (nodes s)" using k0 len by simp
  have eq: "finishGPUNode active K k s = fold releaseServer (serverInfos (nodes ?s2 ! k)) ?s2"
    using True by (simp add: finishGPUNode_def Let_def)
  have "devicesLaunched ?s1"
    using g
  proof (rule devicesLaunched_update)
    show "map computeInGPU (nodes ?s1) = map computeInGPU (nodes s)"
      by (simp add: map_list_update_same)
    show "map remServers (nodes ?s1) = (map remServers (nodes s))[k := - 2]"
      using k by (simp add: map_update)
  qed simp
  then have "devicesLaunched ?s2"
  proof (rule devicesLaunched_notify_all)
    fix c assume "c \<in> set (clientInfos (nodes ?s1 ! k))"
    then have "c \<in> set (clientInfos (nodes s ! k))" using k by simp
    then show "c < length (nodes ?s1)"
      using schedState_clients [OF st valid k0] len by simp
  qed
  then show ?thesis
    unfolding eq
    by (rule devicesLaunched_same) (simp_all add: fold_releaseServer_map)
qed

lemma devicesLaunched_finish_all:
  assumes "schedState ns0 e0 [] s" and valid: "validEdges ns0" and mutual: "mutualEdges ns0"
    and "\<And>k. k \<in> set ks \<Longrightarrow> k < length ns0" and "devicesLaunched s"
  shows "devicesLaunched (fold (finishGPUNode active K) ks s)"
  using assms(1,4,5)
proof (induction ks arbitrary: s)
  case Nil
  then show ?case by simp
next
  case (Cons k ks)
  have k: "k < length ns0" using Cons.prems(2) by simp
  have "schedState ns0 e0 [] (finishGPUNode active K k s)"
    by (rule schedState_finishGPUNode [OF Cons.prems(1) k valid mutual])
  moreover have "devicesLaunched (finishGPUNode active K k s)"
    by (rule devicesLaunched_finishGPUNode [OF Cons.prems(1) valid k Cons.prems(3)])
  ultimately show ?case using Cons.IH Cons.prems(2) by simp
qed

lemma devicesLaunched_runCPUNode:
  assumes st: "schedState ns0 e0 [] s" and valid: "validEdges ns0" and k0: "k < length ns0"
    and g: "devicesLaunched s"
  shows "devicesLaunched (runCPUNode K k s)"
proof -
  let ?s1 = "updNode k (\<lambda>info. info\<lparr>remServers := - 2\<rparr>) s"
  let ?s2 = "if \<not> fromDataset (nodes ?s1 ! k) then computeCPUNode K k ?s1 else ?s1"
  let ?s3 = "fold (notifyClientGPU K) (clientInfos (nodes ?s2 ! k)) ?s2"
  have len: "length (nodes s) = length ns0" by (rule schedState_length [OF st])
  have k: "k < length (nodes s)" using k0 len by simp
  have same: "notifyClientCPU K = notifyClientGPU K"
    by (rule ext)+ (rule notifyClientCPU_eq)
  have eq: "runCPUNode K k s = fold releaseServer (serverInfos (nodes ?s3 ! k)) ?s3"
    by (simp add: runCPUNode_def Let_def same)
  have "devicesLaunched ?s2"
    using g
  proof (rule devicesLaunched_update)
    show "map computeInGPU (nodes ?s2) = map computeInGPU (nodes s)"
      by (simp add: computeCPUNode_map map_list_update_same)
    show "map remServers (nodes ?s2) = (map remServers (nodes s))[k := - 2]"
      using k by (simp add: computeCPUNode_map map_update)
  qed simp
  then have "devicesLaunched ?s3"
  proof (rule devicesLaunched_notify_all)
    fix c assume c: "c \<in> set (clientInfos (nodes ?s2 ! k))"
    have "map clientInfos (nodes ?s2) = map clientInfos (nodes s)"
      by (simp add: computeCPUNode_map map_list_update_same)
    then have "clientInfos (nodes ?s2 ! k) = clientInfos (nodes s ! k)"
      using map_eq_nth [of clientInfos "nodes ?s2" "nodes s" k] k by simp
    then show "c < length (nodes ?s2)"
      using c schedState_clients [OF st valid k0] len by simp
  qed
  then show ?thesis
    unfolding eq
    by (rule devicesLaunched_same) (simp_all add: fold_releaseServer_map)
qed

lemma devicesLaunched_step:
  assumes st: "schedState ns0 e0 [] s" and valid: "validEdges ns0" and mutual: "mutualEdges ns0"
    and g: "devicesLaunched s"
  shows "devicesLaunched (schedulerStep active K s)"
proof -
  let ?s1 = "fold (finishGPUNode active K) [0..<length (nodes s)] s"
  have len: "length (nodes s) = length ns0" using schedState_length [OF st] .
  have st1: "schedState ns0 e0 [] ?s1"
    using st by (rule schedState_finish_all) (simp_all add: len valid mutual)
  have g1: "devicesLaunched ?s1"
    using st valid mutual _ g by (rule devicesLaunched_finish_all) (simp add: len)
  show ?thesis
  proof (cases "nextCPUNode ?s1")
    case None
    have "devicesLaunched (logEvent Sleep ?s1)"
      using g1 by (simp add: devicesLaunched_def)
    then show ?thesis using None by (simp add: schedulerStep_def Let_def)
  next
    case (Some k)
    note n = nextCPUNode_Some [OF Some]
    have "k < length ns0" using n(1) schedState_length [OF st1] by simp
    then have "devicesLaunched (runCPUNode K k ?s1)"
      using st1 valid g1 by (intro devicesLaunched_runCPUNode)
    then show ?thesis using Some by (simp add: schedulerStep_def Let_def)
  qed
qed

lemma devicesLaunched_initial:
  fixes s :: "'v RooFitDriver"
  shows "devicesLaunched (assignInitial K (resetCounters s))"
proof -
  let ?step = "\<lambda>i s. if remServers (nodes s ! i) = 0 \<and> computeInGPU (nodes s ! i)
                       then assignToGPU K i s else s"
  define P where "P = (\<lambda>(t :: 'v RooFitDriver) k.
                         computeInGPU (nodes t ! k) \<longrightarrow> remServers (nodes t ! k) \<noteq> 0)"
  have step: "(P t k \<longrightarrow> P (?step i t) k) \<and> P (?step i t) i"
    if "i < length (nodes t)" "k < length (nodes t)" for i k t
  proof (cases "remServers (nodes t ! i) = 0 \<and> computeInGPU (nodes t ! i)")
    case False
    then show ?thesis by (auto simp: P_def)
  next
    case True
    have gpu: "map computeInGPU (nodes (assignToGPU K i t)) = map computeInGPU (nodes t)"
      by (simp add: assignToGPU_map)
    have rs: "remServers (nodes (assignToGPU K i t) ! j) = (if j = i then - 1 else remServers (nodes t ! j))"
      if "j < length (nodes t)" for j
      using map_remServers_nth [OF assignToGPU_remServers [OF \<open>i < length (nodes t)\<close>, of K]] that
      by simp
    have "computeInGPU (nodes (assignToGPU K i t) ! j) = computeInGPU (nodes t ! j)"
      if "j < length (nodes t)" for j
      using map_eq_nth [OF gpu, of j] that by simp
    then show ?thesis
      using True that rs by (simp add: P_def)
  qed
  have len: "length (nodes (?step i t)) = length (nodes t)" for i t
    by simp
  have all: "length (nodes (fold ?step ks t)) = length (nodes t)
             \<and> (\<forall>k < length (nodes t). k \<in> set ks \<or> P t k \<longrightarrow> P (fold ?step ks t) k)"
    if "\<And>i. i \<in> set ks \<Longrightarrow> i < length (nodes t)" for ks t
    using that
  proof (induction ks arbitrary: t)
    case Nil
    then show ?case by simp
  next
    case (Cons i ks)
    have i: "i < length (nodes t)" using Cons.prems by simp
    have ih: "length (nodes (fold ?step ks (?step i t))) = length (nodes (?step i t))
             \<and> (\<forall>k < length (nodes (?step i t)).
                   k \<in> set ks \<or> P (?step i t) k \<longrightarrow> P (fold ?step ks (?step i t)) k)"
      using Cons.prems by (intro Cons.IH) (simp only: len, simp)
    have "P (fold ?step ks (?step i t)) k"
      if k: "k < length (nodes t)" and or: "k \<in> set (i # ks) \<or> P t k" for k
    proof -
      have "k \<in> set ks \<or> P (?step i t) k"
        using or step [OF i k] step [OF i i] by auto
      then show ?thesis
        using ih k unfolding len by blast
    qed
    then show ?case
      using ih unfolding len by (simp del: if_split)
  qed
  have "length (nodes (resetCounters s)) = length (nodes s)"
    by (simp add: resetCounters_def)
  then have "\<forall>k < length (nodes s). P (assignInitial K (resetCounters s)) k"
    and "length (nodes (assignInitial K (resetCounters s))) = length (nodes s)"
    unfolding assignInitial_def
    using all [of "[0..<length (nodes (resetCounters s))]" "resetCounters s"]
    by (simp_all del: if_split)
  then show ?thesis
    by (simp add: devicesLaunched_def P_def)
qed

subsection \<open>Every iteration makes progress\<close>

text \<open>
  Unless the top node is retired, some node is on the device or a host node is ready: the
  first node that is not retired has all its servers retired.
\<close>

lemma ready_host_node:
  assumes st: "schedState ns0 e0 [] s" and topo: "topological ns0" and g: "devicesLaunched s"
    and ne: "ns0 \<noteq> []" and top: "remServers (last (nodes s)) \<noteq> - 2"
    and none: "\<And>k. k < length ns0 \<Longrightarrow> remServers (nodes s ! k) \<noteq> - 1"
  shows "nextCPUNode s \<noteq> None"
proof -
  let ?P = "\<lambda>i. i < length ns0 \<and> remServers (nodes s ! i) \<noteq> - 2"
  define i where "i = (LEAST i. ?P i)"
  have len: "length (nodes s) = length ns0" by (rule schedState_length [OF st])
  have g0: "sameGraph (nodes s) ns0" using st by (simp add: schedState_def)
  have "nodes s \<noteq> []" using ne len by auto
  then have "?P (length ns0 - 1)"
    using top ne len by (simp add: last_conv_nth)
  then have Pi: "?P i" unfolding i_def by (rule LeastI)
  have least: "\<not> ?P j" if "j < i" for j
    using that unfolding i_def by (rule not_less_Least)
  have "remServers (nodes s ! sv) = - 2" if sv: "sv \<in> set (serverInfos (nodes s ! i))" for sv
  proof -
    have "sv \<in> set (serverInfos (ns0 ! i))"
      using sv sameGraph_nth(1) [OF g0, of i] Pi by simp
    then have "sv < i" using topo Pi by (simp add: topological_def)
    then show ?thesis using least [of sv] Pi by simp
  qed
  then have p: "pending (nodes s) i = 0" by (simp add: pending_zero_iff)
  have "nodeInv [] (set (drop e0 (events s))) (nodes s) i"
    using st Pi by (simp add: schedState_def)
  then have "remServers (nodes s ! i) = 0"
    using p Pi none [of i] by (auto simp: nodeInv_def)
  moreover have "\<not> computeInGPU (nodes s ! i)"
    using g calculation Pi len by (auto simp: devicesLaunched_def)
  ultimately show ?thesis
    using Pi len by (auto simp: nextCPUNode_def find_None_iff)
qed

lemma schedulerStep_work:
  assumes st: "schedState ns0 e0 [] s" and wf: "wellFormed ns0" and g: "devicesLaunched s"
    and ne: "ns0 \<noteq> []" and top: "remServers (last (nodes s)) \<noteq> - 2"
    and fair: "\<forall>q \<ge> Q. \<forall>i. \<not> active q i"
  shows "workLeft Q (schedulerStep active K s) < workLeft Q s"
proof -
  let ?s1 = "fold (finishGPUNode active K) [0..<length (nodes s)] s"
  have valid: "validEdges ns0" and mutual: "mutualEdges ns0" and topo: "topological ns0"
    using wf by (simp_all add: wellFormed_def)
  have len: "length (nodes s) = length ns0" using schedState_length [OF st] .
  have st1: "schedState ns0 e0 [] ?s1"
    using st by (rule schedState_finish_all) (simp_all add: len valid mutual)
  have fa: "(if \<exists>k \<in> set [0..<length (nodes s)]. remServers (nodes s ! k) = - 1
          then workLeft Q ?s1 < workLeft Q s else ?s1 = s)
         \<and> workLeft Q ?s1 \<le> workLeft Q s"
    using st valid mutual _ fair by (rule finish_all_work) (simp add: len)
  have run: "workLeft Q (runCPUNode K k ?s1) < workLeft Q ?s1" if "nextCPUNode ?s1 = Some k" for k
  proof -
    note n = nextCPUNode_Some [OF that]
    have "k < length ns0" using n(1) schedState_length [OF st1] by simp
    then show ?thesis using st1 valid n(2) by (intro runCPUNode_work)
  qed
  show ?thesis
  proof (cases "nextCPUNode ?s1")
    case (Some k)
    then show ?thesis
      using run [OF Some] fa by (simp add: schedulerStep_def Let_def)
  next
    case None
    have "\<exists>k \<in> set [0..<length (nodes s)]. remServers (nodes s ! k) = - 1"
    proof (rule ccontr)
      assume no: "\<not> ?thesis"
      then have same: "?s1 = s" using fa by simp
      have "nextCPUNode s \<noteq> None"
        using st topo g ne top by (rule ready_host_node) (use no len in auto)
      then show False using None same by simp
    qed
    then have "workLeft Q ?s1 < workLeft Q s" using fa by simp
    then show ?thesis using None by (simp add: schedulerStep_def Let_def)
  qed
qed

subsection \<open>The loop returns\<close>

lemma schedulerLoop_returns:
  assumes wf: "wellFormed ns0" and ne: "ns0 \<noteq> []" and fair: "\<forall>q \<ge> Q. \<forall>i. \<not> active q i"
  shows "schedState ns0 e0 [] s \<Longrightarrow> devicesLaunched s \<Longrightarrow> workLeft Q s < int fuel \<Longrightarrow>
           \<exists>s'. schedulerLoop fuel active K s = Some s'"
proof (induction fuel arbitrary: s)
  case 0
  then show ?case using workLeft_nonneg [of Q s] by simp
next
  case (Suc fuel)
  have valid: "validEdges ns0" and mutual: "mutualEdges ns0"
    using wf by (simp_all add: wellFormed_def)
  show ?case
  proof (cases "remServers (last (nodes s)) \<noteq> - 2")
    case False
    then show ?thesis by simp
  next
    case True
    have "workLeft Q (schedulerStep active K s) < workLeft Q s"
      by (rule schedulerStep_work [OF Suc.prems(1) wf Suc.prems(2) ne True fair])
    then have "workLeft Q (schedulerStep active K s) < int fuel"
      using Suc.prems(3) by simp
    moreover have "schedState ns0 e0 [] (schedulerStep active K s)"
      by (rule schedState_step [OF Suc.prems(1) valid mutual])
    moreover have "devicesLaunched (schedulerStep active K s)"
      by (rule devicesLaunched_step [OF Suc.prems(1) valid mutual Suc.prems(2)])
    ultimately have "\<exists>s'. schedulerLoop fuel active K (schedulerStep active K s) = Some s'"
      by (intro Suc.IH)
    then show ?thesis using True by simp
  qed
qed

text \<open>
  In CUDA mode \<^verbatim>\<open>getVal\<close> returns if the streams of the device are idle from some
  query on.
\<close>

lemma getVal_device_returns:
  assumes wf: "wellFormed (nodes s)" and ne: "nodes s \<noteq> []" and dev: "batchMode s = Cuda"
    and fair: "\<forall>q \<ge> Q. \<forall>i. \<not> active q i"
  shows "\<exists>fuel r s'. getVal fuel active K counter s = Some (r, s')"
proof -
  let ?sa = "s\<lparr>getValInvocations := getValInvocations s + 1\<rparr>"
  let ?start = "assignInitial K (resetCounters ?sa)"
  have valid: "validEdges (nodes ?sa)" using wf by (simp add: wellFormed_def)
  have st: "schedState (nodes ?sa) (length (events ?sa)) [] ?start"
    by (rule schedState_initial [OF valid])
  have g: "devicesLaunched ?start" by (rule devicesLaunched_initial)
  have "workLeft Q ?start < int (nat (workLeft Q ?start) + 1)"
    using workLeft_nonneg [of Q ?start] by simp
  then obtain s' where "schedulerLoop (nat (workLeft Q ?start) + 1) active K ?start = Some s'"
    using schedulerLoop_returns [OF _ _ fair st g, of "nat (workLeft Q ?start) + 1" K] wf ne
    by auto
  then have "getVal (nat (workLeft Q ?start) + 1) active K counter s = Some (topValue s', s')"
    by (simp add: getVal_device [OF dev])
  then show ?thesis by blast
qed

section \<open>What an evaluation with a device does\<close>

subsection \<open>The state \<^verbatim>\<open>getVal\<close> returns in device mode\<close>

lemma getVal_device_final:
  assumes wf: "wellFormed (nodes s)" and top: "feedsTop (nodes s)" and dev: "batchMode s = Cuda"
    and e: "getVal fuel active K counter s = Some (r, s')"
  shows "schedState (nodes s) (length (events s)) [] s'"
    and "\<And>i. i < length (nodes s) \<Longrightarrow> remServers (nodes s' ! i) = - 2"
    and "schedulerLoop fuel active K
           (assignInitial K (resetCounters (s\<lparr>getValInvocations := getValInvocations s + 1\<rparr>)))
         = Some s'"
proof -
  let ?s0 = "s\<lparr>getValInvocations := getValInvocations s + 1\<rparr>"
  let ?start = "assignInitial K (resetCounters ?s0)"
  have valid: "validEdges (nodes s)" and mutual: "mutualEdges (nodes s)"
    using wf by (simp_all add: wellFormed_def)
  show loop: "schedulerLoop fuel active K ?start = Some s'"
    using e by (auto simp: getVal_device [OF dev])
  then obtain m where m: "s' = (schedulerStep active K ^^ m) ?start"
    "remServers (last (nodes s')) = - 2"
    unfolding schedulerLoop_Some_iff by blast
  have "schedState (nodes ?s0) (length (events ?s0)) [] ?start"
    by (rule schedState_initial) (use valid in simp)
  then have "schedState (nodes s) (length (events s)) [] ((schedulerStep active K ^^ m) ?start)"
    using valid mutual by (intro schedState_iterate) simp_all
  then show st: "schedState (nodes s) (length (events s)) [] s'"
    by (simp add: m(1))
  have "\<forall>info \<in> set (nodes s'). remServers info = - 2"
    using st top m(2) by (rule top_retired_all_retired)
  then show "remServers (nodes s' ! i) = - 2" if "i < length (nodes s)" for i
    using that schedState_length [OF st] by simp
qed

text \<open>
  Claim C9. In device mode \<^verbatim>\<open>getVal\<close> does no parameter-change tracking. Whatever the
  counters of the parameters are, the evaluation starts by dropping the pooled buffer
  of every node; it returns if the streams of the device are idle from some query on;
  and when it returns the kernel of every node that is not bound to the dataset has been
  invoked during it, while the cached counters and the dirty flags are neither read nor
  written.
\<close>

theorem getVal_device_recomputes_all:
  assumes wf: "wellFormed (nodes s)" and top: "feedsTop (nodes s)" and dev: "batchMode s = Cuda"
  shows "(\<forall>info \<in> set (nodes (resetCounters (s\<lparr>getValInvocations := getValInvocations s + 1\<rparr>))).
            buffer info = None)
       \<and> ((\<exists>Q. \<forall>q \<ge> Q. \<forall>i. \<not> active q i) \<longrightarrow>
            (\<exists>fuel r s'. getVal fuel active K counter s = Some (r, s')))
       \<and> (\<forall>fuel r s'. getVal fuel active K counter s = Some (r, s') \<longrightarrow>
            (\<forall>i < length (nodes s). \<not> fromDataset (nodes s ! i) \<longrightarrow>
               ComputeCPU i \<in> set (drop (length (events s)) (events s'))
               \<or> ComputeCUDA i \<in> set (drop (length (events s)) (events s')))
            \<and> map lastSetValCount (nodes s') = map lastSetValCount (nodes s)
            \<and> map isDirty (nodes s') = map isDirty (nodes s))"
proof (intro conjI allI impI)
  show "\<forall>info \<in> set (nodes (resetCounters (s\<lparr>getValInvocations := getValInvocations s + 1\<rparr>))).
            buffer info = None"
    by (simp add: resetCounters_def)
next
  assume "\<exists>Q. \<forall>q \<ge> Q. \<forall>i. \<not> active q i"
  then obtain Q where fair: "\<forall>q \<ge> Q. \<forall>i. \<not> active q i" by blast
  have ne: "nodes s \<noteq> []" using top by (simp add: feedsTop_def)
  show "\<exists>fuel r s'. getVal fuel active K counter s = Some (r, s')"
    by (rule getVal_device_returns [OF wf ne dev fair])
next
  fix fuel r s' i
  assume e: "getVal fuel active K counter s = Some (r, s')"
  note fin = getVal_device_final [OF wf top dev e]
  show "map lastSetValCount (nodes s') = map lastSetValCount (nodes s)"
    using schedulerLoop_map [OF _ fin(3), of lastSetValCount]
    by (simp add: assignInitial_map resetCounters_map)
  show "map isDirty (nodes s') = map isDirty (nodes s)"
    using schedulerLoop_map [OF _ fin(3), of isDirty]
    by (simp add: assignInitial_map resetCounters_map)
  assume i: "i < length (nodes s)" and nd: "\<not> fromDataset (nodes s ! i)"
  have inv: "nodeInv [] (set (drop (length (events s)) (events s'))) (nodes s') i"
    and g: "sameGraph (nodes s') (nodes s)"
    using fin(1) i by (simp_all add: schedState_def)
  show "ComputeCPU i \<in> set (drop (length (events s)) (events s'))
          \<or> ComputeCUDA i \<in> set (drop (length (events s)) (events s'))"
    using inv fin(2) [OF i] nd sameGraph_nth(4) [OF g i] by (auto simp: nodeInv_def)
qed

lemma example_streams_idle: "\<forall>q \<ge> 3. \<forall>i. \<not> exampleActive q i"
  by (simp add: exampleActive_def)

text \<open>
  In the example the streams are idle from the fourth query on. The cached counter of
  \<open>p\<close> differs from its current counter 0 only because no host pass has ever run; the
  device evaluation recomputes \<open>f\<close> and leaves the cache as it was.
\<close>

theorem getVal_device_recomputes_all_witness:
  "wellFormed (nodes (exampleBound Cuda)) \<and> feedsTop (nodes (exampleBound Cuda))
   \<and> batchMode (exampleBound Cuda) = Cuda
   \<and> (\<exists>fuel r s'. getVal fuel exampleActive (exampleKernel 2) (\<lambda>i. 0) (exampleBound Cuda)
                      = Some (r, s'))
   \<and> getVal 10 exampleActive (exampleKernel 2) (\<lambda>i. 0) (exampleBound Cuda)
       = Some (Inr 12, exampleDeviceEval)
   \<and> 2 < length (nodes (exampleBound Cuda)) \<and> \<not> fromDataset (nodes (exampleBound Cuda) ! 2)
   \<and> lastSetValCount (nodes (exampleBound Cuda) ! 1) \<noteq> 0
   \<and> (ComputeCPU 2 \<in> set (drop (length (events (exampleBound Cuda))) (events exampleDeviceEval))
      \<or> ComputeCUDA 2 \<in> set (drop (length (events (exampleBound Cuda))) (events exampleDeviceEval)))
   \<and> map lastSetValCount (nodes exampleDeviceEval) = map lastSetValCount (nodes (exampleBound Cuda))"
proof -
  have h: "2 < length (nodes (exampleBound Cuda))" "\<not> fromDataset (nodes (exampleBound Cuda) ! 2)"
    "lastSetValCount (nodes (exampleBound Cuda) ! 1) \<noteq> 0"
    by code_simp+
  note t = getVal_device_recomputes_all
             [OF example_device_facts, of exampleActive "exampleKernel 2" "\<lambda>i. 0"]
  have "(\<forall>i < length (nodes (exampleBound Cuda)). \<not> fromDataset (nodes (exampleBound Cuda) ! i) \<longrightarrow>
               ComputeCPU i \<in> set (drop (length (events (exampleBound Cuda))) (events exampleDeviceEval))
               \<or> ComputeCUDA i \<in> set (drop (length (events (exampleBound Cuda))) (events exampleDeviceEval)))
            \<and> map lastSetValCount (nodes exampleDeviceEval)
                = map lastSetValCount (nodes (exampleBound Cuda))"
    using t example_device_eval by blast
  moreover have "\<exists>fuel r s'. getVal fuel exampleActive (exampleKernel 2) (\<lambda>i. 0) (exampleBound Cuda)
                      = Some (r, s')"
    using t example_streams_idle by blast
  ultimately show ?thesis
    using example_device_facts example_device_eval h by simp
qed

section \<open>The values computed with a device\<close>

subsection \<open>What the operations of the scheduler do to the storage and the spans\<close>

lemma cudaMemDataset_updNode [simp]: "cudaMemDataset (updNode i f s) = cudaMemDataset s"
  and cudaMemDataset_logEvent [simp]: "cudaMemDataset (logEvent e s) = cudaMemDataset s"
  by (simp_all add: updNode_def logEvent_def)

lemma spanValues_frame:
  assumes "cudaMemDataset s' = cudaMemDataset s"
    and "\<And>j. ptrNode p = Some j \<Longrightarrow>
           buffer (nodes s' ! j) = buffer (nodes s ! j)
           \<and> scalarBuffer (nodes s' ! j) = scalarBuffer (nodes s ! j)"
  shows "spanValues s' (p, n) = spanValues s (p, n)"
  using assms by (cases p) (simp_all add: spanValues_def ptrNode_def)

lemma staticInfo_fields [simp]:
  "staticInfo (info\<lparr>buffer := b\<rparr>) = staticInfo info"
  "staticInfo (info\<lparr>scalarBuffer := v\<rparr>) = staticInfo info"
  "staticInfo (info\<lparr>remServers := r\<rparr>) = staticInfo info"
  "staticInfo (info\<lparr>remClients := r\<rparr>) = staticInfo info"
  "staticInfo (info\<lparr>hasLogged := h\<rparr>) = staticInfo info"
  by (simp_all add: staticInfo_def)

lemma staticInfo_nth:
  fixes ns ns' :: "'v NodeInfo list"
  assumes "map staticInfo ns' = map staticInfo ns" and "i < length ns"
  shows "serverInfos (ns' ! i) = serverInfos (ns ! i)"
    and "clientInfos (ns' ! i) = clientInfos (ns ! i)"
    and "computeInGPU (ns' ! i) = computeInGPU (ns ! i)"
    and "fromDataset (ns' ! i) = fromDataset (ns ! i)"
    and "outputSize (ns' ! i) = outputSize (ns ! i)"
    and "copyAfterEvaluation (ns' ! i) = copyAfterEvaluation (ns ! i)"
proof -
  have "length ns' = length ns"
    using assms(1) by (rule map_eq_length)
  then have "staticInfo (ns' ! i) = staticInfo (ns ! i)"
    using map_eq_nth [OF assms(1), of i] assms(2) by simp
  then show "serverInfos (ns' ! i) = serverInfos (ns ! i)"
    and "clientInfos (ns' ! i) = clientInfos (ns ! i)"
    and "computeInGPU (ns' ! i) = computeInGPU (ns ! i)"
    and "fromDataset (ns' ! i) = fromDataset (ns ! i)"
    and "outputSize (ns' ! i) = outputSize (ns ! i)"
    and "copyAfterEvaluation (ns' ! i) = copyAfterEvaluation (ns ! i)"
    by (simp_all add: staticInfo_def)
qed

lemma assignToGPU_nth:
  "j \<noteq> i \<Longrightarrow> nodes (assignToGPU K i s) ! j = nodes s ! j"
  by (simp add: assignToGPU_def Let_def computeBatch_nth)

lemma assignToGPU_maps:
  "i < length (nodes s) \<Longrightarrow> dataMapCUDA (assignToGPU K i s)
     = (dataMapCUDA s)(i \<mapsto> (if outputSize (nodes s ! i) = 1 then ScalarPtr i else GpuPtr i,
                               outputSize (nodes s ! i)))"
  "i < length (nodes s) \<Longrightarrow> dataMapCPU (assignToGPU K i s)
     = (if copyAfterEvaluation (nodes s ! i)
        then (dataMapCPU s)(i \<mapsto> (CpuPtr i, outputSize (nodes s ! i)))
        else if outputSize (nodes s ! i) = 1 then (dataMapCPU s)(i \<mapsto> (ScalarPtr i, 1))
        else dataMapCPU s)"
  "cudaMemDataset (assignToGPU K i s) = cudaMemDataset s"
  "i < length (nodes s) \<Longrightarrow>
     remClients (nodes (assignToGPU K i s) ! i) = remClients (nodes s ! i)"
  by (auto simp: assignToGPU_def Let_def computeBatch_def writeOutput_def)

lemma assignToGPU_effect:
  assumes i: "i < length (nodes s)"
  shows "\<exists>V. (\<forall>k. k \<noteq> i \<longrightarrow> (\<forall>p n. dataMapCUDA s k = Some (p, n) \<longrightarrow> ptrNode p \<noteq> Some i) \<longrightarrow>
                 V k = dataMapView s (dataMapCUDA s) k)
     \<and> (outputSize (nodes s ! i) = 1 \<longrightarrow>
          scalarBuffer (nodes (assignToGPU K i s) ! i) = K i Device 1 V 0)
     \<and> (outputSize (nodes s ! i) \<noteq> 1 \<longrightarrow>
          (\<exists>b. buffer (nodes (assignToGPU K i s) ! i) = Some b
             \<and> bufferData b = map (K i Device (outputSize (nodes s ! i)) V)
                                [0..<outputSize (nodes s ! i)]))"
proof -
  define nOut where "nOut = outputSize (nodes s ! i)"
  define s1 where "s1 = updNode i (\<lambda>info. info\<lparr>remServers := - 1\<rparr>) s"
  define s2 where "s2 = (if nOut = 1
                then s1\<lparr>dataMapCPU := (dataMapCPU s1)(i \<mapsto> (ScalarPtr i, nOut))\<rparr>
                else updNode i (\<lambda>info. info\<lparr>buffer :=
                       Some \<lparr>bufferKind = (if copyAfterEvaluation info then PinnedBuffer
                                           else GpuBuffer),
                             bufferData = []\<rparr>\<rparr>) s1)"
  define p where "p = (if nOut = 1 then ScalarPtr i else GpuPtr i :: 'a Pointer)"
  define s3 where "s3 = s2\<lparr>dataMapCUDA := (dataMapCUDA s2)(i \<mapsto> (p, nOut))\<rparr>"
  define V where "V = dataMapView s3 (dataMapCUDA s3)"
  have n1: "outputSize (nodes s1 ! i) = nOut"
    using i by (simp add: s1_def nOut_def)
  have eq: "assignToGPU K i s =
          (let s4 = computeBatch K i Device p nOut s3
           in if copyAfterEvaluation (nodes s4 ! i)
              then s4\<lparr>dataMapCPU := (dataMapCPU s4)(i \<mapsto> (CpuPtr i, nOut))\<rparr> else s4)"
    unfolding assignToGPU_def Let_def s3_def p_def s2_def n1 s1_def [symmetric] ..
  have nodes3: "nodes s3 ! k = nodes s ! k" if "k \<noteq> i" for k
    using that by (simp add: s3_def s2_def s1_def)
  have cm3: "cudaMemDataset s3 = cudaMemDataset s"
    by (simp add: s3_def s2_def s1_def)
  have dm3: "dataMapCUDA s3 k = dataMapCUDA s k" if "k \<noteq> i" for k
    using that by (simp add: s3_def s2_def s1_def)
  have view: "V k = dataMapView s (dataMapCUDA s) k"
    if "k \<noteq> i" and "\<And>p n. dataMapCUDA s k = Some (p, n) \<Longrightarrow> ptrNode p \<noteq> Some i" for k
  proof (cases "dataMapCUDA s k")
    case None
    then show ?thesis by (simp add: V_def dataMapView_def dm3 [OF that(1)])
  next
    case (Some sp)
    obtain q n where sp: "sp = (q, n)" by (cases sp)
    have "ptrNode q \<noteq> Some i" using that(2) Some sp by simp
    then have "spanValues s3 (q, n) = spanValues s (q, n)"
      by (intro spanValues_frame cm3) (auto simp: nodes3)
    then show ?thesis
      by (simp add: V_def dataMapView_def dm3 [OF that(1)] Some sp)
  qed
  have len3: "i < length (nodes s3)"
    using i by (simp add: s3_def s2_def s1_def)
  have sc: "scalarBuffer (nodes (assignToGPU K i s) ! i) = K i Device 1 V 0" if "nOut = 1"
    using that len3 by (simp add: eq Let_def computeBatch_def writeOutput_def p_def V_def)
  have buf3: "buffer (nodes s3 ! i) \<noteq> None" if "nOut \<noteq> 1"
    using that i by (simp add: s3_def s2_def s1_def)
  have bf: "\<exists>b. buffer (nodes (assignToGPU K i s) ! i) = Some b
             \<and> bufferData b = map (K i Device nOut V) [0..<nOut]" if "nOut \<noteq> 1"
    using that len3 buf3 [OF that]
    by (auto simp: eq Let_def computeBatch_def writeOutput_def p_def V_def)
  show ?thesis
    using view sc bf unfolding nOut_def by blast
qed

lemma computeCPUNode_nth:
  "j \<noteq> i \<Longrightarrow> nodes (computeCPUNode K i s) ! j = nodes s ! j"
  by (simp add: computeCPUNode_def Let_def computeBatch_nth)

lemma computeCPUNode_maps:
  "i < length (nodes s) \<Longrightarrow> dataMapCPU (computeCPUNode K i s)
     = (dataMapCPU s)(i \<mapsto> (if outputSize (nodes s ! i) = 1 then ScalarPtr i else CpuPtr i,
                              outputSize (nodes s ! i)))"
  "i < length (nodes s) \<Longrightarrow> batchMode s = Cuda \<Longrightarrow> dataMapCUDA (computeCPUNode K i s)
     = (if copyAfterEvaluation (nodes s ! i)
        then (dataMapCUDA s)(i \<mapsto> (GpuPtr i, outputSize (nodes s ! i)))
        else if outputSize (nodes s ! i) = 1 then (dataMapCUDA s)(i \<mapsto> (ScalarPtr i, 1))
        else dataMapCUDA s)"
  "cudaMemDataset (computeCPUNode K i s) = cudaMemDataset s"
  "i < length (nodes s) \<Longrightarrow>
     remClients (nodes (computeCPUNode K i s) ! i) = remClients (nodes s ! i)"
  "i < length (nodes s) \<Longrightarrow>
     remServers (nodes (computeCPUNode K i s) ! i) = remServers (nodes s ! i)"
  by (auto simp: computeCPUNode_def Let_def computeBatch_def writeOutput_def)

lemma computeCPUNode_effect:
  assumes i: "i < length (nodes s)"
  shows "\<exists>V. (\<forall>k. k \<noteq> i \<longrightarrow> (\<forall>p n. dataMapCPU s k = Some (p, n) \<longrightarrow> ptrNode p \<noteq> Some i) \<longrightarrow>
                 V k = dataMapView s (dataMapCPU s) k)
     \<and> (outputSize (nodes s ! i) = 1 \<longrightarrow>
          scalarBuffer (nodes (computeCPUNode K i s) ! i) = K i Host 1 V 0)
     \<and> (outputSize (nodes s ! i) \<noteq> 1 \<longrightarrow>
          (\<exists>b. buffer (nodes (computeCPUNode K i s) ! i) = Some b
             \<and> bufferData b = map (K i Host (outputSize (nodes s ! i)) V)
                                [0..<outputSize (nodes s ! i)]))"
proof -
  define nOut where "nOut = outputSize (nodes s ! i)"
  define s1 where "s1 = (if nOut = 1 then
                  (if batchMode s = Cuda
                   then s\<lparr>dataMapCUDA := (dataMapCUDA s)(i \<mapsto> (ScalarPtr i, nOut))\<rparr>
                   else s)
                else
                  (let s' = (if \<not> hasLogged (nodes s ! i) \<and> batchMode s = Cuda
                             then updNode i (\<lambda>info. info\<lparr>hasLogged := True\<rparr>)
                                    (logEvent (LogNoCuda i) s)
                             else s)
                   in if buffer (nodes s' ! i) = None
                      then updNode i (\<lambda>info. info\<lparr>buffer :=
                             Some \<lparr>bufferKind = (if copyAfterEvaluation info then PinnedBuffer
                                                 else CpuBuffer),
                                   bufferData = []\<rparr>\<rparr>) s'
                      else s'))"
  define p where "p = (if nOut = 1 then ScalarPtr i else CpuPtr i :: 'a Pointer)"
  define s2 where "s2 = s1\<lparr>dataMapCPU := (dataMapCPU s1)(i \<mapsto> (p, nOut))\<rparr>"
  define V where "V = dataMapView s2 (dataMapCPU s2)"
  have eq: "computeCPUNode K i s =
          (let s3 = computeBatch K i Host p nOut s2
           in if copyAfterEvaluation (nodes s3 ! i)
              then s3\<lparr>dataMapCUDA := (dataMapCUDA s3)(i \<mapsto> (GpuPtr i, nOut))\<rparr> else s3)"
    unfolding computeCPUNode_def s2_def p_def s1_def nOut_def Let_def ..
  have nodes2: "nodes s2 ! k = nodes s ! k" if "k \<noteq> i" for k
    using that by (simp add: s2_def s1_def Let_def)
  have cm2: "cudaMemDataset s2 = cudaMemDataset s"
    by (simp add: s2_def s1_def Let_def)
  have dm2: "dataMapCPU s2 k = dataMapCPU s k" if "k \<noteq> i" for k
    using that by (simp add: s2_def s1_def Let_def)
  have view: "V k = dataMapView s (dataMapCPU s) k"
    if "k \<noteq> i" and "\<And>p n. dataMapCPU s k = Some (p, n) \<Longrightarrow> ptrNode p \<noteq> Some i" for k
  proof (cases "dataMapCPU s k")
    case None
    then show ?thesis by (simp add: V_def dataMapView_def dm2 [OF that(1)])
  next
    case (Some sp)
    obtain q n where sp: "sp = (q, n)" by (cases sp)
    have "ptrNode q \<noteq> Some i" using that(2) Some sp by simp
    then have "spanValues s2 (q, n) = spanValues s (q, n)"
      by (intro spanValues_frame cm2) (auto simp: nodes2)
    then show ?thesis
      by (simp add: V_def dataMapView_def dm2 [OF that(1)] Some sp)
  qed
  have len2: "i < length (nodes s2)"
    using i by (simp add: s2_def s1_def Let_def)
  have sc: "scalarBuffer (nodes (computeCPUNode K i s) ! i) = K i Host 1 V 0" if "nOut = 1"
    using that len2 by (simp add: eq Let_def computeBatch_def writeOutput_def p_def V_def)
  have buf2: "buffer (nodes s2 ! i) \<noteq> None" if "nOut \<noteq> 1"
    using that i by (auto simp: s2_def s1_def Let_def)
  have bf: "\<exists>b. buffer (nodes (computeCPUNode K i s) ! i) = Some b
             \<and> bufferData b = map (K i Host nOut V) [0..<nOut]" if "nOut \<noteq> 1"
    using that len2 buf2 [OF that]
    by (auto simp: eq Let_def computeBatch_def writeOutput_def p_def V_def)
  show ?thesis
    using view sc bf unfolding nOut_def by blast
qed

subsection \<open>The clients a node waits for\<close>

lemma waiting_cong:
  assumes "\<And>c. c \<in> set cs \<Longrightarrow> (remServers (ns' ! c) = - 2) = (remServers (ns ! c) = - 2)"
  shows "waiting ns' cs = waiting ns cs"
proof -
  have "filter (\<lambda>c. remServers (ns' ! c) \<noteq> - 2) cs = filter (\<lambda>c. remServers (ns ! c) \<noteq> - 2) cs"
    by (rule filter_cong) (simp_all add: assms)
  then show ?thesis by (simp add: waiting_def)
qed

lemma waiting_retire:
  assumes "remServers (ns ! k) \<noteq> - 2" and "remServers (ns' ! k) = - 2"
    and "\<And>c. c \<in> set cs \<Longrightarrow> c \<noteq> k \<Longrightarrow> remServers (ns' ! c) = remServers (ns ! c)"
  shows "waiting ns' cs = waiting ns cs - int (count_list cs k)"
  unfolding waiting_def
proof (rule filter_retire)
  show "remServers (ns ! k) \<noteq> - 2" by fact
  fix sv
  assume "sv \<in> set cs"
  then show "(remServers (ns' ! sv) \<noteq> - 2) = (remServers (ns ! sv) \<noteq> - 2 \<and> sv \<noteq> k)"
    by (cases "sv = k") (simp_all add: assms)
qed

lemma waiting_bounds: "0 \<le> waiting ns cs" "waiting ns cs \<le> int (length cs)"
  by (simp_all add: waiting_def)

lemma waiting_pos:
  "c \<in> set cs \<Longrightarrow> remServers (ns ! c) \<noteq> - 2 \<Longrightarrow> 0 < waiting ns cs"
  by (auto simp: waiting_def filter_empty_conv)

subsection \<open>The invariant of the values, node by node\<close>

lemma valInv_same:
  assumes "valInv out s0 rest s j"
    and "waiting (nodes s') (clientInfos (nodes s0 ! j)) + int (count_list rest' j)
           = waiting (nodes s) (clientInfos (nodes s0 ! j)) + int (count_list rest j)"
    and "remClients (nodes s' ! j) = remClients (nodes s ! j)"
    and "computed (nodes s0 ! j) \<Longrightarrow>
           (remServers (nodes s' ! j) < 0) = (remServers (nodes s ! j) < 0)"
    and "scalarBuffer (nodes s' ! j) = scalarBuffer (nodes s ! j)"
    and "buffer (nodes s' ! j) = buffer (nodes s ! j)"
    and "dataMapCPU s' j = dataMapCPU s j" and "dataMapCUDA s' j = dataMapCUDA s j"
  shows "valInv out s0 rest' s' j"
  using assms by (simp add: valInv_def Let_def)

lemma valState_static:
  assumes "valState out s0 rest s" and "i < length (nodes s0)"
  shows "serverInfos (nodes s ! i) = serverInfos (nodes s0 ! i)"
    and "clientInfos (nodes s ! i) = clientInfos (nodes s0 ! i)"
    and "computeInGPU (nodes s ! i) = computeInGPU (nodes s0 ! i)"
    and "fromDataset (nodes s ! i) = fromDataset (nodes s0 ! i)"
    and "outputSize (nodes s ! i) = outputSize (nodes s0 ! i)"
    and "copyAfterEvaluation (nodes s ! i) = copyAfterEvaluation (nodes s0 ! i)"
    and "length (nodes s) = length (nodes s0)"
    and "batchMode s = Cuda" and "cudaMemDataset s = cudaMemDataset s0"
proof -
  have m: "map staticInfo (nodes s) = map staticInfo (nodes s0)"
    using assms(1) by (simp add: valState_def)
  show "serverInfos (nodes s ! i) = serverInfos (nodes s0 ! i)"
    and "clientInfos (nodes s ! i) = clientInfos (nodes s0 ! i)"
    and "computeInGPU (nodes s ! i) = computeInGPU (nodes s0 ! i)"
    and "fromDataset (nodes s ! i) = fromDataset (nodes s0 ! i)"
    and "outputSize (nodes s ! i) = outputSize (nodes s0 ! i)"
    and "copyAfterEvaluation (nodes s ! i) = copyAfterEvaluation (nodes s0 ! i)"
    by (rule staticInfo_nth [OF m assms(2)])+
  show "length (nodes s) = length (nodes s0)"
    using m by (rule map_eq_length)
  show "batchMode s = Cuda" and "cudaMemDataset s = cudaMemDataset s0"
    using assms(1) by (simp_all add: valState_def)
qed

lemma devReady_edges:
  assumes "devReady s0"
  shows "\<And>j sv. j < length (nodes s0) \<Longrightarrow> sv \<in> set (serverInfos (nodes s0 ! j)) \<Longrightarrow>
            sv < j \<and> j \<in> set (clientInfos (nodes s0 ! sv))"
    and "\<And>j c. j < length (nodes s0) \<Longrightarrow> c \<in> set (clientInfos (nodes s0 ! j)) \<Longrightarrow>
            c < length (nodes s0) \<and> j < c \<and> j \<in> set (serverInfos (nodes s0 ! c))"
    and "\<And>j k. j < length (nodes s0) \<Longrightarrow> k < length (nodes s0) \<Longrightarrow>
            count_list (serverInfos (nodes s0 ! j)) k = count_list (clientInfos (nodes s0 ! k)) j"
proof -
  have valid: "validEdges (nodes s0)" and mutual: "mutualEdges (nodes s0)"
    and topo: "topological (nodes s0)"
    using assms by (simp_all add: devReady_def wellFormed_def)
  show m: "count_list (serverInfos (nodes s0 ! j)) k = count_list (clientInfos (nodes s0 ! k)) j"
    if "j < length (nodes s0)" "k < length (nodes s0)" for j k
    using mutual that by (simp add: mutualEdges_def)
  show "sv < j \<and> j \<in> set (clientInfos (nodes s0 ! sv))"
    if j: "j < length (nodes s0)" and sv: "sv \<in> set (serverInfos (nodes s0 ! j))" for j sv
  proof -
    have lt: "sv < j" using topo j sv by (simp add: topological_def)
    then have "sv < length (nodes s0)" using j by simp
    then have "count_list (clientInfos (nodes s0 ! sv)) j = count_list (serverInfos (nodes s0 ! j)) sv"
      using m [OF j] by simp
    then have "j \<in> set (clientInfos (nodes s0 ! sv))"
      using sv by (metis count_list_0_iff)
    then show ?thesis using lt by simp
  qed
  show "c < length (nodes s0) \<and> j < c \<and> j \<in> set (serverInfos (nodes s0 ! c))"
    if j: "j < length (nodes s0)" and c: "c \<in> set (clientInfos (nodes s0 ! j))" for j c
  proof -
    have cl: "c < length (nodes s0)"
      using valid j c by (auto simp: validEdges_def)
    then have "count_list (serverInfos (nodes s0 ! c)) j = count_list (clientInfos (nodes s0 ! j)) c"
      using m [OF _ j] by simp
    then have sv: "j \<in> set (serverInfos (nodes s0 ! c))"
      using c by (metis count_list_0_iff)
    then have "j < c" using topo cl by (simp add: topological_def)
    then show ?thesis using cl sv by simp
  qed
qed

text \<open>
  What a client that has not been retired reads of a server that has been, or that no
  kernel writes.
\<close>

lemma valInv_view:
  assumes st: "valState out s0 rest s" and ready: "devReady s0"
    and k: "k < length (nodes s0)" and c: "c \<in> set (clientInfos (nodes s0 ! k))"
    and rk: "computed (nodes s0 ! k) \<Longrightarrow> remServers (nodes s ! k) < 0"
    and rc: "remServers (nodes s ! c) \<noteq> - 2"
    and X: "X = placement (nodes s0 ! c)"
  shows "dataMapView s (sideMap X s) k = expected out s0 X k"
    and "\<And>p n. sideMap X s k = Some (p, n) \<Longrightarrow> ptrNode p \<noteq> Some c"
proof -
  note e = devReady_edges [OF ready]
  have ck: "c < length (nodes s0)" "k < c"
    using e(2) [OF k c] by simp_all
  have inv: "valInv out s0 rest s k"
    using st k by (simp add: valState_def)
  have w: "0 < waiting (nodes s) (clientInfos (nodes s0 ! k)) + int (count_list rest k)"
    using waiting_pos [OF c rc] by simp
  have cm: "cudaMemDataset s = cudaMemDataset s0"
    using st by (simp add: valState_def)
  have copy: "copyAfterEvaluation (nodes s0 ! k)"
    if "outputSize (nodes s0 ! k) \<noteq> 1"
      and "computeInGPU (nodes s0 ! c) \<noteq> computeInGPU (nodes s0 ! k)"
  proof -
    have "needsCopy (nodes s0) k"
      unfolding needsCopy_def using that c by blast
    then show ?thesis using ready k by (simp add: devReady_def)
  qed
  have both: "dataMapView s (sideMap X s) k = expected out s0 X k
              \<and> (\<forall>p n. sideMap X s k = Some (p, n) \<longrightarrow> ptrNode p \<noteq> Some c)"
  proof (cases "computed (nodes s0 ! k)")
    case False
    then have dm: "sideMap X s k = sideMap X s0 k"
      using inv by (cases X) (simp_all add: valInv_def Let_def sideMap_def)
    have stat: "staticSpan (sideMap X s0 k)"
      using ready k False by (cases X) (simp_all add: devReady_def sideMap_def)
    show ?thesis
    proof (cases "sideMap X s0 k")
      case None
      then show ?thesis using dm False by (simp add: dataMapView_def expected_def)
    next
      case (Some sp)
      obtain p n where sp: "sp = (p, n)" by (cases sp)
      have pn: "ptrNode p = None"
        using stat Some sp by (simp add: staticSpan_def)
      have "spanValues s (p, n) = spanValues s0 (p, n)"
        by (rule spanValues_frame [OF cm]) (simp add: pn)
      then show ?thesis
        using dm False Some sp pn by (simp add: dataMapView_def expected_def)
    qed
  next
    case True
    note r = rk [OF True]
    show ?thesis
    proof (cases "outputSize (nodes s0 ! k) = 1")
      case scalar: True
      have "scalarBuffer (nodes s ! k) = out k 0"
        and "dataMapCPU s k = Some (ScalarPtr k, 1)" and "dataMapCUDA s k = Some (ScalarPtr k, 1)"
        using inv True r scalar by (simp_all add: valInv_def Let_def)
      then show ?thesis
        using True scalar ck(2)
        by (cases X)
           (simp_all add: dataMapView_def expected_def sideMap_def spanValues_def ptrNode_def)
    next
      case vector: False
      have cpu: "dataMapCPU s k = Some (CpuPtr k, outputSize (nodes s0 ! k))
                 \<or> computeInGPU (nodes s0 ! k) \<and> \<not> copyAfterEvaluation (nodes s0 ! k)"
        and gpu: "dataMapCUDA s k = Some (GpuPtr k, outputSize (nodes s0 ! k))
                 \<or> \<not> computeInGPU (nodes s0 ! k) \<and> \<not> copyAfterEvaluation (nodes s0 ! k)"
        and "\<exists>b. buffer (nodes s ! k) = Some b
                \<and> bufferData b = map (out k) [0..<outputSize (nodes s0 ! k)]"
        using inv True r vector w by (simp_all add: valInv_def Let_def)
      then obtain b where b: "buffer (nodes s ! k) = Some b"
        "bufferData b = map (out k) [0..<outputSize (nodes s0 ! k)]"
        by blast
      show ?thesis
      proof (cases X)
        case Host
        then have "\<not> computeInGPU (nodes s0 ! c)"
          using X by (simp add: placement_def split: if_splits)
        then have "dataMapCPU s k = Some (CpuPtr k, outputSize (nodes s0 ! k))"
          using cpu copy [OF vector] by auto
        then show ?thesis
          using b True Host ck(2)
          by (simp add: dataMapView_def expected_def sideMap_def spanValues_def ptrNode_def)
      next
        case Device
        then have "computeInGPU (nodes s0 ! c)"
          using X by (simp add: placement_def split: if_splits)
        then have "dataMapCUDA s k = Some (GpuPtr k, outputSize (nodes s0 ! k))"
          using gpu copy [OF vector] by auto
        then show ?thesis
          using b True Device ck(2)
          by (simp add: dataMapView_def expected_def sideMap_def spanValues_def ptrNode_def)
      qed
    qed
  qed
  show "dataMapView s (sideMap X s) k = expected out s0 X k"
    using both by simp
  show "\<And>p n. sideMap X s k = Some (p, n) \<Longrightarrow> ptrNode p \<noteq> Some c"
    using both by simp
qed

lemma kernel_fresh:
  assumes st: "valState out s0 rest s" and ready: "devReady s0" and den: "denotes K s0 out"
    and i: "i < length (nodes s0)" and comp: "computed (nodes s0 ! i)"
    and servers: "\<And>k. k \<in> set (serverInfos (nodes s0 ! i)) \<Longrightarrow> remServers (nodes s ! k) = - 2"
    and ri: "remServers (nodes s ! i) \<noteq> - 2"
    and X: "X = placement (nodes s0 ! i)"
    and V: "\<And>k. k \<noteq> i \<Longrightarrow> (\<And>p n. sideMap X s k = Some (p, n) \<Longrightarrow> ptrNode p \<noteq> Some i) \<Longrightarrow>
              V k = dataMapView s (sideMap X s) k"
    and pos: "pos < outputSize (nodes s0 ! i)"
  shows "K i X (outputSize (nodes s0 ! i)) V pos = out i pos"
proof -
  note e = devReady_edges [OF ready]
  have "V k = expected out s0 X k" if k: "k \<in> set (serverInfos (nodes s0 ! i))" for k
  proof -
    have lt: "k < i" and cl: "i \<in> set (clientInfos (nodes s0 ! k))"
      using e(1) [OF i k] by simp_all
    have kn: "k < length (nodes s0)" using lt i by simp
    have rk: "remServers (nodes s ! k) < 0" using servers [OF k] by simp
    note v = valInv_view [OF st ready kn cl rk ri X]
    have "V k = dataMapView s (sideMap X s) k"
      using lt v(2) by (intro V) simp_all
    then show ?thesis using v(1) by simp
  qed
  then show ?thesis
    using den i comp pos unfolding denotes_def X by blast
qed

lemma valState_launch:
  assumes st: "valState out s0 rest s" and ready: "devReady s0" and den: "denotes K s0 out"
    and c: "c < length (nodes s0)" and gpu: "computeInGPU (nodes s0 ! c)"
    and rc: "remServers (nodes s ! c) = 0"
    and servers: "\<And>k. k \<in> set (serverInfos (nodes s0 ! c)) \<Longrightarrow> remServers (nodes s ! k) = - 2"
  shows "valState out s0 rest (assignToGPU K c s)"
proof -
  let ?s' = "assignToGPU K c s"
  note e = devReady_edges [OF ready]
  note stat = valState_static [OF st]
  have len: "length (nodes s) = length (nodes s0)" by (rule stat(7) [OF c])
  have cl: "c < length (nodes s)" using c len by simp
  have m: "map staticInfo (nodes ?s') = map staticInfo (nodes s0)"
    using st by (simp add: valState_def assignToGPU_map)
  have rs: "remServers (nodes ?s' ! j) = (if j = c then - 1 else remServers (nodes s ! j))"
    if "j < length (nodes s0)" for j
    using map_remServers_nth [OF assignToGPU_remServers [OF cl, of K]] that len by simp
  have w: "waiting (nodes ?s') (clientInfos (nodes s0 ! j)) = waiting (nodes s) (clientInfos (nodes s0 ! j))"
    if j: "j < length (nodes s0)" for j
  proof (rule waiting_cong)
    fix x assume "x \<in> set (clientInfos (nodes s0 ! j))"
    then have "x < length (nodes s0)" using e(2) [OF j] by simp
    then show "(remServers (nodes ?s' ! x) = - 2) = (remServers (nodes s ! x) = - 2)"
      using rs rc by simp
  qed
  have nOut: "outputSize (nodes s ! c) = outputSize (nodes s0 ! c)"
    and cp: "copyAfterEvaluation (nodes s ! c) = copyAfterEvaluation (nodes s0 ! c)"
    by (rule stat [OF c])+
  have cp1: "\<not> copyAfterEvaluation (nodes s0 ! c)" if "outputSize (nodes s0 ! c) = 1"
    using ready c that by (simp add: devReady_def needsCopy_def)
  have comp: "computed (nodes s0 ! c)" and X: "Device = placement (nodes s0 ! c)"
    using gpu by (simp_all add: computed_def placement_def)
  obtain V where V: "\<And>k. k \<noteq> c \<Longrightarrow> (\<And>p n. dataMapCUDA s k = Some (p, n) \<Longrightarrow> ptrNode p \<noteq> Some c) \<Longrightarrow>
                 V k = dataMapView s (dataMapCUDA s) k"
    and sc: "outputSize (nodes s0 ! c) = 1 \<Longrightarrow>
          scalarBuffer (nodes ?s' ! c) = K c Device 1 V 0"
    and bf: "outputSize (nodes s0 ! c) \<noteq> 1 \<Longrightarrow>
          (\<exists>b. buffer (nodes ?s' ! c) = Some b
             \<and> bufferData b = map (K c Device (outputSize (nodes s0 ! c)) V)
                                [0..<outputSize (nodes s0 ! c)])"
    using assignToGPU_effect [OF cl, of K] unfolding nOut by blast
  have val: "K c Device (outputSize (nodes s0 ! c)) V pos = out c pos"
    if "pos < outputSize (nodes s0 ! c)" for pos
  proof (rule kernel_fresh [OF st ready den c comp servers _ X _ that])
    show "remServers (nodes s ! c) \<noteq> - 2" using rc by simp
    show "V k = dataMapView s (sideMap Device s) k"
      if "k \<noteq> c" and "\<And>p n. sideMap Device s k = Some (p, n) \<Longrightarrow> ptrNode p \<noteq> Some c" for k
      using V [of k] that by (simp add: sideMap_def)
  qed
  have self: "valInv out s0 rest ?s' c"
  proof -
    have A: "waiting (nodes ?s') (clientInfos (nodes s0 ! c)) + int (count_list rest c)
               \<le> remClients (nodes ?s' ! c)"
      using st c cl by (simp add: valState_def valInv_def Let_def w assignToGPU_maps)
    show ?thesis
    proof (cases "outputSize (nodes s0 ! c) = 1")
      case True
      have "scalarBuffer (nodes ?s' ! c) = out c 0"
        using sc [OF True] val [of 0] True by simp
      then show ?thesis
        using A True comp cp1 [OF True] cl
        by (simp add: valInv_def Let_def assignToGPU_maps nOut cp)
    next
      case False
      obtain b where b: "buffer (nodes ?s' ! c) = Some b"
        "bufferData b = map (K c Device (outputSize (nodes s0 ! c)) V)
                                [0..<outputSize (nodes s0 ! c)]"
        using bf [OF False] by blast
      have "bufferData b = map (out c) [0..<outputSize (nodes s0 ! c)]"
        unfolding b(2) by (rule map_cong) (simp_all add: val)
      then show ?thesis
        using A False comp cl gpu b(1)
        by (simp add: valInv_def Let_def assignToGPU_maps nOut cp)
    qed
  qed
  have "valInv out s0 rest ?s' j" if j: "j < length (nodes s0)" for j
  proof (cases "j = c")
    case True
    then show ?thesis using self by simp
  next
    case False
    have old: "valInv out s0 rest s j" using st j by (simp add: valState_def)
    show ?thesis
      by (rule valInv_same [OF old])
         (use False cl in \<open>simp_all add: w [OF j] assignToGPU_nth assignToGPU_maps\<close>)
  qed
  then show ?thesis
    using m st by (simp add: valState_def assignToGPU_maps)
qed

lemma retire_waiting:
  assumes ready: "devReady s0" and i: "i < length (nodes s0)" and j: "j < length (nodes s0)"
    and ri: "remServers (nodes s ! i) \<noteq> - 2"
    and rs: "\<And>x. x < length (nodes s0) \<Longrightarrow>
               remServers (nodes s' ! x) = (if x = i then - 2 else remServers (nodes s ! x))"
  shows "waiting (nodes s') (clientInfos (nodes s0 ! j))
           + int (count_list (serverInfos (nodes s0 ! i)) j)
         = waiting (nodes s) (clientInfos (nodes s0 ! j)) + int (count_list [] j)"
proof -
  note e = devReady_edges [OF ready]
  have "waiting (nodes s') (clientInfos (nodes s0 ! j))
          = waiting (nodes s) (clientInfos (nodes s0 ! j))
            - int (count_list (clientInfos (nodes s0 ! j)) i)"
  proof (rule waiting_retire [OF ri])
    show "remServers (nodes s' ! i) = - 2" using rs [OF i] by simp
    fix c assume "c \<in> set (clientInfos (nodes s0 ! j))" and ne: "c \<noteq> i"
    then have "c < length (nodes s0)" using e(2) [OF j] by simp
    then show "remServers (nodes s' ! c) = remServers (nodes s ! c)"
      using rs ne by simp
  qed
  then show ?thesis using e(3) [OF i j] by simp
qed

lemma valState_retire:
  assumes st: "valState out s0 [] s" and ready: "devReady s0" and i: "i < length (nodes s0)"
    and ri: "remServers (nodes s ! i) \<noteq> - 2"
    and m: "map staticInfo (nodes s') = map staticInfo (nodes s)"
    and bm: "batchMode s' = batchMode s" and cm: "cudaMemDataset s' = cudaMemDataset s"
    and rs: "map remServers (nodes s') = (map remServers (nodes s))[i := - 2]"
    and other: "\<And>j. j < length (nodes s0) \<Longrightarrow> j \<noteq> i \<Longrightarrow>
                  nodes s' ! j = nodes s ! j \<and> dataMapCPU s' j = dataMapCPU s j
                  \<and> dataMapCUDA s' j = dataMapCUDA s j"
    and self: "valInv out s0 (serverInfos (nodes s0 ! i)) s' i"
  shows "valState out s0 (serverInfos (nodes s0 ! i)) s'"
proof -
  have len: "length (nodes s) = length (nodes s0)"
    by (rule valState_static(7) [OF st i])
  have rs': "remServers (nodes s' ! x) = (if x = i then - 2 else remServers (nodes s ! x))"
    if "x < length (nodes s0)" for x
    using map_remServers_nth [OF rs] that len by simp
  have "valInv out s0 (serverInfos (nodes s0 ! i)) s' j" if j: "j < length (nodes s0)" for j
  proof (cases "j = i")
    case True
    then show ?thesis using self by simp
  next
    case False
    have old: "valInv out s0 [] s j" using st j by (simp add: valState_def)
    show ?thesis
      by (rule valInv_same [OF old retire_waiting [OF ready i j ri rs']])
         (use other [OF j False] in simp_all)
  qed
  then show ?thesis
    using st m bm cm by (simp add: valState_def)
qed

lemma spanValues_updNode:
  assumes "\<And>info. buffer (f info) = buffer info"
    and "\<And>info. scalarBuffer (f info) = scalarBuffer info"
  shows "spanValues (updNode i f s) sp = spanValues s sp"
proof -
  obtain p n where sp: "sp = (p, n)" by (cases sp)
  have "buffer (nodes (updNode i f s) ! j) = buffer (nodes s ! j)
        \<and> scalarBuffer (nodes (updNode i f s) ! j) = scalarBuffer (nodes s ! j)" for j
    by (cases "i < length (nodes s)"; cases "j = i") (simp_all add: assms list_update_beyond)
  then show ?thesis
    unfolding sp by (intro spanValues_frame) simp_all
qed

lemma dataMapView_updNode:
  assumes "\<And>info. buffer (f info) = buffer info"
    and "\<And>info. scalarBuffer (f info) = scalarBuffer info"
  shows "dataMapView (updNode i f s) dm = dataMapView s dm"
  by (rule ext) (simp add: dataMapView_def spanValues_updNode [OF assms] cong: option.map_cong)

text \<open>The host node \<open>i\<close> is retired and, unless the dataset binds it, computed.\<close>

lemma valState_runHost:
  assumes st: "valState out s0 [] s" and ready: "devReady s0" and den: "denotes K s0 out"
    and i: "i < length (nodes s0)" and host: "\<not> computeInGPU (nodes s0 ! i)"
    and ri: "remServers (nodes s ! i) = 0"
    and servers: "\<And>k. k \<in> set (serverInfos (nodes s0 ! i)) \<Longrightarrow> remServers (nodes s ! k) = - 2"
  defines "s1 \<equiv> updNode i (\<lambda>info. info\<lparr>remServers := - 2\<rparr>) s"
  defines "s2 \<equiv> (if \<not> fromDataset (nodes s1 ! i) then computeCPUNode K i s1 else s1)"
  shows "valState out s0 (serverInfos (nodes s0 ! i)) s2"
proof -
  note e = devReady_edges [OF ready]
  note stat = valState_static [OF st]
  have len: "length (nodes s) = length (nodes s0)" by (rule stat(7) [OF i])
  have il: "i < length (nodes s)" "i < length (nodes s1)" using i len by (simp_all add: s1_def)
  have bm: "batchMode s = Cuda" "batchMode s1 = Cuda" using stat(8) [OF i] by (simp_all add: s1_def)
  have fd: "fromDataset (nodes s1 ! i) = fromDataset (nodes s0 ! i)"
    using il stat(4) [OF i] by (simp add: s1_def)
  have nOut: "outputSize (nodes s1 ! i) = outputSize (nodes s0 ! i)"
    and cp: "copyAfterEvaluation (nodes s1 ! i) = copyAfterEvaluation (nodes s0 ! i)"
    using il stat(5,6) [OF i] by (simp_all add: s1_def)
  have rs: "map remServers (nodes s2) = (map remServers (nodes s))[i := - 2]"
    using il by (simp add: s2_def s1_def computeCPUNode_map map_update)
  have rs': "remServers (nodes s2 ! x) = (if x = i then - 2 else remServers (nodes s ! x))"
    if "x < length (nodes s0)" for x
    using map_remServers_nth [OF rs] that len by simp
  have ne: "remServers (nodes s ! i) \<noteq> - 2" using ri by simp
  note weq = retire_waiting [OF ready i i ne rs']
  have rc: "remClients (nodes s2 ! i) = remClients (nodes s ! i)"
    using il by (simp add: s2_def computeCPUNode_maps) (simp add: s1_def)
  have old: "valInv out s0 [] s i" using st i by (simp add: valState_def)
  have A: "waiting (nodes s2) (clientInfos (nodes s0 ! i))
             + int (count_list (serverInfos (nodes s0 ! i)) i) \<le> remClients (nodes s2 ! i)"
    using old weq rc by (simp add: valInv_def Let_def)
  have self: "valInv out s0 (serverInfos (nodes s0 ! i)) s2 i"
  proof (cases "fromDataset (nodes s0 ! i)")
    case True
    then have "\<not> computed (nodes s0 ! i)" and "s2 = s1"
      using host fd by (simp_all add: computed_def s2_def)
    then show ?thesis
      using old A by (simp add: valInv_def Let_def) (simp add: s1_def)
  next
    case False
    then have comp: "computed (nodes s0 ! i)" and s2: "s2 = computeCPUNode K i s1"
      using fd by (simp_all add: computed_def s2_def)
    have X: "Host = placement (nodes s0 ! i)"
      using host by (simp add: placement_def)
    have cp1: "\<not> copyAfterEvaluation (nodes s0 ! i)" if "outputSize (nodes s0 ! i) = 1"
      using ready i that by (simp add: devReady_def needsCopy_def)
    obtain V where V: "\<And>k. k \<noteq> i \<Longrightarrow>
                 (\<And>p n. dataMapCPU s1 k = Some (p, n) \<Longrightarrow> ptrNode p \<noteq> Some i) \<Longrightarrow>
                 V k = dataMapView s1 (dataMapCPU s1) k"
      and sc: "outputSize (nodes s0 ! i) = 1 \<Longrightarrow>
          scalarBuffer (nodes s2 ! i) = K i Host 1 V 0"
      and bf: "outputSize (nodes s0 ! i) \<noteq> 1 \<Longrightarrow>
          (\<exists>b. buffer (nodes s2 ! i) = Some b
             \<and> bufferData b = map (K i Host (outputSize (nodes s0 ! i)) V)
                                [0..<outputSize (nodes s0 ! i)])"
      using computeCPUNode_effect [OF il(2), of K] unfolding nOut s2 by blast
    have view1: "dataMapView s1 (dataMapCPU s1) = dataMapView s (dataMapCPU s)"
      unfolding s1_def by (simp add: dataMapView_updNode)
    have val: "K i Host (outputSize (nodes s0 ! i)) V pos = out i pos"
      if "pos < outputSize (nodes s0 ! i)" for pos
    proof (rule kernel_fresh [OF st ready den i comp servers ne X _ that])
      show "V k = dataMapView s (sideMap Host s) k"
        if "k \<noteq> i" and "\<And>p n. sideMap Host s k = Some (p, n) \<Longrightarrow> ptrNode p \<noteq> Some i" for k
        using V [of k] that by (simp add: sideMap_def view1) (simp add: s1_def)
    qed
    have r2: "remServers (nodes s2 ! i) = - 2" using rs' [OF i] by simp
    show ?thesis
    proof (cases "outputSize (nodes s0 ! i) = 1")
      case True
      have "scalarBuffer (nodes s2 ! i) = out i 0"
        using sc [OF True] val [of 0] True by simp
      then show ?thesis
        using A True comp cp1 [OF True] il bm r2
        by (simp add: valInv_def Let_def) (simp add: s2 computeCPUNode_maps nOut cp)
    next
      case False
      obtain b where b: "buffer (nodes s2 ! i) = Some b"
        "bufferData b = map (K i Host (outputSize (nodes s0 ! i)) V)
                                [0..<outputSize (nodes s0 ! i)]"
        using bf [OF False] by blast
      have "bufferData b = map (out i) [0..<outputSize (nodes s0 ! i)]"
        unfolding b(2) by (rule map_cong) (simp_all add: val)
      then show ?thesis
        using A False comp il host b(1) bm r2
        by (simp add: valInv_def Let_def) (simp add: s2 computeCPUNode_maps nOut cp)
    qed
  qed
  show ?thesis
  proof (rule valState_retire [OF st ready i ne _ _ _ rs _ self])
    show "map staticInfo (nodes s2) = map staticInfo (nodes s)"
      by (simp add: s2_def s1_def computeCPUNode_map map_list_update_same)
    show "batchMode s2 = batchMode s" by (simp add: s2_def s1_def)
    show "cudaMemDataset s2 = cudaMemDataset s" by (simp add: s2_def s1_def computeCPUNode_maps)
    show "nodes s2 ! j = nodes s ! j \<and> dataMapCPU s2 j = dataMapCPU s j
            \<and> dataMapCUDA s2 j = dataMapCUDA s j"
      if "j < length (nodes s0)" "j \<noteq> i" for j
      using that il bm
      by (simp add: s2_def computeCPUNode_nth computeCPUNode_maps) (simp add: s1_def)
  qed
qed

lemma valState_fields [simp]:
  "valState out s0 rest (s\<lparr>streamQueries := q\<rparr>) = valState out s0 rest s"
  "valState out s0 rest (logEvent ev s) = valState out s0 rest s"
  by (simp_all add: valState_def valInv_def logEvent_def)

lemma valState_decrement:
  assumes st: "valState out s0 rest s" and ready: "devReady s0" and c: "c < length (nodes s0)"
    and rc: "1 \<le> remServers (nodes s ! c)"
  shows "valState out s0 rest
           (updNode c (\<lambda>infoClient. infoClient\<lparr>remServers := remServers infoClient - 1\<rparr>) s)"
proof -
  let ?s' = "updNode c (\<lambda>infoClient. infoClient\<lparr>remServers := remServers infoClient - 1\<rparr>) s"
  note e = devReady_edges [OF ready]
  have len: "length (nodes s) = length (nodes s0)" by (rule valState_static(7) [OF st c])
  have cl: "c < length (nodes s)" using c len by simp
  have "valInv out s0 rest ?s' j" if j: "j < length (nodes s0)" for j
  proof -
    have old: "valInv out s0 rest s j" using st j by (simp add: valState_def)
    have w: "waiting (nodes ?s') (clientInfos (nodes s0 ! j))
               = waiting (nodes s) (clientInfos (nodes s0 ! j))"
    proof (rule waiting_cong)
      fix x assume "x \<in> set (clientInfos (nodes s0 ! j))"
      then have "x < length (nodes s)" using e(2) [OF j] len by simp
      then show "(remServers (nodes ?s' ! x) = - 2) = (remServers (nodes s ! x) = - 2)"
        using rc by (cases "x = c") simp_all
    qed
    have f: "remClients (nodes ?s' ! j) = remClients (nodes s ! j)"
      "scalarBuffer (nodes ?s' ! j) = scalarBuffer (nodes s ! j)"
      "buffer (nodes ?s' ! j) = buffer (nodes s ! j)"
      "(remServers (nodes ?s' ! j) < 0) = (remServers (nodes s ! j) < 0)"
      using cl rc by (cases "j = c"; simp)+
    show ?thesis
      by (rule valInv_same [OF old]) (use w f in simp_all)
  qed
  then show ?thesis
    using st by (simp add: valState_def map_list_update_same)
qed

lemma valState_notify:
  assumes sch: "schedState (nodes s0) e0 (c # cs) s" and st: "valState out s0 rest s"
    and ready: "devReady s0" and den: "denotes K s0 out" and c: "c < length (nodes s0)"
  shows "valState out s0 rest (notifyClientGPU K c s)"
proof -
  let ?s1 = "updNode c (\<lambda>infoClient. infoClient\<lparr>remServers := remServers infoClient - 1\<rparr>) s"
  note e = devReady_edges [OF ready]
  note stat = valState_static [OF st]
  have len: "length (nodes s) = length (nodes s0)" by (rule stat(7) [OF c])
  have cl: "c < length (nodes s)" using c len by simp
  have inv: "nodeInv (c # cs) (set (drop e0 (events s))) (nodes s) c"
    using sch c by (simp add: schedState_def)
  then have rs: "remServers (nodes s ! c) = pending (nodes s) c + int (count_list (c # cs) c)"
    by (auto simp: nodeInv_def)
  have one: "1 \<le> remServers (nodes s ! c)"
    using rs pending_nonneg [of "nodes s" c] by simp
  have st1: "valState out s0 rest ?s1"
    by (rule valState_decrement [OF st ready c one])
  show ?thesis
  proof (cases "computeInGPU (nodes ?s1 ! c) \<and> remServers (nodes ?s1 ! c) = 0")
    case False
    then show ?thesis using st1 by (auto simp: notifyClientGPU_def Let_def)
  next
    case True
    then have gpu: "computeInGPU (nodes s0 ! c)" and r1: "remServers (nodes s ! c) = 1"
      using cl stat(3) [OF c] by simp_all
    have "pending (nodes s) c = 0"
      using rs r1 pending_nonneg [of "nodes s" c] by simp
    then have retired: "remServers (nodes s ! k) = - 2"
      if "k \<in> set (serverInfos (nodes s0 ! c))" for k
      using that stat(1) [OF c] by (simp add: pending_zero_iff)
    have "valState out s0 rest (assignToGPU K c ?s1)"
    proof (rule valState_launch [OF st1 ready den c gpu])
      show "remServers (nodes ?s1 ! c) = 0" using True by simp
      fix k assume k: "k \<in> set (serverInfos (nodes s0 ! c))"
      then have "k \<noteq> c" using e(1) [OF c k] by simp
      then show "remServers (nodes ?s1 ! k) = - 2" using retired [OF k] by simp
    qed
    then show ?thesis using True by (simp add: notifyClientGPU_def Let_def)
  qed
qed

lemma valState_notify_all:
  assumes "schedState (nodes s0) e0 cs s" and "valState out s0 rest s"
    and "devReady s0" and "denotes K s0 out" and "\<And>c. c \<in> set cs \<Longrightarrow> c < length (nodes s0)"
  shows "valState out s0 rest (fold (notifyClientGPU K) cs s)"
  using assms(1,2,5)
proof (induction cs arbitrary: s)
  case Nil
  then show ?case by simp
next
  case (Cons c cs)
  have valid: "validEdges (nodes s0)"
    using assms(3) by (simp add: devReady_def wellFormed_def)
  have c: "c < length (nodes s0)" using Cons.prems(3) by simp
  have "schedState (nodes s0) e0 cs (notifyClientGPU K c s)"
    by (rule schedState_notify [OF Cons.prems(1) c valid])
  moreover have "valState out s0 rest (notifyClientGPU K c s)"
    by (rule valState_notify [OF Cons.prems(1,2) assms(3,4) c])
  ultimately show ?case
    using Cons.IH Cons.prems(3) by simp
qed

lemma releaseServer_nth:
  "j \<noteq> k \<Longrightarrow> nodes (releaseServer k s) ! j = nodes s ! j"
  "k < length (nodes s) \<Longrightarrow>
     nodes (releaseServer k s) ! k
       = (nodes s ! k)\<lparr>remClients := remClients (nodes s ! k) - 1,
                       buffer := (if remClients (nodes s ! k) - 1 = 0 then None
                                  else buffer (nodes s ! k))\<rparr>"
  "dataMapCPU (releaseServer k s) = dataMapCPU s"
  "cudaMemDataset (releaseServer k s) = cudaMemDataset s"
  by (simp_all add: releaseServer_def Let_def)

lemma valState_release:
  assumes st: "valState out s0 (k # rest) s" and k: "k < length (nodes s0)"
    and cl: "clientInfos (nodes s0 ! k) \<noteq> []"
  shows "valState out s0 rest (releaseServer k s)"
proof -
  let ?s' = "releaseServer k s"
  have len: "length (nodes s) = length (nodes s0)" by (rule valState_static(7) [OF st k])
  have kl: "k < length (nodes s)" using k len by simp
  have rs: "map remServers (nodes ?s') = map remServers (nodes s)"
    by (simp add: releaseServer_map)
  have r: "remServers (nodes ?s' ! c) = remServers (nodes s ! c)" for c
    using kl by (cases "c = k") (simp_all add: releaseServer_nth)
  have w: "waiting (nodes ?s') cs = waiting (nodes s) cs" for cs
    by (rule waiting_cong) (simp add: r)
  have "valInv out s0 rest ?s' j" if j: "j < length (nodes s0)" for j
  proof (cases "j = k")
    case False
    have old: "valInv out s0 (k # rest) s j" using st j by (simp add: valState_def)
    show ?thesis
      by (rule valInv_same [OF old]) (use False in \<open>simp_all add: w releaseServer_nth\<close>)
  next
    case True
    have old: "valInv out s0 (k # rest) s k" using st k by (simp add: valState_def)
    have nn: "0 \<le> waiting (nodes s) (clientInfos (nodes s0 ! k))"
      by (rule waiting_bounds)
    show ?thesis
      unfolding True
      using old cl kl nn
      by (auto simp: valInv_def Let_def w releaseServer_nth)
  qed
  then show ?thesis
    using st by (simp add: valState_def releaseServer_map releaseServer_nth)
qed

lemma valState_release_all:
  assumes "valState out s0 svs s"
    and "\<And>k. k \<in> set svs \<Longrightarrow> k < length (nodes s0) \<and> clientInfos (nodes s0 ! k) \<noteq> []"
  shows "valState out s0 [] (fold releaseServer svs s)"
  using assms
proof (induction svs arbitrary: s)
  case Nil
  then show ?case by simp
next
  case (Cons k svs)
  have "valState out s0 svs (releaseServer k s)"
    using Cons.prems by (intro valState_release) simp_all
  then show ?case using Cons.IH Cons.prems(2) by simp
qed

subsection \<open>The invariant of the values, step by step\<close>

lemma schedState_servers_retired:
  assumes sch: "schedState (nodes s0) e0 [] s" and k: "k < length (nodes s0)"
    and r: "remServers (nodes s ! k) = 0" and sv: "sv \<in> set (serverInfos (nodes s0 ! k))"
  shows "remServers (nodes s ! sv) = - 2"
proof -
  have "nodeInv [] (set (drop e0 (events s))) (nodes s) k"
    and g: "sameGraph (nodes s) (nodes s0)"
    using sch k by (simp_all add: schedState_def)
  then have "pending (nodes s) k = 0"
    using r by (auto simp: nodeInv_def)
  then show ?thesis
    using sv sameGraph_nth(1) [OF g k] by (simp add: pending_zero_iff)
qed

lemma valState_releases:
  assumes st: "valState out s0 (serverInfos (nodes s0 ! k)) s" and ready: "devReady s0"
    and k: "k < length (nodes s0)"
  shows "valState out s0 [] (fold releaseServer (serverInfos (nodes s ! k)) s)"
proof -
  note e = devReady_edges [OF ready]
  have sv: "serverInfos (nodes s ! k) = serverInfos (nodes s0 ! k)"
    by (rule valState_static(1) [OF st k])
  show ?thesis
    unfolding sv using st
  proof (rule valState_release_all)
    fix x assume x: "x \<in> set (serverInfos (nodes s0 ! k))"
    then have "x < k" "k \<in> set (clientInfos (nodes s0 ! x))"
      using e(1) [OF k x] by simp_all
    then show "x < length (nodes s0) \<and> clientInfos (nodes s0 ! x) \<noteq> []"
      using k by auto
  qed
qed

lemma valState_finishGPUNode:
  assumes sch: "schedState (nodes s0) e0 [] s" and st: "valState out s0 [] s"
    and ready: "devReady s0" and den: "denotes K s0 out" and k: "k < length (nodes s0)"
  shows "valState out s0 [] (finishGPUNode active K k s)"
proof (cases "remServers (nodes s ! k) = - 1")
  case False
  then show ?thesis using st by (simp add: finishGPUNode_def)
next
  case True
  let ?s0 = "s\<lparr>streamQueries := streamQueries s + 1\<rparr>"
  have valid: "validEdges (nodes s0)" and mutual: "mutualEdges (nodes s0)"
    using ready by (simp_all add: devReady_def wellFormed_def)
  have sch0: "schedState (nodes s0) e0 [] ?s0"
    using sch by (simp add: schedState_def)
  have st0: "valState out s0 [] ?s0"
    using st by simp
  show ?thesis
  proof (cases "active (streamQueries s) k")
    case active: True
    then show ?thesis using st0 True by (simp add: finishGPUNode_def Let_def)
  next
    case idle: False
    let ?s1 = "updNode k (\<lambda>info. info\<lparr>remServers := - 2\<rparr>) ?s0"
    let ?s2 = "fold (notifyClientGPU K) (clientInfos (nodes ?s1 ! k)) ?s1"
    have len: "length (nodes s) = length (nodes s0)" using schedState_length [OF sch] .
    have kl: "k < length (nodes s)" using k len by simp
    have eq: "finishGPUNode active K k s = fold releaseServer (serverInfos (nodes ?s2 ! k)) ?s2"
      using True idle by (simp add: finishGPUNode_def Let_def)
    have cl: "clientInfos (nodes ?s1 ! k) = clientInfos (nodes ?s0 ! k)"
      using kl by simp
    have r0: "remServers (nodes ?s0 ! k) = - 1" using True by simp
    have sch1: "schedState (nodes s0) e0 (clientInfos (nodes ?s0 ! k)) ?s1"
      by (rule schedState_retired_device [OF sch0 k valid mutual r0])
    have ne: "remServers (nodes ?s0 ! k) \<noteq> - 2" using True by simp
    have rs: "map remServers (nodes ?s1) = (map remServers (nodes ?s0))[k := - 2]"
      using kl by (simp add: map_update)
    have st1: "valState out s0 (serverInfos (nodes s0 ! k)) ?s1"
    proof (rule valState_retire [OF st0 ready k ne _ _ _ rs])
      show "map staticInfo (nodes ?s1) = map staticInfo (nodes ?s0)"
        by (simp add: map_list_update_same)
      show "batchMode ?s1 = batchMode ?s0" by simp
      show "cudaMemDataset ?s1 = cudaMemDataset ?s0" by simp
      show "nodes ?s1 ! j = nodes ?s0 ! j \<and> dataMapCPU ?s1 j = dataMapCPU ?s0 j
              \<and> dataMapCUDA ?s1 j = dataMapCUDA ?s0 j" if "j < length (nodes s0)" "j \<noteq> k" for j
        using that by simp
      have old: "valInv out s0 [] ?s0 k" using st0 k by (simp add: valState_def)
      have rs': "remServers (nodes ?s1 ! x) = (if x = k then - 2 else remServers (nodes ?s0 ! x))"
        if "x < length (nodes s0)" for x
        using that kl by simp
      show "valInv out s0 (serverInfos (nodes s0 ! k)) ?s1 k"
        by (rule valInv_same [OF old retire_waiting [OF ready k k ne rs']])
           (use kl True in simp_all)
    qed
    have "valState out s0 (serverInfos (nodes s0 ! k)) ?s2"
      unfolding cl using sch1 st1 ready den
      by (rule valState_notify_all) (use schedState_clients [OF sch0 valid k] in auto)
    then show ?thesis
      unfolding eq using ready k by (rule valState_releases)
  qed
qed

lemma valState_finish_all:
  assumes "schedState (nodes s0) e0 [] s" and "valState out s0 [] s"
    and "devReady s0" and "denotes K s0 out" and "\<And>k. k \<in> set ks \<Longrightarrow> k < length (nodes s0)"
  shows "valState out s0 [] (fold (finishGPUNode active K) ks s)"
  using assms(1,2,5)
proof (induction ks arbitrary: s)
  case Nil
  then show ?case by simp
next
  case (Cons k ks)
  have valid: "validEdges (nodes s0)" and mutual: "mutualEdges (nodes s0)"
    using assms(3) by (simp_all add: devReady_def wellFormed_def)
  have k: "k < length (nodes s0)" using Cons.prems(3) by simp
  have "schedState (nodes s0) e0 [] (finishGPUNode active K k s)"
    by (rule schedState_finishGPUNode [OF Cons.prems(1) k valid mutual])
  moreover have "valState out s0 [] (finishGPUNode active K k s)"
    by (rule valState_finishGPUNode [OF Cons.prems(1,2) assms(3,4) k])
  ultimately show ?case
    using Cons.IH Cons.prems(3) by simp
qed

lemma valState_runCPUNode:
  assumes sch: "schedState (nodes s0) e0 [] s" and st: "valState out s0 [] s"
    and ready: "devReady s0" and den: "denotes K s0 out" and k: "k < length (nodes s0)"
    and r: "remServers (nodes s ! k) = 0" and host: "\<not> computeInGPU (nodes s ! k)"
  shows "valState out s0 [] (runCPUNode K k s)"
proof -
  let ?s1 = "updNode k (\<lambda>info. info\<lparr>remServers := - 2\<rparr>) s"
  let ?s2 = "if \<not> fromDataset (nodes ?s1 ! k) then computeCPUNode K k ?s1 else ?s1"
  let ?s3 = "fold (notifyClientGPU K) (clientInfos (nodes ?s2 ! k)) ?s2"
  have valid: "validEdges (nodes s0)" and mutual: "mutualEdges (nodes s0)"
    using ready by (simp_all add: devReady_def wellFormed_def)
  have same: "notifyClientCPU K = notifyClientGPU K"
    by (rule ext)+ (rule notifyClientCPU_eq)
  have eq: "runCPUNode K k s = fold releaseServer (serverInfos (nodes ?s3 ! k)) ?s3"
    by (simp add: runCPUNode_def Let_def same)
  have host0: "\<not> computeInGPU (nodes s0 ! k)"
    using host valState_static(3) [OF st k] by simp
  have st2: "valState out s0 (serverInfos (nodes s0 ! k)) ?s2"
    by (rule valState_runHost [OF st ready den k host0 r])
       (rule schedState_servers_retired [OF sch k r])
  have sch2: "schedState (nodes s0) e0 (clientInfos (nodes s ! k)) ?s2"
    by (rule schedState_retired_host [OF sch k valid mutual r host])
  have cl: "clientInfos (nodes ?s2 ! k) = clientInfos (nodes s ! k)"
    using valState_static(2) [OF st2 k] valState_static(2) [OF st k] by simp
  have "valState out s0 (serverInfos (nodes s0 ! k)) ?s3"
    unfolding cl using sch2 st2 ready den
    by (rule valState_notify_all) (use schedState_clients [OF sch valid k] in auto)
  then show ?thesis
    unfolding eq using ready k by (rule valState_releases)
qed

lemma valState_step:
  assumes sch: "schedState (nodes s0) e0 [] s" and st: "valState out s0 [] s"
    and ready: "devReady s0" and den: "denotes K s0 out"
  shows "valState out s0 [] (schedulerStep active K s)"
proof -
  let ?s1 = "fold (finishGPUNode active K) [0..<length (nodes s)] s"
  have valid: "validEdges (nodes s0)" and mutual: "mutualEdges (nodes s0)"
    using ready by (simp_all add: devReady_def wellFormed_def)
  have len: "length (nodes s) = length (nodes s0)" using schedState_length [OF sch] .
  have sch1: "schedState (nodes s0) e0 [] ?s1"
    using sch by (rule schedState_finish_all) (simp_all add: len valid mutual)
  have st1: "valState out s0 [] ?s1"
    using sch st ready den by (rule valState_finish_all) (simp add: len)
  show ?thesis
  proof (cases "nextCPUNode ?s1")
    case None
    then show ?thesis using st1 by (simp add: schedulerStep_def Let_def)
  next
    case (Some k)
    note n = nextCPUNode_Some [OF Some]
    have k: "k < length (nodes s0)" using n(1) schedState_length [OF sch1] by simp
    have "valState out s0 [] (runCPUNode K k ?s1)"
      by (rule valState_runCPUNode [OF sch1 st1 ready den k n(2,3)])
    then show ?thesis using Some by (simp add: schedulerStep_def Let_def)
  qed
qed

lemma valState_iterate:
  assumes "schedState (nodes s0) e0 [] s" and "valState out s0 [] s"
    and "devReady s0" and "denotes K s0 out"
  shows "valState out s0 [] ((schedulerStep active K ^^ m) s)"
proof (induction m)
  case 0
  then show ?case using assms(2) by simp
next
  case (Suc m)
  have valid: "validEdges (nodes s0)" and mutual: "mutualEdges (nodes s0)"
    using assms(3) by (simp_all add: devReady_def wellFormed_def)
  have "schedState (nodes s0) e0 [] ((schedulerStep active K ^^ m) s)"
    by (rule schedState_iterate [OF assms(1) valid mutual])
  then show ?case
    using Suc assms(3,4) by (simp add: valState_step)
qed

lemma valState_resetCounters:
  assumes "devReady s0"
  shows "valState out s0 [] (resetCounters s0)"
proof -
  have "valInv out s0 [] (resetCounters s0) j" if j: "j < length (nodes s0)" for j
  proof -
    have "nodes (resetCounters s0) ! j
            = (nodes s0 ! j)\<lparr>remClients := int (length (clientInfos (nodes s0 ! j))),
                             remServers := int (length (serverInfos (nodes s0 ! j))),
                             buffer := None\<rparr>"
      using j by (simp add: resetCounters_def)
    moreover have "dataMapCPU (resetCounters s0) = dataMapCPU s0"
      "dataMapCUDA (resetCounters s0) = dataMapCUDA s0"
      by (simp_all add: resetCounters_def)
    ultimately show ?thesis
      using waiting_bounds(2) [of "nodes (resetCounters s0)" "clientInfos (nodes s0 ! j)"]
      by (simp add: valInv_def Let_def)
  qed
  moreover have "map staticInfo (nodes (resetCounters s0)) = map staticInfo (nodes s0)"
    by (rule resetCounters_map) (simp add: schedStatic_def)
  moreover have "batchMode (resetCounters s0) = Cuda"
    "cudaMemDataset (resetCounters s0) = cudaMemDataset s0"
    using assms by (simp_all add: resetCounters_def devReady_def)
  ultimately show ?thesis by (simp add: valState_def)
qed

lemma valState_assign_all:
  assumes "schedState (nodes s0) e0 [] s" and "valState out s0 [] s"
    and "devReady s0" and "denotes K s0 out" and "\<And>k. k \<in> set ks \<Longrightarrow> k < length (nodes s0)"
  shows "valState out s0 []
           (fold (\<lambda>i s. if remServers (nodes s ! i) = 0 \<and> computeInGPU (nodes s ! i)
                         then assignToGPU K i s else s) ks s)"
  using assms(1,2,5)
proof (induction ks arbitrary: s)
  case Nil
  then show ?case by simp
next
  case (Cons k ks)
  let ?s' = "if remServers (nodes s ! k) = 0 \<and> computeInGPU (nodes s ! k)
             then assignToGPU K k s else s"
  have valid: "validEdges (nodes s0)"
    using assms(3) by (simp add: devReady_def wellFormed_def)
  have k: "k < length (nodes s0)" using Cons.prems(3) by simp
  have "schedState (nodes s0) e0 [] ?s'"
    using schedState_launch [OF Cons.prems(1) k valid, of K] Cons.prems(1) by simp
  moreover have "valState out s0 [] ?s'"
  proof (cases "remServers (nodes s ! k) = 0 \<and> computeInGPU (nodes s ! k)")
    case False
    then show ?thesis using Cons.prems(2) by auto
  next
    case True
    then have r: "remServers (nodes s ! k) = 0" and gpu: "computeInGPU (nodes s0 ! k)"
      using valState_static(3) [OF Cons.prems(2) k] by simp_all
    have "valState out s0 [] (assignToGPU K k s)"
      by (rule valState_launch [OF Cons.prems(2) assms(3,4) k gpu r])
         (rule schedState_servers_retired [OF Cons.prems(1) k r])
    then show ?thesis using True by simp
  qed
  ultimately show ?case
    using Cons.IH Cons.prems(3) by simp
qed

lemma valState_initial:
  assumes "devReady s0" and "denotes K s0 out"
  shows "valState out s0 [] (assignInitial K (resetCounters s0))"
proof -
  have valid: "validEdges (nodes s0)"
    using assms(1) by (simp add: devReady_def wellFormed_def)
  have len: "length (nodes (resetCounters s0)) = length (nodes s0)"
    by (simp add: resetCounters_def)
  show ?thesis
    unfolding assignInitial_def
    using schedState_resetCounters [OF valid] valState_resetCounters [OF assms(1)] assms
    by (rule valState_assign_all) (simp add: len)
qed

subsection \<open>The value of the top node\<close>

lemma top_without_clients:
  assumes ready: "devReady s0" and ne: "nodes s0 \<noteq> []"
  shows "clientInfos (nodes s0 ! (length (nodes s0) - 1)) = []"
proof (rule ccontr)
  let ?t = "length (nodes s0) - 1"
  assume "clientInfos (nodes s0 ! ?t) \<noteq> []"
  then obtain c where c: "c \<in> set (clientInfos (nodes s0 ! ?t))"
    by (cases "clientInfos (nodes s0 ! ?t)") auto
  have t: "?t < length (nodes s0)" using ne by simp
  have "c < length (nodes s0) \<and> ?t < c"
    using devReady_edges(2) [OF ready t c] by simp
  then show False by arith
qed

lemma valState_topValue:
  assumes st: "valState out s0 [] s" and ready: "devReady s0" and ne: "nodes s0 \<noteq> []"
    and top: "outputSize (last (nodes s0)) = 1 \<or> \<not> computeInGPU (last (nodes s0))"
    and r: "remServers (last (nodes s)) = - 2"
  shows "topValue s = deviceResult out s0"
proof -
  let ?t = "length (nodes s0) - 1"
  have t: "?t < length (nodes s0)" using ne by simp
  have len: "length (nodes s) = length (nodes s0)" by (rule valState_static(7) [OF st t])
  have cm: "cudaMemDataset s = cudaMemDataset s0" by (rule valState_static(9) [OF st t])
  have last0: "last (nodes s0) = nodes s0 ! ?t" using ne by (rule last_conv_nth)
  have "nodes s \<noteq> []" using len ne by auto
  then have "last (nodes s) = nodes s ! ?t" using len by (simp add: last_conv_nth)
  then have rt: "remServers (nodes s ! ?t) < 0" using r by simp
  have inv: "valInv out s0 [] s ?t" using st t by (simp add: valState_def)
  have nocl: "clientInfos (nodes s0 ! ?t) = []" by (rule top_without_clients [OF ready ne])
  show ?thesis
  proof (cases "computed (nodes s0 ! ?t)")
    case False
    then have dm: "dataMapCPU s ?t = dataMapCPU s0 ?t"
      using inv by (simp add: valInv_def Let_def)
    have stat: "staticSpan (dataMapCPU s0 ?t)"
      using ready t False by (simp add: devReady_def)
    have "topValue s = topValue s0"
    proof (cases "dataMapCPU s0 ?t")
      case None
      then show ?thesis using dm by (simp add: topValue_def len)
    next
      case (Some sp)
      obtain p n where sp: "sp = (p, n)" by (cases sp)
      have "ptrNode p = None" using stat Some sp by (simp add: staticSpan_def)
      then have "spanValues s (p, n) = spanValues s0 (p, n)"
        by (intro spanValues_frame cm) simp
      then show ?thesis using dm Some sp by (simp add: topValue_def len)
    qed
    then show ?thesis using False by (simp add: deviceResult_def Let_def)
  next
    case True
    show ?thesis
    proof (cases "outputSize (nodes s0 ! ?t) = 1")
      case scalar: True
      have "scalarBuffer (nodes s ! ?t) = out ?t 0" "dataMapCPU s ?t = Some (ScalarPtr ?t, 1)"
        using inv True rt scalar by (simp_all add: valInv_def Let_def)
      then show ?thesis
        using True scalar
        by (simp add: topValue_def len spanValues_def deviceResult_def Let_def)
    next
      case vector: False
      then have host: "\<not> computeInGPU (nodes s0 ! ?t)" using top last0 by simp
      have "dataMapCPU s ?t = Some (CpuPtr ?t, outputSize (nodes s0 ! ?t))"
        and "\<exists>b. buffer (nodes s ! ?t) = Some b
                \<and> bufferData b = map (out ?t) [0..<outputSize (nodes s0 ! ?t)]"
        using inv True rt vector host nocl by (simp_all add: valInv_def Let_def)
      then obtain b where dm: "dataMapCPU s ?t = Some (CpuPtr ?t, outputSize (nodes s0 ! ?t))"
        and b: "buffer (nodes s ! ?t) = Some b"
          "bufferData b = map (out ?t) [0..<outputSize (nodes s0 ! ?t)]"
        by blast
      show ?thesis
      proof (cases "outputSize (nodes s0 ! ?t)")
        case 0
        then show ?thesis
          using True dm b
          by (simp add: topValue_def len spanValues_def deviceResult_def Let_def)
      next
        case (Suc m)
        then show ?thesis
          using True dm b
          by (simp add: topValue_def len spanValues_def deviceResult_def Let_def upt_conv_Cons
              del: upt_Suc)
      qed
    qed
  qed
qed

subsection \<open>From one evaluation to the next\<close>

lemma needsCopy_cong:
  fixes ns ns' :: "'v NodeInfo list"
  assumes m: "map staticInfo ns' = map staticInfo ns" and valid: "validEdges ns"
    and j: "j < length ns"
  shows "needsCopy ns' j = needsCopy ns j"
proof -
  have "computeInGPU (ns' ! c) = computeInGPU (ns ! c)" if "c \<in> set (clientInfos (ns ! j))" for c
  proof -
    have "c < length ns" using valid j that by (auto simp: validEdges_def)
    then show ?thesis by (rule staticInfo_nth(3) [OF m])
  qed
  then show ?thesis
    unfolding needsCopy_def
    using staticInfo_nth(2,3,5) [OF m j] by simp
qed

lemma valState_expected:
  assumes st: "valState out s0 rest s" and ready: "devReady s0" and k: "k < length (nodes s0)"
  shows "expected out s X k = expected out s0 X k"
proof (cases "computed (nodes s0 ! k)")
  case True
  then show ?thesis
    using valState_static(3,4,5) [OF st k] by (simp add: expected_def computed_def)
next
  case False
  have inv: "valInv out s0 rest s k" using st k by (simp add: valState_def)
  then have dm: "sideMap X s k = sideMap X s0 k"
    using False by (cases X) (simp_all add: valInv_def Let_def sideMap_def)
  have stat: "staticSpan (sideMap X s0 k)"
    using ready k False by (cases X) (simp_all add: devReady_def sideMap_def)
  have cm: "cudaMemDataset s = cudaMemDataset s0" by (rule valState_static(9) [OF st k])
  have "dataMapView s (sideMap X s) k = dataMapView s0 (sideMap X s0) k"
  proof (cases "sideMap X s0 k")
    case None
    then show ?thesis using dm by (simp add: dataMapView_def)
  next
    case (Some sp)
    obtain p n where sp: "sp = (p, n)" by (cases sp)
    have "ptrNode p = None" using stat Some sp by (simp add: staticSpan_def)
    then have "spanValues s (p, n) = spanValues s0 (p, n)"
      by (intro spanValues_frame cm) simp
    then show ?thesis using dm Some sp by (simp add: dataMapView_def)
  qed
  then show ?thesis
    using False valState_static(3,4) [OF st k] by (simp add: expected_def computed_def)
qed

lemma valState_devReady:
  assumes st: "valState out s0 rest s" and ready: "devReady s0"
  shows "devReady s"
proof -
  have m: "map staticInfo (nodes s) = map staticInfo (nodes s0)"
    and bm: "batchMode s = Cuda"
    using st by (simp_all add: valState_def)
  have len: "length (nodes s) = length (nodes s0)" using m by (rule map_eq_length)
  have wf0: "wellFormed (nodes s0)" using ready by (simp add: devReady_def)
  have sv: "map serverInfos (nodes s) = map serverInfos (nodes s0)"
    by (rule nth_equalityI) (simp_all add: len valState_static(1) [OF st])
  have cl: "map clientInfos (nodes s) = map clientInfos (nodes s0)"
    by (rule nth_equalityI) (simp_all add: len valState_static(2) [OF st])
  have wf: "wellFormed (nodes s)"
    using wellFormed_cong [OF sv cl] wf0 by simp
  have copy: "copyAfterEvaluation (nodes s ! j) = needsCopy (nodes s) j"
    if j: "j < length (nodes s0)" for j
  proof -
    have "needsCopy (nodes s) j = needsCopy (nodes s0) j"
      using m _ j by (rule needsCopy_cong) (use wf0 in \<open>simp add: wellFormed_def\<close>)
    then show ?thesis
      using ready j valState_static(6) [OF st j] by (simp add: devReady_def)
  qed
  have span: "staticSpan (dataMapCPU s j) \<and> staticSpan (dataMapCUDA s j)"
    if j: "j < length (nodes s0)" and nc: "\<not> computed (nodes s ! j)" for j
  proof -
    have nc0: "\<not> computed (nodes s0 ! j)"
      using nc valState_static(3,4) [OF st j] by (simp add: computed_def)
    have "valInv out s0 rest s j" using st j by (simp add: valState_def)
    then have "dataMapCPU s j = dataMapCPU s0 j" "dataMapCUDA s j = dataMapCUDA s0 j"
      using nc0 by (simp_all add: valInv_def Let_def)
    then show ?thesis using ready j nc0 by (simp add: devReady_def)
  qed
  show ?thesis
    unfolding devReady_def using wf bm copy span by (simp add: len)
qed

lemma valState_denotes:
  assumes st: "valState out s0 rest s" and ready: "devReady s0" and den: "denotes K s0 out"
  shows "denotes K s out"
  unfolding denotes_def
proof (intro allI impI)
  fix i view pos
  assume i: "i < length (nodes s)" and comp: "computed (nodes s ! i)"
    and view: "\<forall>k \<in> set (serverInfos (nodes s ! i)).
                 view k = expected out s (placement (nodes s ! i)) k"
    and pos: "pos < outputSize (nodes s ! i)"
  have "map staticInfo (nodes s) = map staticInfo (nodes s0)"
    using st by (simp add: valState_def)
  then have "length (nodes s) = length (nodes s0)" by (rule map_eq_length)
  then have i0: "i < length (nodes s0)" using i by simp
  note stat = valState_static [OF st i0]
  have pl: "placement (nodes s ! i) = placement (nodes s0 ! i)"
    using stat(3) by (simp add: placement_def)
  have comp0: "computed (nodes s0 ! i)"
    using comp stat(3,4) by (simp add: computed_def)
  have "view k = expected out s0 (placement (nodes s0 ! i)) k"
    if k: "k \<in> set (serverInfos (nodes s0 ! i))" for k
  proof -
    have "k < length (nodes s0)"
      using devReady_edges(1) [OF ready i0 k] i0 by simp
    then show ?thesis
      using view k stat(1) pl valState_expected [OF st ready] by simp
  qed
  then have "K i (placement (nodes s0 ! i)) (outputSize (nodes s0 ! i)) view pos = out i pos"
    using den i0 comp0 pos stat(5) unfolding denotes_def by simp
  then show "K i (placement (nodes s ! i)) (outputSize (nodes s ! i)) view pos = out i pos"
    using pl stat(5) by simp
qed

lemma expected_getValInvocations [simp]:
  "expected out (s\<lparr>getValInvocations := g\<rparr>) = expected out s"
proof -
  have sv: "spanValues (s\<lparr>getValInvocations := g\<rparr>) = spanValues s"
    by (rule spanValues_cong) simp_all
  have sm: "sideMap X (s\<lparr>getValInvocations := g\<rparr>) = sideMap X s" for X
    by (cases X) (simp_all add: sideMap_def)
  show ?thesis
    by (rule ext)+ (simp add: expected_def dataMapView_def sv sm)
qed

lemma getValInvocations_ignored [simp]:
  "devReady (s\<lparr>getValInvocations := g\<rparr>) = devReady s"
  "denotes K (s\<lparr>getValInvocations := g\<rparr>) out = denotes K s out"
  "deviceResult out (s\<lparr>getValInvocations := g\<rparr>) = deviceResult out s"
  by (simp_all add: devReady_def denotes_def deviceResult_def Let_def)

subsection \<open>What the kernels write\<close>

lemma denotes_kernelValue:
  assumes loc: "kernelLocal (nodes s0) K" and topo: "topological (nodes s0)"
  shows "denotes K s0 (kernelValue (nodes s0) K (\<lambda>X. dataMapView s0 (sideMap X s0)))"
  unfolding denotes_def
proof (intro allI impI)
  let ?out = "kernelValue (nodes s0) K (\<lambda>X. dataMapView s0 (sideMap X s0))"
  fix i view pos
  assume i: "i < length (nodes s0)"
    and view: "\<forall>k \<in> set (serverInfos (nodes s0 ! i)).
                 view k = expected ?out s0 (placement (nodes s0 ! i)) k"
  let ?X = "placement (nodes s0 ! i)"
  let ?view' = "\<lambda>k. if k < i then
               (if computed (nodes s0 ! k)
                then Some (map (?out k) [0..<outputSize (nodes s0 ! k)])
                else dataMapView s0 (sideMap ?X s0) k)
             else None"
  have local: "K i X n v = K i X n v'"
    if "\<forall>k \<in> set (serverInfos (nodes s0 ! i)). v k = v' k" for X n v v'
    using loc i that unfolding kernelLocal_def by blast
  have same: "view k = ?view' k" if k: "k \<in> set (serverInfos (nodes s0 ! i))" for k
  proof -
    have "k < i" using topo i k by (simp add: topological_def)
    then show ?thesis using view k by (simp add: expected_def)
  qed
  have "K i ?X (outputSize (nodes s0 ! i)) view = K i ?X (outputSize (nodes s0 ! i)) ?view'"
    by (rule local) (simp add: same)
  then show "K i ?X (outputSize (nodes s0 ! i)) view pos = ?out i pos"
    by (subst kernelValue.simps) simp
qed

subsection \<open>The state \<^verbatim>\<open>setData\<close> leaves in CUDA mode\<close>

lemma setData_devReady:
  assumes wf: "wellFormed (nodes s)" and sd: "setData dataSpans outputSizeMap s = Inr s'"
    and dev: "batchMode s = Cuda"
  shows "devReady s'"
proof -
  let ?n = "length (nodes s)"
  from sd obtain s1 totalSize s2 where
    b: "fold (bindNode dataSpans) [0..<?n] (s, 0) = (s1, totalSize)" and
    z: "sizeNodes outputSizeMap [0..<?n] s1 = Inr s2" and
    devs: "batchMode s2 = Cuda \<Longrightarrow>
       \<exists>s3. uploadNodes [0..<?n] 0 (s2\<lparr>cudaMemDataset := replicate totalSize 0\<rparr>)
               = Inr s3 \<and> s' = markGPUNodes s3"
    using setData_cases [OF sd] by blast
  have "batchMode s1 = batchMode s"
    using fold_bindNode [of ?n s dataSpans 0] b by simp
  moreover have "batchMode s2 = batchMode s1"
    using sizeNodes_preserves [OF z] by simp
  ultimately have "batchMode s2 = Cuda" using dev by simp
  let ?s2 = "s2\<lparr>cudaMemDataset := replicate totalSize 0\<rparr>"
  from devs [OF \<open>batchMode s2 = Cuda\<close>] obtain s3 where
    u: "uploadNodes [0..<?n] 0 ?s2 = Inr s3" and m: "s' = markGPUNodes s3"
    by auto
  have s3: "nodes s3 = nodes s2" "dataMapCPU s3 = dataMapCPU s2"
    using uploadNodes_preserves [OF u] by simp_all
  have bm: "batchMode s' = Cuda"
    using setData_frame(3) [OF sd] dev by simp
  have len: "length (nodes s') = ?n"
    by (rule setData_frame(4) [OF sd])
  have sv0: "map serverInfos (nodes s') = map serverInfos (nodes s)"
    and cl0: "map clientInfos (nodes s') = map clientInfos (nodes s)"
    by (rule setData_map [OF _ _ _ _ _ _ sd]; simp)+
  have wf': "wellFormed (nodes s')"
    using wellFormed_cong [OF sv0 cl0] wf by simp
  have sv3: "map serverInfos (nodes s') = map serverInfos (nodes s3)"
    and cl3: "map clientInfos (nodes s') = map clientInfos (nodes s3)"
    and fd3: "map fromDataset (nodes s') = map fromDataset (nodes s3)"
    and os3: "map outputSize (nodes s') = map outputSize (nodes s3)"
    unfolding m by (simp_all add: markGPUNodes_map)
  have len3: "length (nodes s3) = ?n"
    using map_eq_length [OF sv3] len by simp
  have "wellFormed (nodes s3)"
    using wellFormed_cong [OF sv3 cl3] wf' by simp
  then have valid3: "validEdges (nodes s3)" by (simp add: wellFormed_def)
  have nth: "nodes s' ! j = (nodes s3 ! j)\<lparr>copyAfterEvaluation := needsCopy (nodes s3) j\<rparr>"
    if "j < ?n" for j
    using fold_markGPUNode [OF valid3, of "length (nodes s3)"] that len3
    by (simp add: m markGPUNodes_def)
  have copy: "copyAfterEvaluation (nodes s' ! j) = needsCopy (nodes s') j" if j: "j < ?n" for j
  proof -
    have "\<forall>c \<in> set (clientInfos (nodes s3 ! j)). c < ?n"
      using valid3 j len3 by (auto simp: validEdges_def)
    then have "needsCopy (nodes s') j = needsCopy (nodes s3) j"
      by (auto simp: needsCopy_def nth j)
    then show ?thesis by (simp add: nth j)
  qed
  have span: "staticSpan (dataMapCPU s' j) \<and> staticSpan (dataMapCUDA s' j)"
    if j: "j < ?n" and nc: "\<not> computed (nodes s' ! j)" for j
  proof -
    have f: "fromDataset (nodes s' ! j)" using nc by (simp add: computed_def)
    have f2: "fromDataset (nodes ?s2 ! j)"
      using map_eq_nth [OF fd3, of j] f j len s3(1) by simp
    have bf: "bindFields (nodes s' ! j) = bindFields (bindInfo dataSpans (nodes s ! j))"
      by (rule setData_bindFields(1) [OF sd j])
    then have "dataSpans (argName (nodes s ! j)) \<noteq> None"
      using f by (simp add: bindFields_def bindInfo_def bound_def)
    then obtain column where "dataMapCPU s' j = Some (DataPtr column, length column)"
      using setData_bindFields(2) [OF sd j] by (auto split: option.splits)
    then have host: "staticSpan (dataMapCPU s' j)"
      by (simp add: staticSpan_def ptrNode_def)
    have mem: "j \<in> set [0..<?n]" using j by simp
    have "dataMapCUDA s3 j = dataMapCPU ?s2 j
          \<or> (\<exists>k. dataMapCUDA s3 j = Some (DevDataPtr k, outputSize (nodes ?s2 ! j)))"
      using uploadNodes_dataMapCUDA [OF u, of j] mem f2 by (auto split: if_splits)
    moreover have "dataMapCPU ?s2 j = dataMapCPU s' j" "dataMapCUDA s' j = dataMapCUDA s3 j"
      by (simp_all add: m s3(2))
    ultimately have "staticSpan (dataMapCUDA s' j)"
      using host by (auto simp: staticSpan_def ptrNode_def)
    then show ?thesis using host by simp
  qed
  show ?thesis
    unfolding devReady_def using wf' bm copy span by (simp add: len)
qed

subsection \<open>Two evaluations with a device\<close>

lemma getVal_device_result:
  assumes ready: "devReady s" and den: "denotes K s out" and ne: "nodes s \<noteq> []"
    and top: "outputSize (last (nodes s)) = 1 \<or> \<not> computeInGPU (last (nodes s))"
    and e: "getVal fuel active K counter s = Some (r, s')"
  shows "r = deviceResult out s" and "r = topValue s'"
    and "valState out (s\<lparr>getValInvocations := getValInvocations s + 1\<rparr>) [] s'"
proof -
  let ?sa = "s\<lparr>getValInvocations := getValInvocations s + 1\<rparr>"
  let ?start = "assignInitial K (resetCounters ?sa)"
  have bm: "batchMode s = Cuda" using ready by (simp add: devReady_def)
  have loop: "schedulerLoop fuel active K ?start = Some s'" and r: "r = topValue s'"
    using e by (auto simp: getVal_device [OF bm])
  have readya: "devReady ?sa" and dena: "denotes K ?sa out"
    using ready den by simp_all
  have valid: "validEdges (nodes ?sa)" and mutual: "mutualEdges (nodes ?sa)"
    using ready by (simp_all add: devReady_def wellFormed_def)
  obtain m where s': "s' = (schedulerStep active K ^^ m) ?start"
    and rt: "remServers (last (nodes s')) = - 2"
    using loop unfolding schedulerLoop_Some_iff by blast
  have sch: "schedState (nodes ?sa) (length (events ?sa)) [] ?start"
    by (rule schedState_initial [OF valid])
  have "valState out ?sa [] ?start"
    by (rule valState_initial [OF readya dena])
  then show st: "valState out ?sa [] s'"
    unfolding s' using sch readya dena by (intro valState_iterate)
  show "r = topValue s'" by (rule r)
  have "topValue s' = deviceResult out ?sa"
    by (rule valState_topValue [OF st readya _ _ rt]) (use ne top in simp_all)
  then show "r = deviceResult out s" using r by simp
qed

lemma schedulerLoop_empty:
  "nodes s = [] \<Longrightarrow> schedulerLoop fuel active K s = Some s' \<Longrightarrow>
     nodes s' = [] \<and> dataMapCPU s' = dataMapCPU s \<and> cudaMemDataset s' = cudaMemDataset s"
proof (induction fuel arbitrary: s)
  case 0
  then show ?case by simp
next
  case (Suc fuel)
  have step: "schedulerStep active K s = logEvent Sleep s"
    using Suc.prems(1) by (simp add: schedulerStep_def nextCPUNode_def)
  show ?case
  proof (cases "remServers (last (nodes s)) \<noteq> - 2")
    case True
    then have "schedulerLoop fuel active K (logEvent Sleep s) = Some s'"
      using Suc.prems(2) step by simp
    then show ?thesis
      using Suc.IH [of "logEvent Sleep s"] Suc.prems(1) by simp
  next
    case False
    then show ?thesis using Suc.prems by simp
  qed
qed

lemma getVal_device_empty:
  assumes "batchMode s = Cuda" and "nodes s = []"
    and "getVal fuel active K counter s = Some (r, s')"
  shows "r = topValue s \<and> topValue s' = topValue s \<and> nodes s' = [] \<and> batchMode s' = Cuda"
proof -
  let ?sa = "s\<lparr>getValInvocations := getValInvocations s + 1\<rparr>"
  let ?start = "assignInitial K (resetCounters ?sa)"
  have loop: "schedulerLoop fuel active K ?start = Some s'" and r: "r = topValue s'"
    using assms(3) by (auto simp: getVal_device [OF assms(1)])
  have start: "nodes ?start = []" "dataMapCPU ?start = dataMapCPU s"
    "cudaMemDataset ?start = cudaMemDataset s"
    using assms(2) by (simp_all add: assignInitial_def resetCounters_def)
  note l = schedulerLoop_empty [OF start(1) loop]
  have "topValue s' = topValue s"
    by (rule topValue_cong) (use l start assms(2) in simp_all)
  moreover have "batchMode s' = Cuda"
    using schedulerLoop_batchMode [OF loop] assms(1)
    by (simp add: assignInitial_def resetCounters_def fold_preserves)
  ultimately show ?thesis using r l by simp
qed

lemma getVal_device_twice:
  assumes ready: "devReady s" and loc: "kernelLocal (nodes s) K"
    and top: "outputSize (last (nodes s)) = 1 \<or> \<not> computeInGPU (last (nodes s))"
    and e1: "getVal fuel1 active1 K counter1 s = Some (r1, s1)"
    and e2: "getVal fuel2 active2 K counter2 s1 = Some (r2, s2)"
  shows "r2 = r1"
proof (cases "nodes s = []")
  case True
  have bm: "batchMode s = Cuda" using ready by (simp add: devReady_def)
  note a = getVal_device_empty [OF bm True e1]
  then have "batchMode s1 = Cuda" "nodes s1 = []" by simp_all
  from getVal_device_empty [OF this e2] a show ?thesis by simp
next
  case False
  let ?sa = "s\<lparr>getValInvocations := getValInvocations s + 1\<rparr>"
  let ?t = "length (nodes s) - 1"
  define out where "out = kernelValue (nodes s) K (\<lambda>X. dataMapView s (sideMap X s))"
  have topo: "topological (nodes s)" using ready by (simp add: devReady_def wellFormed_def)
  have den: "denotes K s out"
    unfolding out_def by (rule denotes_kernelValue [OF loc topo])
  note run1 = getVal_device_result [OF ready den False top e1]
  have readya: "devReady ?sa" and dena: "denotes K ?sa out"
    using ready den by simp_all
  have t: "?t < length (nodes ?sa)" using False by simp
  note stat = valState_static [OF run1(3) t]
  have ready1: "devReady s1" by (rule valState_devReady [OF run1(3) readya])
  have den1: "denotes K s1 out" by (rule valState_denotes [OF run1(3) readya dena])
  have ne1: "nodes s1 \<noteq> []" using stat(7) False by auto
  have last: "last (nodes s) = nodes s ! ?t" "last (nodes s1) = nodes s1 ! ?t"
    using False ne1 stat(7) by (simp_all add: last_conv_nth)
  have top1: "outputSize (last (nodes s1)) = 1 \<or> \<not> computeInGPU (last (nodes s1))"
    using top stat(3,5) unfolding last by simp
  note run2 = getVal_device_result [OF ready1 den1 ne1 top1 e2]
  have "deviceResult out s1 = r1"
  proof (cases "computed (nodes s ! ?t)")
    case True
    then have "deviceResult out s1 = deviceResult out s"
      using stat(3,4,5,7) by (simp add: deviceResult_def Let_def computed_def)
    then show ?thesis using run1(1) by simp
  next
    case False
    then have "deviceResult out s1 = topValue s1"
      using stat(3,4,7) by (simp add: deviceResult_def Let_def computed_def)
    then show ?thesis using run1(2) by simp
  qed
  then show ?thesis using run2(1) by simp
qed

lemma example_kernelLocal: "kernelLocal (nodes (exampleBound Cuda)) (exampleKernel pval)"
proof -
  have sv: "map serverInfos (nodes (exampleBound Cuda)) = [[], [], [0, 1], [2]]"
    by code_simp
  then have len: "length (nodes (exampleBound Cuda)) = 4"
    using length_map [of serverInfos "nodes (exampleBound Cuda)"] by simp
  have nth: "serverInfos (nodes (exampleBound Cuda) ! i) = [[], [], [0, 1], [2]] ! i" if "i < 4" for i
    using nth_map [of i "nodes (exampleBound Cuda)" serverInfos] that len sv by simp
  show ?thesis
    unfolding kernelLocal_def len
  proof (intro allI impI)
    fix i X n and v v' :: "nat \<Rightarrow> int list option"
    assume i: "i < 4" and same: "\<forall>k \<in> set (serverInfos (nodes (exampleBound Cuda) ! i)). v k = v' k"
    consider "i = 0" | "i = 1" | "i = 2" | "i = 3" using i by linarith
    then show "exampleKernel pval i X n v = exampleKernel pval i X n v'"
    proof cases
      case 1
      then show ?thesis by (intro ext) (simp add: exampleKernel_def)
    next
      case 2
      then show ?thesis by (intro ext) (simp add: exampleKernel_def)
    next
      case 3
      then have "v 0 = v' 0" "v 1 = v' 1" using same nth [of 2] by simp_all
      then show ?thesis using 3 by (intro ext) (simp add: exampleKernel_def)
    next
      case 4
      then have "v 2 = v' 2" using same nth [of 3] by simp
      then show ?thesis using 4 by (intro ext) (simp add: exampleKernel_def)
    qed
  qed
qed

lemma getVal_twice_same:
  assumes wf: "wellFormed (nodes s)"
    and sd: "setData dataSpans outputSizeMap s = Inr s0"
    and dev: "batchMode s = Cuda \<Longrightarrow>
                kernelLocal (nodes s0) K
                \<and> (outputSize (last (nodes s0)) = 1 \<or> \<not> computeInGPU (last (nodes s0)))"
    and e1: "getVal fuel1 active1 K counter s0 = Some (r1, s1)"
    and e2: "getVal fuel2 active2 K counter s1 = Some (r2, s2)"
  shows "r2 = r1 \<and> (batchMode s \<noteq> Cuda \<longrightarrow> drop (length (events s1)) (events s2) = [])"
proof (cases "batchMode s = Cuda")
  case True
  have "devReady s0" by (rule setData_devReady [OF wf sd True])
  then have "r2 = r1"
    using dev [OF True] e1 e2 by (intro getVal_device_twice [of s0 K]) simp_all
  then show ?thesis using True by simp
next
  case False
  then show ?thesis
    using getVal_host_twice [OF wf False sd e1 e2] by simp
qed

lemma getVal_twice_returns:
  assumes wf: "wellFormed (nodes s)"
    and sd: "setData dataSpans outputSizeMap s = Inr s0"
    and dev: "batchMode s = Cuda \<Longrightarrow>
                kernelLocal (nodes s0) K
                \<and> (outputSize (last (nodes s0)) = 1 \<or> \<not> computeInGPU (last (nodes s0)))"
    and idle: "batchMode s = Cuda \<Longrightarrow>
                 nodes s \<noteq> [] \<and> (\<exists>Q. \<forall>q \<ge> Q. \<forall>i. \<not> active1 q i \<and> \<not> active2 q i)"
  shows "\<exists>fuel1 fuel2 r1 s1 r2 s2.
           getVal fuel1 active1 K counter s0 = Some (r1, s1)
           \<and> getVal fuel2 active2 K counter s1 = Some (r2, s2)"
proof (cases "batchMode s = Cuda")
  case False
  have sv0: "map serverInfos (nodes s0) = map serverInfos (nodes s)"
    and cl0: "map clientInfos (nodes s0) = map clientInfos (nodes s)"
    by (rule setData_map [OF _ _ _ _ _ _ sd]; simp)+
  have wf0: "wellFormed (nodes s0)"
    using wellFormed_cong [OF sv0 cl0] wf by simp
  have host0: "batchMode s0 \<noteq> Cuda"
    using setData_frame(3) [OF sd] False by simp
  obtain r1 s1 where e1: "getVal 0 active1 K counter s0 = Some (r1, s1)"
    using getVal_host_the [OF host0] by blast
  have host1: "batchMode s1 \<noteq> Cuda"
    using getVal_host_settled(2) [OF wf0 host0 e1] host0 by simp
  obtain r2 s2 where "getVal 0 active2 K counter s1 = Some (r2, s2)"
    using getVal_host_the [OF host1] by blast
  then show ?thesis using e1 by blast
next
  case True
  let ?sa = "s0\<lparr>getValInvocations := getValInvocations s0 + 1\<rparr>"
  define out where "out = kernelValue (nodes s0) K (\<lambda>X. dataMapView s0 (sideMap X s0))"
  from idle [OF True] obtain Q where ne: "nodes s \<noteq> []"
    and fair1: "\<forall>q \<ge> Q. \<forall>i. \<not> active1 q i" and fair2: "\<forall>q \<ge> Q. \<forall>i. \<not> active2 q i"
    by blast
  have ready: "devReady s0" by (rule setData_devReady [OF wf sd True])
  then have wf0: "wellFormed (nodes s0)" and bm0: "batchMode s0 = Cuda"
    by (simp_all add: devReady_def)
  have ne0: "nodes s0 \<noteq> []"
    using ne setData_frame(4) [OF sd] by auto
  obtain fuel1 r1 s1 where e1: "getVal fuel1 active1 K counter s0 = Some (r1, s1)"
    using getVal_device_returns [OF wf0 ne0 bm0 fair1] by blast
  have den: "denotes K s0 out"
    unfolding out_def
    by (rule denotes_kernelValue) (use dev [OF True] wf0 in \<open>simp_all add: wellFormed_def\<close>)
  have top: "outputSize (last (nodes s0)) = 1 \<or> \<not> computeInGPU (last (nodes s0))"
    using dev [OF True] by simp
  have st: "valState out ?sa [] s1"
    by (rule getVal_device_result(3) [OF ready den ne0 top e1])
  have "devReady ?sa" using ready by simp
  then have ready1: "devReady s1" by (rule valState_devReady [OF st])
  then have wf1: "wellFormed (nodes s1)" and bm1: "batchMode s1 = Cuda"
    by (simp_all add: devReady_def)
  have "length (nodes s1) = length (nodes ?sa)"
    using st by (auto simp: valState_def dest: map_eq_length)
  then have ne1: "nodes s1 \<noteq> []" using ne0 by auto
  obtain fuel2 r2 s2 where "getVal fuel2 active2 K counter s1 = Some (r2, s2)"
    using getVal_device_returns [OF wf1 ne1 bm1 fair2] by blast
  then show ?thesis using e1 by blast
qed

text \<open>
  Claim C2. After \<^verbatim>\<open>setData\<close>, two calls of \<^verbatim>\<open>getVal\<close> with the same parameter
  values (the kernels \<open>K\<close> hold them) and counters return, and they return the same
  result. On the host the second call invokes no kernel at all. With a device every
  kernel runs again, in an order that depends on the answers of the streams; the calls
  return if the streams are idle from some query on, and the results agree for kernels
  that read the spans of their servers only, when the top node yields a scalar or is
  computed on the host, whose span \<^verbatim>\<open>getVal\<close> reads.
\<close>

theorem getVal_twice:
  assumes wf: "wellFormed (nodes s)"
    and sd: "setData dataSpans outputSizeMap s = Inr s0"
    and dev: "batchMode s = Cuda \<Longrightarrow>
                kernelLocal (nodes s0) K
                \<and> (outputSize (last (nodes s0)) = 1 \<or> \<not> computeInGPU (last (nodes s0)))"
  shows "((batchMode s = Cuda \<longrightarrow>
             nodes s \<noteq> [] \<and> (\<exists>Q. \<forall>q \<ge> Q. \<forall>i. \<not> active1 q i \<and> \<not> active2 q i)) \<longrightarrow>
          (\<exists>fuel1 fuel2 r s1 s2.
             getVal fuel1 active1 K counter s0 = Some (r, s1)
             \<and> getVal fuel2 active2 K counter s1 = Some (r, s2)))
       \<and> (\<forall>fuel1 fuel2 r1 s1 r2 s2.
            getVal fuel1 active1 K counter s0 = Some (r1, s1)
            \<and> getVal fuel2 active2 K counter s1 = Some (r2, s2) \<longrightarrow>
            r2 = r1 \<and> (batchMode s \<noteq> Cuda \<longrightarrow> drop (length (events s1)) (events s2) = []))"
proof (intro conjI impI allI)
  assume "batchMode s = Cuda \<longrightarrow>
             nodes s \<noteq> [] \<and> (\<exists>Q. \<forall>q \<ge> Q. \<forall>i. \<not> active1 q i \<and> \<not> active2 q i)"
  then obtain fuel1 fuel2 r1 s1 r2 s2 where
    e: "getVal fuel1 active1 K counter s0 = Some (r1, s1)"
       "getVal fuel2 active2 K counter s1 = Some (r2, s2)"
    using getVal_twice_returns [OF wf sd dev, of active1 active2 counter] by blast
  then have "r2 = r1"
    using getVal_twice_same [OF wf sd dev e] by simp
  then show "\<exists>fuel1 fuel2 r s1 s2.
             getVal fuel1 active1 K counter s0 = Some (r, s1)
             \<and> getVal fuel2 active2 K counter s1 = Some (r, s2)"
    using e by blast
next
  fix fuel1 fuel2 r1 s1 r2 s2
  assume "getVal fuel1 active1 K counter s0 = Some (r1, s1)
            \<and> getVal fuel2 active2 K counter s1 = Some (r2, s2)"
  then have r: "r2 = r1 \<and> (batchMode s \<noteq> Cuda \<longrightarrow> drop (length (events s1)) (events s2) = [])"
    using getVal_twice_same [OF wf sd dev] by blast
  show "r2 = r1" using r by simp
  show "drop (length (events s1)) (events s2) = []" if "batchMode s \<noteq> Cuda"
    using r that by simp
qed

text \<open>
  In the example both evaluations return 12 on the host, and the second one logs no
  event; on the device both return 12 as well, with streams that are busy for a while in
  the first evaluation and idle throughout the second.
\<close>

theorem getVal_twice_witness:
  "(wellFormed (nodes (exampleDriver Cpu)) \<and> batchMode (exampleDriver Cpu) \<noteq> Cuda
    \<and> setData exampleSpans exampleSizes (exampleDriver Cpu) = Inr (exampleBound Cpu)
    \<and> getVal 0 (\<lambda>q i. False) (exampleKernel 2) (\<lambda>i. 0) (exampleBound Cpu)
        = Some (Inr 12, exampleEval1)
    \<and> getVal 0 (\<lambda>q i. False) (exampleKernel 2) (\<lambda>i. 0) exampleEval1
        = Some (Inr 12, exampleEval2)
    \<and> drop (length (events exampleEval1)) (events exampleEval2) = [])
   \<and> (wellFormed (nodes (exampleDriver Cuda)) \<and> batchMode (exampleDriver Cuda) = Cuda
    \<and> setData exampleSpans exampleSizes (exampleDriver Cuda) = Inr (exampleBound Cuda)
    \<and> kernelLocal (nodes (exampleBound Cuda)) (exampleKernel 2)
    \<and> outputSize (last (nodes (exampleBound Cuda))) = 1
    \<and> nodes (exampleDriver Cuda) \<noteq> []
    \<and> (\<exists>fuel1 fuel2 r s1 s2.
          getVal fuel1 exampleActive (exampleKernel 2) (\<lambda>i. 0) (exampleBound Cuda) = Some (r, s1)
          \<and> getVal fuel2 (\<lambda>q i. False) (exampleKernel 2) (\<lambda>i. 0) s1 = Some (r, s2))
    \<and> getVal 10 exampleActive (exampleKernel 2) (\<lambda>i. 0) (exampleBound Cuda)
        = Some (Inr 12, exampleDeviceEval)
    \<and> getVal 10 (\<lambda>q i. False) (exampleKernel 2) (\<lambda>i. 0) exampleDeviceEval
        = Some (Inr 12, exampleDeviceEval2))"
proof -
  have h1: "wellFormed (nodes (exampleDriver Cpu))" by code_simp
  have h2: "batchMode (exampleDriver Cpu) \<noteq> Cuda" by code_simp
  have "case setData exampleSpans exampleSizes (exampleDriver Cpu) of
          Inl e \<Rightarrow> False | Inr s' \<Rightarrow> True"
    by code_simp
  then have h3: "setData exampleSpans exampleSizes (exampleDriver Cpu) = Inr (exampleBound Cpu)"
    unfolding exampleBound_def by (rule Inr_projr)
  have b: "batchMode (exampleBound Cpu) \<noteq> Cuda" by code_simp
  have "fst (the (getVal 0 (\<lambda>q i. False) (exampleKernel 2) (\<lambda>i. 0) (exampleBound Cpu))) = Inr 12"
    by code_simp
  then have h4: "getVal 0 (\<lambda>q i. False) (exampleKernel 2) (\<lambda>i. 0) (exampleBound Cpu)
       = Some (Inr 12, exampleEval1)"
    using getVal_host_the [OF b, of 0 "\<lambda>q i. False" "exampleKernel 2" "\<lambda>i. 0"]
    by (simp add: exampleEval1_def)
  have b': "batchMode exampleEval1 \<noteq> Cuda" by code_simp
  have "fst (the (getVal 0 (\<lambda>q i. False) (exampleKernel 2) (\<lambda>i. 0) exampleEval1)) = Inr 12"
    by code_simp
  then have h5: "getVal 0 (\<lambda>q i. False) (exampleKernel 2) (\<lambda>i. 0) exampleEval1
       = Some (Inr 12, exampleEval2)"
    using getVal_host_the [OF b', of 0 "\<lambda>q i. False" "exampleKernel 2" "\<lambda>i. 0"]
    by (simp add: exampleEval2_def)
  have d1: "wellFormed (nodes (exampleDriver Cuda))" by code_simp
  have d2: "batchMode (exampleDriver Cuda) = Cuda" by code_simp
  have "case setData exampleSpans exampleSizes (exampleDriver Cuda) of
          Inl e \<Rightarrow> False | Inr s' \<Rightarrow> True"
    by code_simp
  then have d3: "setData exampleSpans exampleSizes (exampleDriver Cuda) = Inr (exampleBound Cuda)"
    unfolding exampleBound_def by (rule Inr_projr)
  have d4: "kernelLocal (nodes (exampleBound Cuda)) (exampleKernel 2)"
    by (rule example_kernelLocal)
  have d5: "outputSize (last (nodes (exampleBound Cuda))) = 1" by code_simp
  have d6: "getVal 10 exampleActive (exampleKernel 2) (\<lambda>i. 0) (exampleBound Cuda)
              = Some (Inr 12, exampleDeviceEval)"
    by (rule example_device_eval)
  have "case getVal 10 (\<lambda>q i. False) (exampleKernel 2) (\<lambda>i. 0) exampleDeviceEval of
          None \<Rightarrow> False | Some (r, s') \<Rightarrow> r = Inr 12"
    by code_simp
  then have d7: "getVal 10 (\<lambda>q i. False) (exampleKernel 2) (\<lambda>i. 0) exampleDeviceEval
              = Some (Inr 12, exampleDeviceEval2)"
    by (auto simp: exampleDeviceEval2_def split: option.splits)
  have d8: "nodes (exampleDriver Cuda) \<noteq> []" by code_simp
  have d9: "\<forall>q \<ge> 3. \<forall>i. \<not> exampleActive q i \<and> \<not> False"
    using example_streams_idle by simp
  have host: "batchMode (exampleDriver Cpu) = Cuda \<Longrightarrow>
                kernelLocal (nodes (exampleBound Cpu)) (exampleKernel 2)
                \<and> (outputSize (last (nodes (exampleBound Cpu))) = 1
                   \<or> \<not> computeInGPU (last (nodes (exampleBound Cpu))))"
    using h2 by simp
  have device: "batchMode (exampleDriver Cuda) = Cuda \<Longrightarrow>
                kernelLocal (nodes (exampleBound Cuda)) (exampleKernel 2)
                \<and> (outputSize (last (nodes (exampleBound Cuda))) = 1
                   \<or> \<not> computeInGPU (last (nodes (exampleBound Cuda))))"
    using d4 d5 by simp
  have "drop (length (events exampleEval1)) (events exampleEval2) = []"
    using getVal_twice [OF h1 h3 host, of "\<lambda>q i. False" "\<lambda>q i. False" "\<lambda>i. 0"] h2 h4 h5
    by blast
  moreover have "\<exists>fuel1 fuel2 r s1 s2.
             getVal fuel1 exampleActive (exampleKernel 2) (\<lambda>i. 0) (exampleBound Cuda) = Some (r, s1)
             \<and> getVal fuel2 (\<lambda>q i. False) (exampleKernel 2) (\<lambda>i. 0) s1 = Some (r, s2)"
    using getVal_twice [OF d1 d3 device, of exampleActive "\<lambda>q i. False" "\<lambda>i. 0"] d8 d9
    by blast
  ultimately show ?thesis
    using h1 h2 h3 h4 h5 d1 d2 d3 d4 d5 d6 d7 d8 by simp
qed

section \<open>Scalar nodes in an evaluation with a device\<close>

subsection \<open>The spans of a scalar node\<close>

lemma scalarSpans_update:
  fixes t t' :: "'v RooFitDriver"
  assumes h: "scalarSpans s e0 i t"
    and os: "map outputSize (nodes t') = map outputSize (nodes t)"
    and ca: "map copyAfterEvaluation (nodes t') = map copyAfterEvaluation (nodes t)"
    and bm: "batchMode t' = batchMode t"
    and ev: "events t' = events t @ es"
    and run: "ComputeCPU i \<in> set es \<or> ComputeCUDA i \<in> set es \<Longrightarrow>
                dataMapCPU t' i = Some (ScalarPtr i, 1) \<and> dataMapCUDA t' i = Some (ScalarPtr i, 1)"
    and same: "ComputeCPU i \<notin> set es \<Longrightarrow> ComputeCUDA i \<notin> set es \<Longrightarrow>
                dataMapCPU t' i = dataMapCPU t i \<and> dataMapCUDA t' i = dataMapCUDA t i"
  shows "scalarSpans s e0 i t'"
proof -
  have len: "length (nodes t') = length (nodes t)" using os by (rule map_eq_length)
  have i: "i < length (nodes t')" using h len by (simp add: scalarSpans_def)
  have f: "outputSize (nodes t' ! i) = outputSize (nodes t ! i)"
    "copyAfterEvaluation (nodes t' ! i) = copyAfterEvaluation (nodes t ! i)"
    using map_eq_nth [OF os i] map_eq_nth [OF ca i] by simp_all
  have e0: "e0 \<le> length (events t)" using h by (simp add: scalarSpans_def)
  have d: "set (drop e0 (events t')) = set (drop e0 (events t)) \<union> set es"
    using e0 by (simp add: ev)
  show ?thesis
  proof (cases "ComputeCPU i \<in> set es \<or> ComputeCUDA i \<in> set es")
    case True
    then show ?thesis
      using h i f run e0 unfolding scalarSpans_def d bm by (auto simp: ev)
  next
    case False
    then show ?thesis
      using h i f same e0 unfolding scalarSpans_def d bm by (auto simp: ev)
  qed
qed

lemma assignToGPU_dataMapCUDA:
  "c \<noteq> i \<Longrightarrow> dataMapCUDA (assignToGPU K c t) i = dataMapCUDA t i"
  by (simp add: assignToGPU_def Let_def)

lemma computeCPUNode_dataMapCUDA:
  "k \<noteq> i \<Longrightarrow> dataMapCUDA (computeCPUNode K k t) i = dataMapCUDA t i"
  by (simp add: computeCPUNode_def Let_def)

lemma assignToGPU_dataMapCPU:
  "c \<noteq> i \<Longrightarrow> dataMapCPU (assignToGPU K c t) i = dataMapCPU t i"
  by (simp add: assignToGPU_def Let_def computeBatch_def writeOutput_def)

lemma computeCPUNode_dataMapCPU:
  "k \<noteq> i \<Longrightarrow> dataMapCPU (computeCPUNode K k t) i = dataMapCPU t i"
  by (simp add: computeCPUNode_def Let_def computeBatch_def writeOutput_def)

lemma fold_releaseServer_dataMapCPU [simp]:
  "dataMapCPU (fold releaseServer svs s) = dataMapCPU s"
  by (induction svs arbitrary: s) (simp_all add: releaseServer_def Let_def)

lemma scalarSpans_assign:
  assumes h: "scalarSpans s e0 i t"
  shows "scalarSpans s e0 i (assignToGPU K c t)"
  using h
proof (rule scalarSpans_update)
  show "events (assignToGPU K c t) = events t @ [ComputeCUDA c]" by simp
  from h have i: "i < length (nodes t)" "outputSize (nodes t ! i) = 1"
    "\<not> copyAfterEvaluation (nodes t ! i)"
    by (simp_all add: scalarSpans_def)
  show "dataMapCPU (assignToGPU K c t) i = Some (ScalarPtr i, 1)
          \<and> dataMapCUDA (assignToGPU K c t) i = Some (ScalarPtr i, 1)"
    if "ComputeCPU i \<in> set [ComputeCUDA c] \<or> ComputeCUDA i \<in> set [ComputeCUDA c]"
  proof -
    have "c = i" using that by simp
    then show ?thesis using i by (simp add: assignToGPU_maps)
  qed
  show "dataMapCPU (assignToGPU K c t) i = dataMapCPU t i
          \<and> dataMapCUDA (assignToGPU K c t) i = dataMapCUDA t i"
    if "ComputeCPU i \<notin> set [ComputeCUDA c]" "ComputeCUDA i \<notin> set [ComputeCUDA c]"
  proof -
    have "c \<noteq> i" using that by simp
    then show ?thesis by (simp add: assignToGPU_dataMapCPU assignToGPU_dataMapCUDA)
  qed
qed (simp_all add: assignToGPU_map)

lemma scalarSpans_compute:
  assumes h: "scalarSpans s e0 i t"
  shows "scalarSpans s e0 i (computeCPUNode K k t)"
  using h
proof (rule scalarSpans_update)
  let ?es = "(if outputSize (nodes t ! k) \<noteq> 1 \<and> \<not> hasLogged (nodes t ! k) \<and> batchMode t = Cuda
              then [LogNoCuda k] else []) @ [ComputeCPU k]"
  show "events (computeCPUNode K k t) = events t @ ?es"
    by (simp add: computeCPUNode_events)
  from h have i: "i < length (nodes t)" "outputSize (nodes t ! i) = 1"
    "\<not> copyAfterEvaluation (nodes t ! i)" "batchMode t = Cuda"
    by (simp_all add: scalarSpans_def)
  show "dataMapCPU (computeCPUNode K k t) i = Some (ScalarPtr i, 1)
          \<and> dataMapCUDA (computeCPUNode K k t) i = Some (ScalarPtr i, 1)"
    if "ComputeCPU i \<in> set ?es \<or> ComputeCUDA i \<in> set ?es"
  proof -
    have "k = i" using that by (auto split: if_splits)
    then show ?thesis using i by (simp add: computeCPUNode_maps)
  qed
  show "dataMapCPU (computeCPUNode K k t) i = dataMapCPU t i
          \<and> dataMapCUDA (computeCPUNode K k t) i = dataMapCUDA t i"
    if "ComputeCPU i \<notin> set ?es" "ComputeCUDA i \<notin> set ?es"
  proof -
    have "k \<noteq> i" using that by auto
    then show ?thesis by (simp add: computeCPUNode_dataMapCPU computeCPUNode_dataMapCUDA)
  qed
qed (simp_all add: computeCPUNode_map)

lemma scalarSpans_counter:
  assumes h: "scalarSpans s e0 i t"
  shows "scalarSpans s e0 i (updNode c (\<lambda>info. info\<lparr>remServers := g info\<rparr>) t)"
  using h
  by (rule scalarSpans_update [where es = "[]"]) (simp_all add: map_list_update_same)

lemma scalarSpans_notify:
  assumes h: "scalarSpans s e0 i t"
  shows "scalarSpans s e0 i (notifyClientGPU K c t)"
proof -
  let ?t1 = "updNode c (\<lambda>infoClient. infoClient\<lparr>remServers := remServers infoClient - 1\<rparr>) t"
  have h1: "scalarSpans s e0 i ?t1" using h by (rule scalarSpans_counter)
  then have "scalarSpans s e0 i (assignToGPU K c ?t1)" by (rule scalarSpans_assign)
  then show ?thesis using h1 by (simp add: notifyClientGPU_def Let_def)
qed

lemma scalarSpans_notify_all:
  "scalarSpans s e0 i t \<Longrightarrow> scalarSpans s e0 i (fold (notifyClientGPU K) cs t)"
  by (induction cs arbitrary: t) (simp_all add: scalarSpans_notify)

lemma scalarSpans_release:
  assumes h: "scalarSpans s e0 i t"
  shows "scalarSpans s e0 i (fold releaseServer svs t)"
  using h
  by (rule scalarSpans_update [where es = "[]"]) (simp_all add: fold_releaseServer_map)

lemma scalarSpans_finishGPUNode:
  assumes h: "scalarSpans s e0 i t"
  shows "scalarSpans s e0 i (finishGPUNode active K k t)"
proof -
  let ?t0 = "t\<lparr>streamQueries := streamQueries t + 1\<rparr>"
  let ?t1 = "updNode k (\<lambda>info. info\<lparr>remServers := - 2\<rparr>) ?t0"
  let ?t2 = "fold (notifyClientGPU K) (clientInfos (nodes ?t1 ! k)) ?t1"
  have h0: "scalarSpans s e0 i ?t0"
    using h by (simp add: scalarSpans_def)
  then have "scalarSpans s e0 i ?t1" by (rule scalarSpans_counter)
  then have "scalarSpans s e0 i ?t2" by (rule scalarSpans_notify_all)
  then have "scalarSpans s e0 i (fold releaseServer (serverInfos (nodes ?t2 ! k)) ?t2)"
    by (rule scalarSpans_release)
  then show ?thesis
    using h h0 by (simp add: finishGPUNode_def Let_def)
qed

lemma scalarSpans_runCPUNode:
  assumes h: "scalarSpans s e0 i t"
  shows "scalarSpans s e0 i (runCPUNode K k t)"
proof -
  let ?t1 = "updNode k (\<lambda>info. info\<lparr>remServers := - 2\<rparr>) t"
  let ?t2 = "if \<not> fromDataset (nodes ?t1 ! k) then computeCPUNode K k ?t1 else ?t1"
  have same: "notifyClientCPU K = notifyClientGPU K"
    by (rule ext)+ (rule notifyClientCPU_eq)
  have h1: "scalarSpans s e0 i ?t1" using h by (rule scalarSpans_counter)
  then have "scalarSpans s e0 i (computeCPUNode K k ?t1)" by (rule scalarSpans_compute)
  then have "scalarSpans s e0 i ?t2" using h1 by simp
  then show ?thesis
    unfolding runCPUNode_def Let_def same
    by (intro scalarSpans_release scalarSpans_notify_all)
qed

lemma scalarSpans_step:
  assumes h: "scalarSpans s e0 i t"
  shows "scalarSpans s e0 i (schedulerStep active K t)"
proof -
  let ?t1 = "fold (finishGPUNode active K) [0..<length (nodes t)] t"
  have "scalarSpans s e0 i (fold (finishGPUNode active K) ks u)" if "scalarSpans s e0 i u" for ks u
    using that by (induction ks arbitrary: u) (simp_all add: scalarSpans_finishGPUNode)
  then have h1: "scalarSpans s e0 i ?t1" using h by blast
  show ?thesis
  proof (cases "nextCPUNode ?t1")
    case None
    have "scalarSpans s e0 i (logEvent Sleep ?t1)"
      using h1 by (rule scalarSpans_update [where es = "[Sleep]"]) simp_all
    then show ?thesis using None by (simp add: schedulerStep_def Let_def)
  next
    case (Some k)
    have "scalarSpans s e0 i (runCPUNode K k ?t1)"
      using h1 by (rule scalarSpans_runCPUNode)
    then show ?thesis using Some by (simp add: schedulerStep_def Let_def)
  qed
qed

lemma scalarSpans_iterate:
  "scalarSpans s e0 i t \<Longrightarrow> scalarSpans s e0 i ((schedulerStep active K ^^ m) t)"
  by (induction m) (simp_all add: scalarSpans_step)

lemma scalarSpans_initial:
  assumes "i < length (nodes s)" and "batchMode s = Cuda" and "outputSize (nodes s ! i) = 1"
    and "\<not> copyAfterEvaluation (nodes s ! i)"
  shows "scalarSpans s (length (events s)) i (assignInitial K (resetCounters s))"
proof -
  have "scalarSpans s (length (events s)) i s"
    using assms by (simp add: scalarSpans_def)
  then have r: "scalarSpans s (length (events s)) i (resetCounters s)"
    by (rule scalarSpans_update [where es = "[]"])
       (simp_all add: resetCounters_map, simp_all add: resetCounters_def)
  have "scalarSpans s (length (events s)) i
          (fold (\<lambda>i s. if remServers (nodes s ! i) = 0 \<and> computeInGPU (nodes s ! i)
                         then assignToGPU K i s else s) ks t)"
    if "scalarSpans s (length (events s)) i t" for ks t
    using that by (induction ks arbitrary: t) (simp_all add: scalarSpans_assign)
  then show ?thesis
    unfolding assignInitial_def using r by blast
qed


subsection \<open>The clients on the device are launched after the host kernel\<close>

lemma comesBefore_Nil [simp]: "comesBefore a b []"
  by (simp add: comesBefore_def)

lemma comesBefore_append:
  assumes "comesBefore a b xs" and "b \<in> set ys \<Longrightarrow> a \<in> set xs"
  shows "comesBefore a b (xs @ ys)"
proof (cases "a \<in> set xs")
  case True
  then have "takeWhile (\<lambda>e. e \<noteq> a) (xs @ ys) = takeWhile (\<lambda>e. e \<noteq> a) xs"
    by (intro takeWhile_append1 [of a]) simp_all
  then show ?thesis using assms(1) by (simp add: comesBefore_def)
next
  case False
  then have app: "takeWhile (\<lambda>e. e \<noteq> a) (xs @ ys) = xs @ takeWhile (\<lambda>e. e \<noteq> a) ys"
    by (intro takeWhile_append2) auto
  have all: "takeWhile (\<lambda>e. e \<noteq> a) xs = xs"
    using False by (intro takeWhile_eq_all_conv [THEN iffD2]) auto
  have "b \<notin> set xs" using assms(1) unfolding comesBefore_def all .
  moreover have "b \<notin> set ys" using assms(2) False by blast
  ultimately show ?thesis
    unfolding comesBefore_def app by (auto dest: set_takeWhileD)
qed

lemma launchedAfter_append:
  assumes ord: "launchedAfter e0 i ns0 t" and e0: "e0 \<le> length (events t)"
    and ev: "events t' = events t @ es"
    and launch: "\<And>c. c < length ns0 \<Longrightarrow> i \<in> set (serverInfos (ns0 ! c)) \<Longrightarrow>
                   ComputeCUDA c \<in> set es \<Longrightarrow> ComputeCPU i \<in> set (drop e0 (events t))"
  shows "launchedAfter e0 i ns0 t'"
  unfolding launchedAfter_def
proof (intro allI impI)
  fix c assume c: "c < length ns0" "i \<in> set (serverInfos (ns0 ! c))"
  have "comesBefore (ComputeCPU i) (ComputeCUDA c) (drop e0 (events t))"
    using ord c by (simp add: launchedAfter_def)
  then have "comesBefore (ComputeCPU i) (ComputeCUDA c) (drop e0 (events t) @ es)"
    by (rule comesBefore_append) (rule launch [OF c])
  then show "comesBefore (ComputeCPU i) (ComputeCUDA c) (drop e0 (events t'))"
    using e0 by (simp add: ev)
qed

lemma launchedAfter_quiet:
  assumes "launchedAfter e0 i ns0 t" and "e0 \<le> length (events t)"
    and "events t' = events t @ es" and "\<And>c. ComputeCUDA c \<notin> set es"
  shows "launchedAfter e0 i ns0 t'"
  using assms(1-3) by (rule launchedAfter_append) (use assms(4) in blast)

text \<open>
  When all the servers of \<open>c\<close> are retired, the kernel of a server that is computed on
  the host has been invoked.
\<close>

lemma servers_computed:
  assumes st: "schedState ns0 e0 rest s" and c: "c < length ns0" and i: "i < length ns0"
    and p: "pending (nodes s) c = 0" and sv: "i \<in> set (serverInfos (ns0 ! c))"
    and host: "\<not> computeInGPU (ns0 ! i)" "\<not> fromDataset (ns0 ! i)"
  shows "ComputeCPU i \<in> set (drop e0 (events s))"
proof -
  from st have g: "sameGraph (nodes s) ns0"
    and inv: "nodeInv rest (set (drop e0 (events s))) (nodes s) i"
    using i by (simp_all add: schedState_def)
  have "i \<in> set (serverInfos (nodes s ! c))"
    using sv sameGraph_nth(1) [OF g c] by simp
  then have "remServers (nodes s ! i) = - 2"
    using p by (simp add: pending_zero_iff)
  then show ?thesis
    using inv host sameGraph_nth(3,4) [OF g i] by (simp add: nodeInv_def)
qed

lemma launchedAfter_notify:
  assumes st: "schedState ns0 e0 (c # rest) s" and c: "c < length ns0" and i: "i < length ns0"
    and host: "\<not> computeInGPU (ns0 ! i)" "\<not> fromDataset (ns0 ! i)"
    and ord: "launchedAfter e0 i ns0 s"
  shows "launchedAfter e0 i ns0 (notifyClientGPU K c s)"
proof -
  have len: "length (nodes s) = length ns0" using schedState_length [OF st] .
  have e0: "e0 \<le> length (events s)" using st by (simp add: schedState_def)
  have ev: "events (notifyClientGPU K c s)
              = events s @ (if launches (nodes s) c then [ComputeCUDA c] else [])"
    using c len by (intro notifyClientGPU_events) simp
  show ?thesis
    using ord e0 ev
  proof (rule launchedAfter_append)
    fix c'
    assume c': "c' < length ns0" "i \<in> set (serverInfos (ns0 ! c'))"
      and "ComputeCUDA c' \<in> set (if launches (nodes s) c then [ComputeCUDA c] else [])"
    then have eq: "c' = c" and l: "launches (nodes s) c"
      by (auto split: if_splits)
    have "nodeInv (c # rest) (set (drop e0 (events s))) (nodes s) c"
      using st c by (simp add: schedState_def)
    then have "pending (nodes s) c = 0"
      using l pending_nonneg [of "nodes s" c] by (auto simp: nodeInv_def launches_def)
    then show "ComputeCPU i \<in> set (drop e0 (events s))"
      using servers_computed [OF st c i _ _ host] c'(2) eq by simp
  qed
qed

lemma launchedAfter_notify_all:
  assumes "schedState ns0 e0 cs s" and "\<And>c. c \<in> set cs \<Longrightarrow> c < length ns0"
    and "validEdges ns0" and "i < length ns0"
    and "\<not> computeInGPU (ns0 ! i)" "\<not> fromDataset (ns0 ! i)"
    and "launchedAfter e0 i ns0 s"
  shows "launchedAfter e0 i ns0 (fold (notifyClientGPU K) cs s)"
  using assms(1,2,7)
proof (induction cs arbitrary: s)
  case Nil
  then show ?case by simp
next
  case (Cons c cs)
  have c: "c < length ns0" using Cons.prems(2) by simp
  have "schedState ns0 e0 cs (notifyClientGPU K c s)"
    using Cons.prems(1) c assms(3) by (rule schedState_notify)
  moreover have "launchedAfter e0 i ns0 (notifyClientGPU K c s)"
    using Cons.prems(1) c assms(4-6) Cons.prems(3) by (rule launchedAfter_notify)
  ultimately show ?case using Cons.IH Cons.prems(2) by simp
qed

lemma launchedAfter_finishGPUNode:
  assumes st: "schedState ns0 e0 [] s" and k: "k < length ns0"
    and valid: "validEdges ns0" and mutual: "mutualEdges ns0" and i: "i < length ns0"
    and host: "\<not> computeInGPU (ns0 ! i)" "\<not> fromDataset (ns0 ! i)"
    and ord: "launchedAfter e0 i ns0 s"
  shows "launchedAfter e0 i ns0 (finishGPUNode active K k s)"
proof (cases "remServers (nodes s ! k) = - 1")
  case False
  then show ?thesis using ord by (simp add: finishGPUNode_def)
next
  case True
  let ?s0 = "s\<lparr>streamQueries := streamQueries s + 1\<rparr>"
  have st0: "schedState ns0 e0 [] ?s0"
    using st by (simp add: schedState_def)
  have ord0: "launchedAfter e0 i ns0 ?s0"
    using ord by (simp add: launchedAfter_def)
  show ?thesis
  proof (cases "active (streamQueries s) k")
    case active: True
    then show ?thesis using ord0 True by (simp add: finishGPUNode_def Let_def)
  next
    case idle: False
    let ?s1 = "updNode k (\<lambda>info. info\<lparr>remServers := - 2\<rparr>) ?s0"
    let ?s2 = "fold (notifyClientGPU K) (clientInfos (nodes ?s1 ! k)) ?s1"
    have len: "length (nodes s) = length ns0" using schedState_length [OF st] .
    have eq: "finishGPUNode active K k s = fold releaseServer (serverInfos (nodes ?s2 ! k)) ?s2"
      using True idle by (simp add: finishGPUNode_def Let_def)
    have cl: "clientInfos (nodes ?s1 ! k) = clientInfos (nodes ?s0 ! k)"
      using k len by simp
    have st1: "schedState ns0 e0 (clientInfos (nodes ?s0 ! k)) ?s1"
      by (rule schedState_retired_device [OF st0 k valid mutual]) (use True in simp)
    have ord1: "launchedAfter e0 i ns0 ?s1"
      using ord0 by (simp add: launchedAfter_def)
    have "launchedAfter e0 i ns0 ?s2"
      unfolding cl using st1 _ valid i host ord1
      by (rule launchedAfter_notify_all) (use schedState_clients [OF st0 valid k] in auto)
    then show ?thesis
      unfolding eq by (simp add: launchedAfter_def)
  qed
qed

lemma launchedAfter_finish_all:
  assumes "schedState ns0 e0 [] s" and "\<And>k. k \<in> set ks \<Longrightarrow> k < length ns0"
    and "validEdges ns0" and "mutualEdges ns0" and "i < length ns0"
    and "\<not> computeInGPU (ns0 ! i)" "\<not> fromDataset (ns0 ! i)"
    and "launchedAfter e0 i ns0 s"
  shows "launchedAfter e0 i ns0 (fold (finishGPUNode active K) ks s)"
  using assms(1,2,8)
proof (induction ks arbitrary: s)
  case Nil
  then show ?case by simp
next
  case (Cons k ks)
  have k: "k < length ns0" using Cons.prems(2) by simp
  have "schedState ns0 e0 [] (finishGPUNode active K k s)"
    using Cons.prems(1) k assms(3,4) by (rule schedState_finishGPUNode)
  moreover have "launchedAfter e0 i ns0 (finishGPUNode active K k s)"
    using Cons.prems(1) k assms(3-7) Cons.prems(3) by (rule launchedAfter_finishGPUNode)
  ultimately show ?case using Cons.IH Cons.prems(2) by simp
qed

lemma launchedAfter_runCPUNode:
  assumes st: "schedState ns0 e0 [] s" and k: "k < length ns0"
    and valid: "validEdges ns0" and mutual: "mutualEdges ns0"
    and ready: "remServers (nodes s ! k) = 0" "\<not> computeInGPU (nodes s ! k)"
    and i: "i < length ns0"
    and host: "\<not> computeInGPU (ns0 ! i)" "\<not> fromDataset (ns0 ! i)"
    and ord: "launchedAfter e0 i ns0 s"
  shows "launchedAfter e0 i ns0 (runCPUNode K k s)"
proof -
  let ?s1 = "updNode k (\<lambda>info. info\<lparr>remServers := - 2\<rparr>) s"
  let ?s2 = "if \<not> fromDataset (nodes ?s1 ! k) then computeCPUNode K k ?s1 else ?s1"
  let ?s3 = "fold (notifyClientGPU K) (clientInfos (nodes ?s2 ! k)) ?s2"
  have len: "length (nodes s) = length ns0" using schedState_length [OF st] .
  have e0: "e0 \<le> length (events s)" using st by (simp add: schedState_def)
  have same: "notifyClientCPU K = notifyClientGPU K"
    by (rule ext)+ (rule notifyClientCPU_eq)
  have eq: "runCPUNode K k s = fold releaseServer (serverInfos (nodes ?s3 ! k)) ?s3"
    by (simp add: runCPUNode_def Let_def same)
  have g2: "sameGraph (nodes ?s2) (nodes s)"
    by (simp add: sameGraph_def computeCPUNode_map map_list_update_same)
  have cl: "clientInfos (nodes ?s2 ! k) = clientInfos (nodes s ! k)"
    using sameGraph_nth(2) [OF g2, of k] k len by simp
  have st2: "schedState ns0 e0 (clientInfos (nodes s ! k)) ?s2"
    by (rule schedState_retired_host [OF st k valid mutual ready])
  have ord2: "launchedAfter e0 i ns0 ?s2"
  proof (cases "fromDataset (nodes ?s1 ! k)")
    case True
    then show ?thesis using ord by (simp add: launchedAfter_def)
  next
    case False
    have "launchedAfter e0 i ns0 (computeCPUNode K k ?s1)"
      using ord e0
    proof (rule launchedAfter_quiet)
      show "events (computeCPUNode K k ?s1) = events s
              @ ((if outputSize (nodes ?s1 ! k) \<noteq> 1 \<and> \<not> hasLogged (nodes ?s1 ! k)
                     \<and> batchMode ?s1 = Cuda then [LogNoCuda k] else []) @ [ComputeCPU k])"
        by (simp add: computeCPUNode_events)
    qed auto
    then show ?thesis using False by simp
  qed
  have "launchedAfter e0 i ns0 ?s3"
    unfolding cl using st2 _ valid i host ord2
    by (rule launchedAfter_notify_all) (use schedState_clients [OF st valid k] in auto)
  then show ?thesis
    unfolding eq by (simp add: launchedAfter_def)
qed

lemma launchedAfter_step:
  assumes st: "schedState ns0 e0 [] s" and valid: "validEdges ns0" and mutual: "mutualEdges ns0"
    and i: "i < length ns0"
    and host: "\<not> computeInGPU (ns0 ! i)" "\<not> fromDataset (ns0 ! i)"
    and ord: "launchedAfter e0 i ns0 s"
  shows "launchedAfter e0 i ns0 (schedulerStep active K s)"
proof -
  let ?s1 = "fold (finishGPUNode active K) [0..<length (nodes s)] s"
  have len: "length (nodes s) = length ns0" using schedState_length [OF st] .
  have st1: "schedState ns0 e0 [] ?s1"
    using st by (rule schedState_finish_all) (simp_all add: len valid mutual)
  have ord1: "launchedAfter e0 i ns0 ?s1"
    using st _ valid mutual i host ord by (rule launchedAfter_finish_all) (simp add: len)
  have e1: "e0 \<le> length (events ?s1)" using st1 by (simp add: schedState_def)
  show ?thesis
  proof (cases "nextCPUNode ?s1")
    case None
    have "launchedAfter e0 i ns0 (logEvent Sleep ?s1)"
      using ord1 e1 by (rule launchedAfter_quiet [where es = "[Sleep]"]) simp_all
    then show ?thesis using None by (simp add: schedulerStep_def Let_def)
  next
    case (Some k)
    note n = nextCPUNode_Some [OF Some]
    have "k < length ns0" using n(1) schedState_length [OF st1] by simp
    then have "launchedAfter e0 i ns0 (runCPUNode K k ?s1)"
      using st1 valid mutual n(2,3) i host ord1 by (intro launchedAfter_runCPUNode) simp_all
    then show ?thesis using Some by (simp add: schedulerStep_def Let_def)
  qed
qed

lemma launchedAfter_iterate:
  assumes st: "schedState ns0 e0 [] s" and valid: "validEdges ns0" and mutual: "mutualEdges ns0"
    and i: "i < length ns0"
    and host: "\<not> computeInGPU (ns0 ! i)" "\<not> fromDataset (ns0 ! i)"
    and ord: "launchedAfter e0 i ns0 s"
  shows "launchedAfter e0 i ns0 ((schedulerStep active K ^^ m) s)"
proof (induction m)
  case 0
  then show ?case using ord by simp
next
  case (Suc m)
  have "schedState ns0 e0 [] ((schedulerStep active K ^^ m) s)"
    using st valid mutual by (rule schedState_iterate)
  then show ?case
    using valid mutual i host Suc.IH by (simp add: launchedAfter_step)
qed

lemma launchedAfter_assign_all:
  assumes "schedState ns0 e0 [] s" and "\<And>k. k \<in> set ks \<Longrightarrow> k < length ns0"
    and "validEdges ns0" and "i < length ns0"
    and "\<not> computeInGPU (ns0 ! i)" "\<not> fromDataset (ns0 ! i)"
    and "launchedAfter e0 i ns0 s"
  shows "launchedAfter e0 i ns0
           (fold (\<lambda>i s. if remServers (nodes s ! i) = 0 \<and> computeInGPU (nodes s ! i)
                         then assignToGPU K i s else s) ks s)"
  using assms(1,2,7)
proof (induction ks arbitrary: s)
  case Nil
  then show ?case by simp
next
  case (Cons k ks)
  let ?s' = "if remServers (nodes s ! k) = 0 \<and> computeInGPU (nodes s ! k)
             then assignToGPU K k s else s"
  have k: "k < length ns0" using Cons.prems(2) by simp
  have e0: "e0 \<le> length (events s)" using Cons.prems(1) by (simp add: schedState_def)
  have st': "schedState ns0 e0 [] ?s'"
    using Cons.prems(1) schedState_launch [OF Cons.prems(1) k assms(3), of K] by simp
  note prem = Cons.prems(3)
  have ord': "launchedAfter e0 i ns0 ?s'"
  proof (cases "remServers (nodes s ! k) = 0 \<and> computeInGPU (nodes s ! k)")
    case False
    then show ?thesis using prem by auto
  next
    case True
    have "launchedAfter e0 i ns0 (assignToGPU K k s)"
      using prem e0
    proof (rule launchedAfter_append)
      show "events (assignToGPU K k s) = events s @ [ComputeCUDA k]" by simp
      fix c
      assume c: "c < length ns0" "i \<in> set (serverInfos (ns0 ! c))"
        and "ComputeCUDA c \<in> set [ComputeCUDA k]"
      then have eq: "c = k" by simp
      have "nodeInv [] (set (drop e0 (events s))) (nodes s) k"
        using Cons.prems(1) k by (simp add: schedState_def)
      then have "pending (nodes s) k = 0"
        using True by (auto simp: nodeInv_def)
      then show "ComputeCPU i \<in> set (drop e0 (events s))"
        using servers_computed [OF Cons.prems(1) k assms(4) _ _ assms(5,6)] c(2) eq by simp
    qed
    then show ?thesis using True by simp
  qed
  show ?case
    using Cons.IH [OF st' _ ord'] Cons.prems(2) by simp
qed

lemma launchedAfter_initial:
  assumes valid: "validEdges (nodes s)" and i: "i < length (nodes s)"
    and host: "\<not> computeInGPU (nodes s ! i)" "\<not> fromDataset (nodes s ! i)"
  shows "launchedAfter (length (events s)) i (nodes s) (assignInitial K (resetCounters s))"
proof -
  have len: "length (nodes (resetCounters s)) = length (nodes s)"
    by (simp add: resetCounters_def)
  have "launchedAfter (length (events s)) i (nodes s) (resetCounters s)"
    by (simp add: launchedAfter_def resetCounters_def)
  then show ?thesis
    unfolding assignInitial_def
    using schedState_resetCounters [OF valid] valid i host
    by (intro launchedAfter_assign_all) (simp_all add: len)
qed


subsection \<open>The host kernel of a scalar node\<close>

lemma computeCPUNode_scalar:
  assumes "batchMode t = Cuda" and "i < length (nodes t)" and "outputSize (nodes t ! i) = 1"
    and "\<not> copyAfterEvaluation (nodes t ! i)"
  shows "events (computeCPUNode K i t) = events t @ [ComputeCPU i]"
    and "dataMapCUDA (computeCPUNode K i t) i = Some (ScalarPtr i, 1)"
    and "scalarBuffer (nodes (computeCPUNode K i t) ! i)
           = K i Host 1 (dataMapView t ((dataMapCPU t)(i \<mapsto> (ScalarPtr i, 1)))) 0"
proof -
  show "events (computeCPUNode K i t) = events t @ [ComputeCPU i]"
    using assms by (simp add: computeCPUNode_events)
  show "dataMapCUDA (computeCPUNode K i t) i = Some (ScalarPtr i, 1)"
    using assms by (simp add: computeCPUNode_maps)
  let ?t2 = "t\<lparr>dataMapCUDA := (dataMapCUDA t)(i \<mapsto> (ScalarPtr i, 1)),
               dataMapCPU := (dataMapCPU t)(i \<mapsto> (ScalarPtr i, 1))\<rparr>"
  have sv: "spanValues ?t2 = spanValues t"
    by (rule spanValues_cong) simp_all
  have view: "dataMapView ?t2 (dataMapCPU ?t2)
                     = dataMapView t ((dataMapCPU t)(i \<mapsto> (ScalarPtr i, 1)))"
    unfolding dataMapView_def sv by simp
  have "scalarBuffer (nodes (computeCPUNode K i t) ! i)
          = K i Host 1 (dataMapView ?t2 (dataMapCPU ?t2)) 0"
    using assms by (simp add: computeCPUNode_def Let_def computeBatch_def writeOutput_def)
  then show "scalarBuffer (nodes (computeCPUNode K i t) ! i)
           = K i Host 1 (dataMapView t ((dataMapCPU t)(i \<mapsto> (ScalarPtr i, 1)))) 0"
    unfolding view .
qed

text \<open>
  Claim C5, as the code has it. Device mode, a scalar node \<open>i\<close> of a graph that
  satisfies the data-model invariants and consists of the top node and its transitive
  servers. The node is assigned to the device iff it is a reducer with a CUDA kernel.
  \<^verbatim>\<open>computeCPUNode\<close> on the node logs the invocation of its host kernel, publishes its
  scalar buffer in the device data map in the same call, and the buffer holds what the
  kernel wrote. At every head of the loop of the scheduler, both data maps point to the
  scalar buffer of the node once its kernel has been invoked on either side, and are as
  the evaluation found them until then (for a node without \<^verbatim>\<open>copyAfterEvaluation\<close>,
  which \<^verbatim>\<open>markGPUNodes\<close> never sets on a scalar node); and if the node is computed on
  the host, no client of it has been launched on the device before the invocation of its
  host kernel.
  \<^verbatim>\<open>getVal\<close> returns if the streams of the device are idle from some query on. When it
  returns it does so from a head of the loop; the kernel of the node has been invoked on
  the device iff the node is a reducer with a CUDA kernel, and on the host iff it is not
  and the dataset does not bind the node (a scalar node bound to the dataset that stays on
  the host has no kernel invoked); and every node that computes on the device has been
  launched.
\<close>

theorem getVal_device_scalar_node:
  fixes s :: "'v RooFitDriver" and K :: "'v Kernel" and active :: "nat \<Rightarrow> nat \<Rightarrow> bool"
    and counter :: "nat \<Rightarrow> 64 word"
  assumes wf: "wellFormed (nodes s)" and top: "feedsTop (nodes s)" and dev: "batchMode s = Cuda"
    and i: "i < length (nodes s)" and scalar: "outputSize (nodes s ! i) = 1"
  defines "start \<equiv> assignInitial K (resetCounters (s\<lparr>getValInvocations := getValInvocations s + 1\<rparr>))"
    and "log \<equiv> \<lambda>t. drop (length (events s)) (events t)"
  shows "(computeInGPU (nodes s ! i) \<longleftrightarrow>
            isReducerNode (nodes s ! i) \<and> canComputeBatchWithCuda (nodes s ! i))
       \<and> (\<forall>t. batchMode t = Cuda \<and> i < length (nodes t) \<and> outputSize (nodes t ! i) = 1
               \<and> \<not> copyAfterEvaluation (nodes t ! i) \<longrightarrow>
             events (computeCPUNode K i t) = events t @ [ComputeCPU i]
             \<and> dataMapCUDA (computeCPUNode K i t) i = Some (ScalarPtr i, 1)
             \<and> scalarBuffer (nodes (computeCPUNode K i t) ! i)
                 = K i Host 1 (dataMapView t ((dataMapCPU t)(i \<mapsto> (ScalarPtr i, 1)))) 0)
       \<and> (\<forall>m. (\<not> copyAfterEvaluation (nodes s ! i) \<longrightarrow>
                  (if ComputeCPU i \<in> set (log ((schedulerStep active K ^^ m) start))
                      \<or> ComputeCUDA i \<in> set (log ((schedulerStep active K ^^ m) start))
                   then dataMapCPU ((schedulerStep active K ^^ m) start) i = Some (ScalarPtr i, 1)
                        \<and> dataMapCUDA ((schedulerStep active K ^^ m) start) i
                            = Some (ScalarPtr i, 1)
                   else dataMapCPU ((schedulerStep active K ^^ m) start) i = dataMapCPU s i
                        \<and> dataMapCUDA ((schedulerStep active K ^^ m) start) i = dataMapCUDA s i))
               \<and> (\<not> computeInGPU (nodes s ! i) \<and> \<not> fromDataset (nodes s ! i) \<longrightarrow>
                    (\<forall>c < length (nodes s). i \<in> set (serverInfos (nodes s ! c)) \<longrightarrow>
                       comesBefore (ComputeCPU i) (ComputeCUDA c)
                         (log ((schedulerStep active K ^^ m) start)))))
       \<and> ((\<exists>Q. \<forall>q \<ge> Q. \<forall>j. \<not> active q j) \<longrightarrow>
            (\<exists>fuel r s'. getVal fuel active K counter s = Some (r, s')))
       \<and> (\<forall>fuel r s'. getVal fuel active K counter s = Some (r, s') \<longrightarrow>
            (\<exists>m. s' = (schedulerStep active K ^^ m) start)
            \<and> (ComputeCUDA i \<in> set (log s') \<longleftrightarrow> computeInGPU (nodes s ! i))
            \<and> (ComputeCPU i \<in> set (log s') \<longleftrightarrow>
                 \<not> computeInGPU (nodes s ! i) \<and> \<not> fromDataset (nodes s ! i))
            \<and> (\<forall>c < length (nodes s). computeInGPU (nodes s ! c) \<longrightarrow>
                 ComputeCUDA c \<in> set (log s')))"
proof -
  let ?s0 = "s\<lparr>getValInvocations := getValInvocations s + 1\<rparr>"
  let ?it = "\<lambda>m. (schedulerStep active K ^^ m) start"
  have valid: "validEdges (nodes s)" and mutual: "mutualEdges (nodes s)"
    using wf by (simp_all add: wellFormed_def)
  have place: "computeInGPU (nodes s ! i) \<longleftrightarrow>
            isReducerNode (nodes s ! i) \<and> canComputeBatchWithCuda (nodes s ! i)"
    using scalar by (simp add: computeInGPU_def isScalar_def)
  have kernel: "events (computeCPUNode K i t) = events t @ [ComputeCPU i]
             \<and> dataMapCUDA (computeCPUNode K i t) i = Some (ScalarPtr i, 1)
             \<and> scalarBuffer (nodes (computeCPUNode K i t) ! i)
                 = K i Host 1 (dataMapView t ((dataMapCPU t)(i \<mapsto> (ScalarPtr i, 1)))) 0"
    if "batchMode t = Cuda \<and> i < length (nodes t) \<and> outputSize (nodes t ! i) = 1
               \<and> \<not> copyAfterEvaluation (nodes t ! i)" for t
    using computeCPUNode_scalar [of t i K] that by blast
  have "schedState (nodes ?s0) (length (events ?s0)) [] start"
    unfolding start_def by (rule schedState_initial) (use valid in simp)
  then have st0: "schedState (nodes s) (length (events s)) [] start" by simp
  then have st: "schedState (nodes s) (length (events s)) [] (?it m)" for m
    using valid mutual by (rule schedState_iterate)
  have spans: "if ComputeCPU i \<in> set (log (?it m)) \<or> ComputeCUDA i \<in> set (log (?it m))
                 then dataMapCPU (?it m) i = Some (ScalarPtr i, 1)
                      \<and> dataMapCUDA (?it m) i = Some (ScalarPtr i, 1)
                 else dataMapCPU (?it m) i = dataMapCPU s i
                      \<and> dataMapCUDA (?it m) i = dataMapCUDA s i"
    if nc: "\<not> copyAfterEvaluation (nodes s ! i)" for m
  proof -
    have "scalarSpans ?s0 (length (events ?s0)) i start"
      unfolding start_def by (rule scalarSpans_initial) (use i dev scalar nc in simp_all)
    then have "scalarSpans ?s0 (length (events ?s0)) i (?it m)"
      by (rule scalarSpans_iterate)
    then show ?thesis
      unfolding scalarSpans_def log_def by simp
  qed
  have order: "\<forall>c < length (nodes s). i \<in> set (serverInfos (nodes s ! c)) \<longrightarrow>
                 comesBefore (ComputeCPU i) (ComputeCUDA c) (log (?it m))"
    if host: "\<not> computeInGPU (nodes s ! i) \<and> \<not> fromDataset (nodes s ! i)" for m
  proof -
    have "launchedAfter (length (events ?s0)) i (nodes ?s0) start"
      unfolding start_def by (rule launchedAfter_initial) (use valid i host in simp_all)
    then have "launchedAfter (length (events s)) i (nodes s) start" by simp
    then have "launchedAfter (length (events s)) i (nodes s) (?it m)"
      using st0 valid mutual i host by (intro launchedAfter_iterate) simp_all
    then show ?thesis by (simp add: launchedAfter_def log_def)
  qed
  have returns: "\<exists>fuel r s'. getVal fuel active K counter s = Some (r, s')"
    if ex: "\<exists>Q. \<forall>q \<ge> Q. \<forall>j. \<not> active q j"
  proof -
    obtain Q where fair: "\<forall>q \<ge> Q. \<forall>j. \<not> active q j" using ex by blast
    have ne: "nodes s \<noteq> []" using top by (simp add: feedsTop_def)
    show ?thesis by (rule getVal_device_returns [OF wf ne dev fair])
  qed
  have final: "(\<exists>m. s' = ?it m)
            \<and> (ComputeCUDA i \<in> set (log s') \<longleftrightarrow> computeInGPU (nodes s ! i))
            \<and> (ComputeCPU i \<in> set (log s') \<longleftrightarrow>
                 \<not> computeInGPU (nodes s ! i) \<and> \<not> fromDataset (nodes s ! i))
            \<and> (\<forall>c < length (nodes s). computeInGPU (nodes s ! c) \<longrightarrow>
                 ComputeCUDA c \<in> set (log s'))"
    if e: "getVal fuel active K counter s = Some (r, s')" for fuel r s'
  proof -
    note fin = getVal_device_final [OF wf top dev e]
    have g: "sameGraph (nodes s') (nodes s)"
      using fin(1) by (simp add: schedState_def)
    have inv: "nodeInv [] (set (log s')) (nodes s') j" if "j < length (nodes s)" for j
      using fin(1) that by (simp add: schedState_def log_def)
    have m: "\<exists>m. s' = ?it m"
      using fin(3) unfolding schedulerLoop_Some_iff start_def by blast
    have cuda: "ComputeCUDA j \<in> set (log s') \<longleftrightarrow> computeInGPU (nodes s ! j)"
      if "j < length (nodes s)" for j
      using inv [OF that] fin(2) [OF that] sameGraph_nth(3) [OF g that]
      by (simp add: nodeInv_def)
    have cpu: "ComputeCPU i \<in> set (log s') \<longleftrightarrow>
                 \<not> computeInGPU (nodes s ! i) \<and> \<not> fromDataset (nodes s ! i)"
      using inv [OF i] fin(2) [OF i] sameGraph_nth(3,4) [OF g i]
      by (simp add: nodeInv_def)
    show ?thesis using m cuda cpu i by blast
  qed
  show ?thesis
    using place kernel spans order returns final by blast
qed


lemma example_weighted_facts:
  "wellFormed (nodes exampleBoundW)" "feedsTop (nodes exampleBoundW)"
  "batchMode exampleBoundW = Cuda"
proof -
  show wf: "wellFormed (nodes exampleBoundW)" by code_simp
  show "batchMode exampleBoundW = Cuda" by code_simp
  show "feedsTop (nodes exampleBoundW)"
  proof (rule feedsTop_by_search)
    show "validEdges (nodes exampleBoundW)" using wf by (simp add: wellFormed_def)
    show "nodes exampleBoundW \<noteq> []" by code_simp
    show "\<forall>i \<in> set [0..<length (nodes exampleBoundW)].
            i \<in> set (withServers (nodes exampleBoundW) (length (nodes exampleBoundW))
                       [length (nodes exampleBoundW) - 1])"
      by code_simp
  qed
qed

lemma example_weighted_eval:
  "getVal 12 exampleActive (exampleKernelW 2) (\<lambda>i. 0) exampleBoundW
     = Some (Inr 432, exampleDeviceEvalW)"
proof -
  have "case getVal 12 exampleActive (exampleKernelW 2) (\<lambda>i. 0) exampleBoundW of
          None \<Rightarrow> False | Some (r, s') \<Rightarrow> r = Inr 432"
    by code_simp
  then show ?thesis
    by (auto simp: exampleDeviceEvalW_def split: option.splits)
qed

text \<open>
  In the example the parameter \<open>p\<close> is computed on the host before \<open>f\<close> is launched
  on the device, and the reducer \<open>top\<close> is computed on the device. In the example with
  more data the global observable \<open>g\<close> is bound to the dataset: no kernel is invoked for
  it, and the device data map keeps the host span \<^verbatim>\<open>setData\<close> has put there.
\<close>

theorem getVal_device_scalar_node_witness:
  "wellFormed (nodes (exampleBound Cuda)) \<and> feedsTop (nodes (exampleBound Cuda))
   \<and> batchMode (exampleBound Cuda) = Cuda
   \<and> getVal 10 exampleActive (exampleKernel 2) (\<lambda>i. 0) (exampleBound Cuda)
       = Some (Inr 12, exampleDeviceEval)
   \<and> (\<exists>fuel r s'. getVal fuel exampleActive (exampleKernel 2) (\<lambda>i. 0) (exampleBound Cuda)
                      = Some (r, s'))
   \<and> 1 < length (nodes (exampleBound Cuda)) \<and> outputSize (nodes (exampleBound Cuda) ! 1) = 1
   \<and> \<not> copyAfterEvaluation (nodes (exampleBound Cuda) ! 1)
   \<and> \<not> computeInGPU (nodes (exampleBound Cuda) ! 1)
   \<and> \<not> fromDataset (nodes (exampleBound Cuda) ! 1)
   \<and> 1 \<in> set (serverInfos (nodes (exampleBound Cuda) ! 2))
   \<and> computeInGPU (nodes (exampleBound Cuda) ! 2)
   \<and> ComputeCPU 1 \<in> set (drop (length (events (exampleBound Cuda))) (events exampleDeviceEval))
   \<and> ComputeCUDA 1 \<notin> set (drop (length (events (exampleBound Cuda))) (events exampleDeviceEval))
   \<and> ComputeCUDA 2 \<in> set (drop (length (events (exampleBound Cuda))) (events exampleDeviceEval))
   \<and> comesBefore (ComputeCPU 1) (ComputeCUDA 2)
       (drop (length (events (exampleBound Cuda))) (events exampleDeviceEval))
   \<and> dataMapCUDA exampleDeviceEval 1 = Some (ScalarPtr 1, 1)
   \<and> 3 < length (nodes (exampleBound Cuda)) \<and> outputSize (nodes (exampleBound Cuda) ! 3) = 1
   \<and> \<not> copyAfterEvaluation (nodes (exampleBound Cuda) ! 3)
   \<and> isReducerNode (nodes (exampleBound Cuda) ! 3)
   \<and> canComputeBatchWithCuda (nodes (exampleBound Cuda) ! 3)
   \<and> computeInGPU (nodes (exampleBound Cuda) ! 3)
   \<and> ComputeCUDA 3 \<in> set (drop (length (events (exampleBound Cuda))) (events exampleDeviceEval))
   \<and> ComputeCPU 3 \<notin> set (drop (length (events (exampleBound Cuda))) (events exampleDeviceEval))
   \<and> dataMapCUDA exampleDeviceEval 3 = Some (ScalarPtr 3, 1)
   \<and> wellFormed (nodes exampleBoundW) \<and> feedsTop (nodes exampleBoundW)
   \<and> batchMode exampleBoundW = Cuda
   \<and> getVal 12 exampleActive (exampleKernelW 2) (\<lambda>i. 0) exampleBoundW
       = Some (Inr 432, exampleDeviceEvalW)
   \<and> 2 < length (nodes exampleBoundW) \<and> outputSize (nodes exampleBoundW ! 2) = 1
   \<and> \<not> copyAfterEvaluation (nodes exampleBoundW ! 2)
   \<and> \<not> computeInGPU (nodes exampleBoundW ! 2) \<and> fromDataset (nodes exampleBoundW ! 2)
   \<and> ComputeCPU 2 \<notin> set (drop (length (events exampleBoundW)) (events exampleDeviceEvalW))
   \<and> ComputeCUDA 2 \<notin> set (drop (length (events exampleBoundW)) (events exampleDeviceEvalW))
   \<and> dataMapCUDA exampleDeviceEvalW 2 = dataMapCUDA exampleBoundW 2
   \<and> dataMapCUDA exampleBoundW 2 = Some (DataPtr [7], 1)"
proof -
  let ?log = "\<lambda>t. drop (length (events (exampleBound Cuda))) (events t)"
  let ?logW = "\<lambda>t. drop (length (events exampleBoundW)) (events t)"
  have p: "1 < length (nodes (exampleBound Cuda))" "outputSize (nodes (exampleBound Cuda) ! 1) = 1"
    by code_simp+
  have p': "\<not> isReducerNode (nodes (exampleBound Cuda) ! 1)"
    "\<not> copyAfterEvaluation (nodes (exampleBound Cuda) ! 1)"
    "\<not> fromDataset (nodes (exampleBound Cuda) ! 1)"
    "2 < length (nodes (exampleBound Cuda))"
    "1 \<in> set (serverInfos (nodes (exampleBound Cuda) ! 2))"
    "computeInGPU (nodes (exampleBound Cuda) ! 2)"
    by code_simp+
  have top: "3 < length (nodes (exampleBound Cuda))" "outputSize (nodes (exampleBound Cuda) ! 3) = 1"
    by code_simp+
  have top': "isReducerNode (nodes (exampleBound Cuda) ! 3)"
    "\<not> copyAfterEvaluation (nodes (exampleBound Cuda) ! 3)"
    "canComputeBatchWithCuda (nodes (exampleBound Cuda) ! 3)"
    by code_simp+
  have g: "2 < length (nodes exampleBoundW)" "outputSize (nodes exampleBoundW ! 2) = 1"
    by code_simp+
  have g': "\<not> isReducerNode (nodes exampleBoundW ! 2)" "fromDataset (nodes exampleBoundW ! 2)"
    "\<not> copyAfterEvaluation (nodes exampleBoundW ! 2)"
    "dataMapCUDA exampleBoundW 2 = Some (DataPtr [7], 1)"
    by code_simp+
  note tp = getVal_device_scalar_node
              [OF example_device_facts p, where active = exampleActive and K = "exampleKernel 2"
                 and counter = "\<lambda>i. 0"]
  note tt = getVal_device_scalar_node
              [OF example_device_facts top, where active = exampleActive and K = "exampleKernel 2"
                 and counter = "\<lambda>i. 0"]
  note tg = getVal_device_scalar_node
              [OF example_weighted_facts g, where active = exampleActive and K = "exampleKernelW 2"
                 and counter = "\<lambda>i. 0"]
  have hostp: "\<not> computeInGPU (nodes (exampleBound Cuda) ! 1)"
    using tp p'(1) by blast
  have ret: "\<exists>fuel r s'. getVal fuel exampleActive (exampleKernel 2) (\<lambda>i. 0) (exampleBound Cuda)
                      = Some (r, s')"
    using tp example_streams_idle by blast
  have evp: "ComputeCPU 1 \<in> set (?log exampleDeviceEval)"
    "ComputeCUDA 1 \<notin> set (?log exampleDeviceEval)"
    "ComputeCUDA 2 \<in> set (?log exampleDeviceEval)"
    using tp example_device_eval hostp p' by blast+
  obtain m where m: "exampleDeviceEval = (schedulerStep exampleActive (exampleKernel 2) ^^ m)
       (assignInitial (exampleKernel 2)
          (resetCounters ((exampleBound Cuda)
             \<lparr>getValInvocations := getValInvocations (exampleBound Cuda) + 1\<rparr>)))"
    using tp example_device_eval by blast
  have "(if ComputeCPU 1 \<in> set (?log exampleDeviceEval) \<or> ComputeCUDA 1 \<in> set (?log exampleDeviceEval)
         then dataMapCPU exampleDeviceEval 1 = Some (ScalarPtr 1, 1)
              \<and> dataMapCUDA exampleDeviceEval 1 = Some (ScalarPtr 1, 1)
         else dataMapCPU exampleDeviceEval 1 = dataMapCPU (exampleBound Cuda) 1
              \<and> dataMapCUDA exampleDeviceEval 1 = dataMapCUDA (exampleBound Cuda) 1)
        \<and> (\<not> computeInGPU (nodes (exampleBound Cuda) ! 1)
             \<and> \<not> fromDataset (nodes (exampleBound Cuda) ! 1) \<longrightarrow>
            (\<forall>c < length (nodes (exampleBound Cuda)).
               1 \<in> set (serverInfos (nodes (exampleBound Cuda) ! c)) \<longrightarrow>
               comesBefore (ComputeCPU 1) (ComputeCUDA c) (?log exampleDeviceEval)))"
    unfolding m using tp p'(2) by blast
  then have mp: "dataMapCUDA exampleDeviceEval 1 = Some (ScalarPtr 1, 1)"
    "comesBefore (ComputeCPU 1) (ComputeCUDA 2) (?log exampleDeviceEval)"
    using evp(1) hostp p' by auto
  have devt: "computeInGPU (nodes (exampleBound Cuda) ! 3)"
    using tt top' by blast
  have evt: "ComputeCUDA 3 \<in> set (?log exampleDeviceEval)"
    "ComputeCPU 3 \<notin> set (?log exampleDeviceEval)"
    using tt example_device_eval devt by blast+
  have "if ComputeCPU 3 \<in> set (?log exampleDeviceEval) \<or> ComputeCUDA 3 \<in> set (?log exampleDeviceEval)
         then dataMapCPU exampleDeviceEval 3 = Some (ScalarPtr 3, 1)
              \<and> dataMapCUDA exampleDeviceEval 3 = Some (ScalarPtr 3, 1)
         else dataMapCPU exampleDeviceEval 3 = dataMapCPU (exampleBound Cuda) 3
              \<and> dataMapCUDA exampleDeviceEval 3 = dataMapCUDA (exampleBound Cuda) 3"
    unfolding m using tt top'(2) by blast
  then have mt: "dataMapCUDA exampleDeviceEval 3 = Some (ScalarPtr 3, 1)"
    using evt(1) by auto
  have hostg: "\<not> computeInGPU (nodes exampleBoundW ! 2)"
    using tg g'(1) by blast
  have evg: "ComputeCPU 2 \<notin> set (?logW exampleDeviceEvalW)"
    "ComputeCUDA 2 \<notin> set (?logW exampleDeviceEvalW)"
    using tg example_weighted_eval hostg g'(2) by blast+
  obtain mW where mW: "exampleDeviceEvalW = (schedulerStep exampleActive (exampleKernelW 2) ^^ mW)
       (assignInitial (exampleKernelW 2)
          (resetCounters (exampleBoundW
             \<lparr>getValInvocations := getValInvocations exampleBoundW + 1\<rparr>)))"
    using tg example_weighted_eval by blast
  have "if ComputeCPU 2 \<in> set (?logW exampleDeviceEvalW) \<or> ComputeCUDA 2 \<in> set (?logW exampleDeviceEvalW)
         then dataMapCPU exampleDeviceEvalW 2 = Some (ScalarPtr 2, 1)
              \<and> dataMapCUDA exampleDeviceEvalW 2 = Some (ScalarPtr 2, 1)
         else dataMapCPU exampleDeviceEvalW 2 = dataMapCPU exampleBoundW 2
              \<and> dataMapCUDA exampleDeviceEvalW 2 = dataMapCUDA exampleBoundW 2"
    unfolding mW using tg g'(3) by blast
  then have mg: "dataMapCUDA exampleDeviceEvalW 2 = dataMapCUDA exampleBoundW 2"
    using evg by auto
  show ?thesis
    using example_device_facts example_device_eval ret p p' hostp evp mp top top' devt evt mt
      example_weighted_facts example_weighted_eval g g' hostg evg mg
    by simp
qed

text \<open>
  Claim C5 as stated has every scalar node run in the host loop. The top node of the
  example is scalar, and it is a reducer with a CUDA kernel: it is assigned to the
  device, and the host loop never runs its kernel.
\<close>

theorem scalar_reducer_assigned_to_device:
  "outputSize (nodes (exampleBound Cuda) ! 3) = 1
   \<and> computeInGPU (nodes (exampleBound Cuda) ! 3)
   \<and> (case getVal 10 exampleActive (exampleKernel 2) (\<lambda>i. 0) (exampleBound Cuda) of
        None \<Rightarrow> False
      | Some (r, s') \<Rightarrow> ComputeCUDA 3 \<in> set (events s') \<and> ComputeCPU 3 \<notin> set (events s'))"
  by code_simp

end
